(* ===== verification/Prelude.thy ===== *)
theory Prelude
  imports Main "HOL-Library.Word"
begin

text \<open>
  Shared vocabulary of the development.

  \<^item> C unsigned arithmetic: \<open>u32\<close> and \<open>u64\<close> are the conversions to \<open>uint32_t\<close> and \<open>uint64_t\<close>
    (reduction modulo the width); a model writes one wherever the source computes at that width.
  \<^item> C strings: a NUL-terminated buffer is the \<open>string\<close> before its terminator, and \<open>byte_at\<close>
    reads the terminator at the end.
  \<^item> \<open>three_way\<close>: the contract of a C comparison function (negative, zero, positive), shared by
    version precedence, magnitude comparison and byte-string comparison.
  \<^item> \<open>width_simps\<close> collects the facts that discharge the conversions when a bound is known.
\<close>

named_theorems width_simps \<open>a value below the width is unchanged by the conversion\<close>

subsection \<open>Fixed-width unsigned conversions\<close>

definition u32 :: "nat \<Rightarrow> nat" where
  "u32 n = n mod 4294967296"

definition u64 :: "nat \<Rightarrow> nat" where
  "u64 n = n mod 18446744073709551616"

lemma u32_id [width_simps]: "n < 4294967296 \<Longrightarrow> u32 n = n"
  by (simp add: u32_def)

lemma u64_id [width_simps]: "n < 18446744073709551616 \<Longrightarrow> u64 n = n"
  by (simp add: u64_def)

lemma u32_less [simp]: "u32 n < 4294967296"
  by (simp add: u32_def)

lemma u64_less [simp]: "u64 n < 18446744073709551616"
  by (simp add: u64_def)

text \<open>Subtraction of \<open>size_t\<close> values and the conversion to a 64-bit signed integer.\<close>

definition usub64 :: "nat \<Rightarrow> nat \<Rightarrow> nat" where
  "usub64 a b = u64 (a + (18446744073709551616 - u64 b))"

definition s64 :: "int \<Rightarrow> int" where
  "s64 i = (i + 9223372036854775808) mod 18446744073709551616 - 9223372036854775808"

lemma usub64_id [width_simps]: "b \<le> a \<Longrightarrow> a < 18446744073709551616 \<Longrightarrow> usub64 a b = a - b"
proof -
  assume "b \<le> a" "a < 18446744073709551616"
  then have "u64 b = b" "a + (18446744073709551616 - b) = (a - b) + 18446744073709551616"
    by (simp_all add: u64_id)
  then have "usub64 a b = u64 (a - b + 18446744073709551616)" by (simp only: usub64_def)
  then show ?thesis using \<open>a < 18446744073709551616\<close> by (simp add: u64_def)
qed

lemma s64_id [width_simps]: "- 9223372036854775808 \<le> i \<Longrightarrow> i < 9223372036854775808 \<Longrightarrow> s64 i = i"
  by (simp add: s64_def)

lemma s64_add_left [simp]: "s64 (s64 i + j) = s64 (i + j)"
  by (simp add: s64_def mod_simps algebra_simps)

lemma s64_add_right [simp]: "s64 (i + s64 j) = s64 (i + j)"
  using s64_add_left [of j i] by (simp add: add.commute)

lemma s64_diff_left [simp]: "s64 (s64 i - j) = s64 (i - j)"
  using s64_add_left [of i "- j"] by simp

lemma s64_diff_right [simp]: "s64 (i - s64 j) = s64 (i - j)"
  by (simp add: s64_def mod_simps algebra_simps)

lemma s64_idem [simp]: "s64 (s64 i) = s64 i"
  using s64_add_left [of i 0] by simp

lemma s64_0 [simp]: "s64 0 = 0"
  by (simp add: s64_def)

definition int64_min :: int where
  "int64_min = - 9223372036854775808"

definition int64_max :: int where
  "int64_max = 9223372036854775807"

definition fits_int64 :: "int \<Rightarrow> bool" where
  "fits_int64 i \<longleftrightarrow> int64_min \<le> i \<and> i \<le> int64_max"

lemma sgn_diff_less: "m < n \<Longrightarrow> sgn (int m - int n) = -1"
  by simp

lemma sgn_diff_greater: "m < n \<Longrightarrow> sgn (int n - int m) = 1"
  by simp

lemma int_mod_eq_diff: "int (n mod m) = int n - int m * int (n div m)"
  by (metis add_diff_cancel_left' mult_div_mod_eq of_nat_add of_nat_mult)

subsection \<open>NUL-terminated strings\<close>

abbreviation NUL :: char where
  "NUL \<equiv> CHR 0x00"

definition byte_at :: "string \<Rightarrow> nat \<Rightarrow> char" where
  "byte_at s i = (if i < length s then s ! i else NUL)"

definition c_string :: "string \<Rightarrow> bool" where
  "c_string s \<longleftrightarrow> NUL \<notin> set s"

lemma byte_at_end [simp]: "length s \<le> i \<Longrightarrow> byte_at s i = NUL"
  by (simp add: byte_at_def)

lemma byte_at_inside: "byte_at s i \<noteq> NUL \<Longrightarrow> i < length s"
  by (auto simp: byte_at_def split: if_splits)

lemma byte_at_NUL_iff: "c_string s \<Longrightarrow> byte_at s i = NUL \<longleftrightarrow> length s \<le> i"
  by (metis byte_at_def c_string_def linorder_not_less nth_mem)

lemma byte_at_Cons_0 [simp]: "byte_at (c # s) 0 = c"
  by (simp add: byte_at_def)

lemma byte_at_Cons_Suc [simp]: "byte_at (c # s) (Suc i) = byte_at s i"
  by (simp add: byte_at_def)

lemma c_string_append [simp]: "c_string (s @ t) \<longleftrightarrow> c_string s \<and> c_string t"
  by (auto simp: c_string_def)

lemma c_string_Nil [simp]: "c_string []"
  by (simp add: c_string_def)

lemma c_string_Cons [simp]: "c_string (c # s) \<longleftrightarrow> c \<noteq> NUL \<and> c_string s"
  by (auto simp: c_string_def)

subsection \<open>Three-way comparison functions\<close>

locale three_way =
  fixes cmp :: "'a \<Rightarrow> 'a \<Rightarrow> int"
    and dom_ok :: "'a \<Rightarrow> bool"
  assumes cmp_flip: "\<lbrakk>dom_ok a; dom_ok b\<rbrakk> \<Longrightarrow> cmp b a = - cmp a b"
    and cmp_le_trans: "\<lbrakk>dom_ok a; dom_ok b; dom_ok c; cmp a b \<le> 0; cmp b c \<le> 0\<rbrakk> \<Longrightarrow> cmp a c \<le> 0"
begin

lemma cmp_refl: "dom_ok a \<Longrightarrow> cmp a a = 0"
  using cmp_flip [of a a] by simp

lemma cmp_eq_sym: "\<lbrakk>dom_ok a; dom_ok b; cmp a b = 0\<rbrakk> \<Longrightarrow> cmp b a = 0"
  using cmp_flip [of a b] by simp

lemma cmp_ge_trans:
  "\<lbrakk>dom_ok a; dom_ok b; dom_ok c; 0 \<le> cmp a b; 0 \<le> cmp b c\<rbrakk> \<Longrightarrow> 0 \<le> cmp a c"
  using cmp_le_trans [of c b a] cmp_flip [of a b] cmp_flip [of b c] cmp_flip [of a c] by simp

lemma cmp_less_le_trans:
  assumes "dom_ok a" "dom_ok b" "dom_ok c" "cmp a b < 0" "cmp b c \<le> 0"
  shows "cmp a c < 0"
proof (rule ccontr)
  assume "\<not> cmp a c < 0"
  then have "cmp c a \<le> 0" using cmp_flip [of a c] assms by simp
  then have "cmp b a \<le> 0" using cmp_le_trans [of b c a] assms by simp
  then show False using cmp_flip [of a b] assms by simp
qed

lemma cmp_le_less_trans:
  assumes "dom_ok a" "dom_ok b" "dom_ok c" "cmp a b \<le> 0" "cmp b c < 0"
  shows "cmp a c < 0"
proof (rule ccontr)
  assume "\<not> cmp a c < 0"
  then have "cmp c a \<le> 0" using cmp_flip [of a c] assms by simp
  then have "cmp c b \<le> 0" using cmp_le_trans [of c a b] assms by simp
  then show False using cmp_flip [of b c] assms by simp
qed

lemma cmp_eq_left:
  assumes "dom_ok a" "dom_ok b" "dom_ok c" "cmp a b = 0"
  shows "cmp a c \<le> 0 \<longleftrightarrow> cmp b c \<le> 0" "cmp a c < 0 \<longleftrightarrow> cmp b c < 0"
proof -
  have ba: "cmp b a = 0" using cmp_eq_sym assms by blast
  show "cmp a c \<le> 0 \<longleftrightarrow> cmp b c \<le> 0"
    using cmp_le_trans [of b a c] cmp_le_trans [of a b c] assms ba by auto
  show "cmp a c < 0 \<longleftrightarrow> cmp b c < 0"
    using cmp_le_less_trans [of b a c] cmp_le_less_trans [of a b c] assms ba by auto
qed

end

text \<open>The contract is closed under a key function, lexicographic composition and lists.\<close>

fun list_cmp :: "('a \<Rightarrow> 'a \<Rightarrow> int) \<Rightarrow> 'a list \<Rightarrow> 'a list \<Rightarrow> int" where
  "list_cmp cmp [] [] = 0"
| "list_cmp cmp [] (y # ys) = -1"
| "list_cmp cmp (x # xs) [] = 1"
| "list_cmp cmp (x # xs) (y # ys) = (if cmp x y \<noteq> 0 then cmp x y else list_cmp cmp xs ys)"

lemma three_way_sgn: "three_way (\<lambda>a b. sgn (f a - f b :: int)) d"
  by unfold_locales (auto simp: sgn_if split: if_splits)

lemma three_way_key: "three_way cmp d \<Longrightarrow> (\<And>x. e x \<Longrightarrow> d (f x)) \<Longrightarrow> three_way (\<lambda>a b. cmp (f a) (f b)) e"
  unfolding three_way_def by blast

lemma three_way_lex:
  assumes "three_way c1 d"
    and flip: "\<And>a b. \<lbrakk>d a; d b; c1 a b = 0\<rbrakk> \<Longrightarrow> c2 b a = - c2 a b"
    and trans: "\<And>a b c. \<lbrakk>d a; d b; d c; c1 a b = 0; c1 b c = 0; c2 a b \<le> 0; c2 b c \<le> 0\<rbrakk> \<Longrightarrow> c2 a c \<le> 0"
  shows "three_way (\<lambda>a b. if c1 a b \<noteq> 0 then c1 a b else c2 a b) d"
proof
  fix a b assume d: "d a" "d b"
  show "(if c1 b a \<noteq> 0 then c1 b a else c2 b a) = - (if c1 a b \<noteq> 0 then c1 a b else c2 a b)"
    using flip [OF d] three_way.cmp_flip [OF assms(1) d] by (cases "c1 a b = 0") simp_all
next
  fix a b c assume d: "d a" "d b" "d c"
  assume ab: "(if c1 a b \<noteq> 0 then c1 a b else c2 a b) \<le> 0"
    and bc: "(if c1 b c \<noteq> 0 then c1 b c else c2 b c) \<le> 0"
  have le: "c1 a b \<le> 0" "c1 b c \<le> 0" using ab bc by (auto split: if_splits)
  then have ac: "c1 a c \<le> 0" using three_way.cmp_le_trans [OF assms(1)] d by blast
  show "(if c1 a c \<noteq> 0 then c1 a c else c2 a c) \<le> 0"
  proof (cases "c1 a c = 0")
    case True
    then have "c1 a b = 0" "c1 b c = 0"
      using le d three_way.cmp_less_le_trans [OF assms(1), of a b c]
        three_way.cmp_le_less_trans [OF assms(1), of a b c] by fastforce+
    then show ?thesis using True ab bc trans d by auto
  qed (use ac in simp)
qed

lemma three_way_list:
  assumes "three_way cmp d"
  shows "three_way (list_cmp cmp) (list_all d)"
proof
  fix xs ys assume "list_all d xs" "list_all d ys"
  then show "list_cmp cmp ys xs = - list_cmp cmp xs ys"
  proof (induction xs arbitrary: ys)
    case Nil
    then show ?case by (cases ys) auto
  next
    case (Cons x xs)
    then show ?case
      using three_way.cmp_flip [OF assms, of x "hd ys"] by (cases ys) auto
  qed
next
  fix xs ys zs
  assume "list_all d xs" "list_all d ys" "list_all d zs" "list_cmp cmp xs ys \<le> 0" "list_cmp cmp ys zs \<le> 0"
  then show "list_cmp cmp xs zs \<le> 0"
  proof (induction xs arbitrary: ys zs)
    case Nil
    then show ?case by (cases zs) auto
  next
    case (Cons x xs)
    then obtain y ys' where ys: "ys = y # ys'" by (cases ys) auto
    then obtain z zs' where zs: "zs = z # zs'" using Cons.prems by (cases zs) auto
    have d: "d x" "d y" "d z" using Cons.prems ys zs by auto
    have le: "cmp x y \<le> 0" "cmp y z \<le> 0" using Cons.prems ys zs by (auto split: if_splits)
    show ?case
    proof (cases "cmp x y = 0 \<and> cmp y z = 0")
      case True
      then have "cmp x z = 0"
        using three_way.cmp_le_trans [OF assms d] three_way.cmp_ge_trans [OF assms d] by simp
      then show ?thesis using Cons.IH [of ys' zs'] Cons.prems ys zs True by simp
    next
      case False
      then have "cmp x z < 0"
        using le three_way.cmp_less_le_trans [OF assms d] three_way.cmp_le_less_trans [OF assms d]
        by fastforce
      then show ?thesis by (simp add: zs)
    qed
  qed
qed

end
