(* ===== verification/Magnitude.thy ===== *)
theory Magnitude
  imports Prelude
begin

text \<open>
  Unsigned magnitudes of arbitrary-precision integers (the \<open>magnitude_*\<close> helpers of
  \<open>src/src/bignum.c\<close>): little-endian base-\<open>10^9\<close> digit arrays. An array with its count is the
  list of its first \<open>count\<close> limbs, and an output buffer is the list of the limbs written to it;
  the arithmetic is at the widths of the source (\<open>u32\<close>, \<open>u64\<close>). \<open>mag_val\<close> is the number a
  magnitude denotes and \<open>wf_mag\<close> the type invariant (digits below the base, no high zero limb).
\<close>

section \<open>Definitions\<close>

definition BASE :: nat where
  "BASE = 1000000000"

primrec mag_val :: "nat list \<Rightarrow> nat" where
  "mag_val [] = 0"
| "mag_val (d # ds) = d + BASE * mag_val ds"

definition digits_ok :: "nat list \<Rightarrow> bool" where
  "digits_ok ds \<longleftrightarrow> (\<forall>d \<in> set ds. d < BASE)"

definition trimmed :: "nat list \<Rightarrow> bool" where
  "trimmed ds \<longleftrightarrow> (ds \<noteq> [] \<longrightarrow> last ds \<noteq> 0)"

definition wf_mag :: "nat list \<Rightarrow> bool" where
  "wf_mag ds \<longleftrightarrow> digits_ok ds \<and> trimmed ds"

subsection \<open>Trimming and comparison\<close>

primrec trim_count :: "nat list \<Rightarrow> nat \<Rightarrow> nat" where
  "trim_count limbs 0 = 0"
| "trim_count limbs (Suc c) = (if limbs ! c = 0 then trim_count limbs c else Suc c)"

definition magnitude_trim :: "nat list \<Rightarrow> nat list" where
  "magnitude_trim limbs = take (trim_count limbs (length limbs)) limbs"

primrec compare_from :: "nat list \<Rightarrow> nat list \<Rightarrow> nat \<Rightarrow> int" where
  "compare_from a b 0 = 0"
| "compare_from a b (Suc i) =
     (if a ! i \<noteq> b ! i then (if a ! i < b ! i then -1 else 1) else compare_from a b i)"

definition magnitude_compare :: "nat list \<Rightarrow> nat list \<Rightarrow> int" where
  "magnitude_compare a b =
     (if length a \<noteq> length b then (if length a < length b then -1 else 1)
      else compare_from a b (length a))"

subsection \<open>Addition and subtraction\<close>

fun add_loop :: "nat list \<Rightarrow> nat list \<Rightarrow> nat \<Rightarrow> nat \<Rightarrow> nat \<Rightarrow> nat list" where
  "add_loop a b index 0 carry = (if carry \<noteq> 0 then [u32 carry] else [])"
| "add_loop a b index (Suc n) carry =
     (let sum = carry;
          sum = (if index < length a then u64 (sum + a ! index) else sum);
          sum = (if index < length b then u64 (sum + b ! index) else sum)
      in u32 (sum mod BASE) # add_loop a b (Suc index) n (sum div BASE))"

definition magnitude_add :: "nat list \<Rightarrow> nat list \<Rightarrow> nat list" where
  "magnitude_add a b =
     (let count = (if length a > length b then length a else length b)
      in add_loop a b 0 count 0)"

fun subtract_loop :: "nat list \<Rightarrow> nat list \<Rightarrow> nat \<Rightarrow> nat \<Rightarrow> int \<Rightarrow> nat list" where
  "subtract_loop a b index 0 borrow = []"
| "subtract_loop a b index (Suc n) borrow =
     (let diff = int (a ! index) - borrow - (if index < length b then int (b ! index) else 0)
      in if diff < 0
         then u32 (nat (diff + int BASE)) # subtract_loop a b (Suc index) n 1
         else u32 (nat diff) # subtract_loop a b (Suc index) n 0)"

definition magnitude_subtract :: "nat list \<Rightarrow> nat list \<Rightarrow> nat list" where
  "magnitude_subtract a b = magnitude_trim (subtract_loop a b 0 (length a) 0)"

subsection \<open>Multiplication\<close>

fun scalar_loop :: "nat list \<Rightarrow> nat \<Rightarrow> nat \<Rightarrow> nat list" where
  "scalar_loop [] scalar carry = (if carry \<noteq> 0 then [u32 carry] else [])"
| "scalar_loop (x # a) scalar carry =
     (let product = u64 (u64 (x * scalar) + carry)
      in u32 (product mod BASE) # scalar_loop a scalar (product div BASE))"

definition magnitude_multiply_scalar :: "nat list \<Rightarrow> nat \<Rightarrow> nat list" where
  "magnitude_multiply_scalar a scalar = magnitude_trim (scalar_loop a scalar 0)"

text \<open>
  The product buffer has \<open>a_count + b_count\<close> limbs and is updated in place. A write outside it
  would be undefined behaviour; \<open>None\<close> stands for it, and is shown unreachable.
\<close>

fun product_row :: "nat \<Rightarrow> nat list \<Rightarrow> nat \<Rightarrow> nat \<Rightarrow> nat list \<Rightarrow> nat list \<times> nat" where
  "product_row x [] k carry result = (result, carry)"
| "product_row x (y # b) k carry result =
     (let product = u64 (u64 (u64 (x * y) + result ! k) + carry)
      in product_row x b (Suc k) (product div BASE) (result[k := u32 (product mod BASE)]))"

function product_carry :: "nat \<Rightarrow> nat \<Rightarrow> nat list \<Rightarrow> nat list option" where
  "product_carry k carry result =
     (if carry = 0 then Some result
      else if length result \<le> k then None
      else (let sum = u64 (result ! k + carry)
            in product_carry (Suc k) (sum div BASE) (result[k := u32 (sum mod BASE)])))"
  by pat_completeness auto
termination
  by (relation "measure (\<lambda>(k, carry, result). length result - k)") auto

declare product_carry.simps [simp del]

fun product_rows :: "nat list \<Rightarrow> nat list \<Rightarrow> nat \<Rightarrow> nat list \<Rightarrow> nat list option" where
  "product_rows [] b i result = Some result"
| "product_rows (x # a) b i result =
     (case product_row x b i 0 result of
        (result', carry) \<Rightarrow>
          (case product_carry (i + length b) carry result' of
             None \<Rightarrow> None
           | Some result'' \<Rightarrow> product_rows a b (Suc i) result''))"

definition magnitude_multiply :: "nat list \<Rightarrow> nat list \<Rightarrow> nat list option" where
  "magnitude_multiply a b =
     map_option magnitude_trim (product_rows a b 0 (replicate (length a + length b) 0))"

subsection \<open>Long division\<close>

text \<open>One quotient digit, by binary search over \<open>0 .. BASE - 1\<close>.\<close>

function quotient_digit :: "nat list \<Rightarrow> nat list \<Rightarrow> nat \<Rightarrow> nat \<Rightarrow> nat \<Rightarrow> nat" where
  "quotient_digit b remainder low high digit =
     (if low \<le> high then
        (let mid = low + (high - low) div 2;
             scratch = magnitude_multiply_scalar b mid
         in if magnitude_compare scratch remainder \<le> 0
            then (if mid = BASE - 1 then mid
                  else quotient_digit b remainder (mid + 1) high mid)
            else (if mid = 0 then digit
                  else quotient_digit b remainder low (mid - 1) digit))
      else digit)"
  by pat_completeness auto
termination
  by (relation "measure (\<lambda>(b, remainder, low, high, digit). high + 1 - low)") auto

declare quotient_digit.simps [simp del]

definition divide_step :: "nat list \<Rightarrow> nat \<Rightarrow> nat list \<Rightarrow> nat \<times> nat list" where
  "divide_step b limb remainder =
     (let remainder = magnitude_trim (limb # remainder);
          digit = quotient_digit b remainder 0 (BASE - 1) 0
      in (digit, magnitude_subtract remainder (magnitude_multiply_scalar b digit)))"

text \<open>The loop over the dividend's limbs, most significant first.\<close>

primrec divide_loop :: "nat list \<Rightarrow> nat list \<Rightarrow> nat list \<times> nat list" where
  "divide_loop b [] = ([], [])"
| "divide_loop b (limb # a) =
     (case divide_loop b a of
        (quot, remainder) \<Rightarrow>
          (case divide_step b limb remainder of
             (digit, remainder') \<Rightarrow> (digit # quot, remainder')))"

definition magnitude_divide ::
    "bool \<Rightarrow> nat list \<Rightarrow> nat list \<Rightarrow> (nat list \<times> nat list) option" where
  "magnitude_divide scratch_ok a b =
     (if \<not> scratch_ok then None
      else (case divide_loop b a of
              (quot, remainder) \<Rightarrow> Some (magnitude_trim quot, remainder)))"

subsection \<open>Conversion from and to \<open>int64_t\<close>\<close>

function to_limbs :: "nat \<Rightarrow> nat list" where
  "to_limbs magnitude =
     (if magnitude > 0
      then u32 (magnitude mod BASE) # to_limbs (magnitude div BASE) else [])"
  by pat_completeness auto
termination
  by (relation "measure id") (auto simp: BASE_def)

declare to_limbs.simps [simp del]

definition int64_to_magnitude :: "int \<Rightarrow> nat list" where
  "int64_to_magnitude v =
     to_limbs (if v < 0 then u64 (u64 (nat (- (v + 1))) + 1) else u64 (nat v))"

primrec horner64 :: "nat list \<Rightarrow> nat option" where
  "horner64 [] = Some 0"
| "horner64 (limb # limbs) =
     (case horner64 limbs of
        None \<Rightarrow> None
      | Some magnitude \<Rightarrow>
          (if magnitude > (18446744073709551615 - limb) div BASE then None
           else Some (u64 (u64 (magnitude * BASE) + limb))))"

definition magnitude_to_int64 :: "nat list \<Rightarrow> bool \<Rightarrow> int option" where
  "magnitude_to_int64 limbs negative =
     (if length limbs > 3 then None
      else (case horner64 limbs of
              None \<Rightarrow> None
            | Some magnitude \<Rightarrow>
                (if negative then
                   (if magnitude > nat int64_max + 1 then None
                    else Some (if magnitude = nat int64_max + 1 then int64_min
                               else - int magnitude))
                 else if magnitude > nat int64_max then None
                 else Some (int magnitude))))"

section \<open>Magnitudes and the numbers they denote\<close>

lemma BASE_pos [simp]: "0 < BASE"
  by (simp add: BASE_def)

lemma digits_ok_Nil [simp]: "digits_ok []"
  by (simp add: digits_ok_def)

lemma digits_ok_Cons [simp]: "digits_ok (d # ds) \<longleftrightarrow> d < BASE \<and> digits_ok ds"
  by (simp add: digits_ok_def)

lemma digits_ok_append [simp]: "digits_ok (xs @ ys) \<longleftrightarrow> digits_ok xs \<and> digits_ok ys"
  by (auto simp: digits_ok_def)

lemma digits_ok_nth: "\<lbrakk>digits_ok ds; i < length ds\<rbrakk> \<Longrightarrow> ds ! i < BASE"
  by (simp add: digits_ok_def)

lemma digits_ok_take: "digits_ok ds \<Longrightarrow> digits_ok (take n ds)"
  by (auto simp: digits_ok_def dest: in_set_takeD)

lemma digits_ok_drop: "digits_ok ds \<Longrightarrow> digits_ok (drop n ds)"
  by (auto simp: digits_ok_def dest: in_set_dropD)

lemma digits_ok_update: "\<lbrakk>digits_ok ds; v < BASE\<rbrakk> \<Longrightarrow> digits_ok (ds[i := v])"
  using set_update_subset_insert by (fastforce simp: digits_ok_def)

lemma mag_val_append: "mag_val (xs @ ys) = mag_val xs + BASE ^ length xs * mag_val ys"
  by (induction xs) (simp_all add: algebra_simps)

lemma mag_val_replicate_0 [simp]: "mag_val (replicate n 0) = 0"
  by (induction n) simp_all

lemma mag_val_bound: "digits_ok ds \<Longrightarrow> mag_val ds < BASE ^ length ds"
proof (induction ds)
  case (Cons d ds)
  then have "mag_val ds + 1 \<le> BASE ^ length ds" and "d < BASE" by auto
  then have "BASE * (mag_val ds + 1) \<le> BASE * BASE ^ length ds"
    by (meson mult_le_mono2)
  with \<open>d < BASE\<close> show ?case by simp
qed simp

lemma mag_val_split: "mag_val ds = mag_val (take n ds) + BASE ^ (min n (length ds)) * mag_val (drop n ds)"
  using mag_val_append [of "take n ds" "drop n ds"] by (simp add: min.commute)

lemma mag_val_trimmed_lower:
  assumes "trimmed ds" "ds \<noteq> []"
  shows "BASE ^ (length ds - 1) \<le> mag_val ds"
proof -
  have "mag_val ds = mag_val (butlast ds) + BASE ^ length (butlast ds) * mag_val [last ds]"
    using mag_val_append [of "butlast ds" "[last ds]"] assms by simp
  moreover have "1 \<le> last ds" using assms by (simp add: trimmed_def Suc_leI)
  ultimately show ?thesis by (simp add: trans_le_add2)
qed

lemma mag_val_0_iff: "trimmed ds \<Longrightarrow> mag_val ds = 0 \<longleftrightarrow> ds = []"
  using less_le_trans [OF zero_less_power [OF BASE_pos] mag_val_trimmed_lower [of ds]]
  by (cases "ds = []") auto

lemma wf_mag_Nil [simp]: "wf_mag []"
  by (simp add: wf_mag_def trimmed_def)

lemma mag_val_update:
  "k < length r \<Longrightarrow> int (mag_val (r[k := v])) = int (mag_val r) + (int v - int (r ! k)) * int BASE ^ k"
proof (induction r arbitrary: k)
  case (Cons x r)
  show ?case
  proof (cases k)
    case (Suc j)
    then have "int (mag_val (r[j := v])) = int (mag_val r) + (int v - int (r ! j)) * int BASE ^ j"
      using Cons by simp
    then show ?thesis using Suc by simp (simp add: algebra_simps)
  qed (simp add: algebra_simps)
qed simp

lemma mag_val_take_Suc:
  "i < length ds \<Longrightarrow> mag_val (take (Suc i) ds) = mag_val (take i ds) + BASE ^ i * ds ! i"
  by (simp add: take_Suc_conv_app_nth mag_val_append)

lemma mag_val_drop_Suc:
  "i < length ds \<Longrightarrow> mag_val (drop i ds) = ds ! i + BASE * mag_val (drop (Suc i) ds)"
  by (metis Cons_nth_drop_Suc mag_val.simps(2))

subsection \<open>Trimming\<close>

lemma trim_count_le: "trim_count limbs n \<le> n"
  by (induction n) auto

lemma trim_count_zeros: "\<lbrakk>trim_count limbs n \<le> i; i < n\<rbrakk> \<Longrightarrow> limbs ! i = 0"
proof (induction n)
  case (Suc n)
  then show ?case by (cases "i = n") (auto split: if_splits)
qed simp

lemma trim_count_nonzero: "0 < trim_count limbs n \<Longrightarrow> limbs ! (trim_count limbs n - 1) \<noteq> 0"
  by (induction n) auto

lemma magnitude_trim_append:
  "limbs = magnitude_trim limbs @ replicate (length limbs - trim_count limbs (length limbs)) 0"
proof -
  let ?c = "trim_count limbs (length limbs)"
  have "drop ?c limbs = replicate (length limbs - ?c) 0"
    by (rule nth_equalityI) (auto intro!: trim_count_zeros [of limbs "length limbs"])
  then show ?thesis
    by (metis append_take_drop_id magnitude_trim_def)
qed

lemma mag_val_trim [simp]: "mag_val (magnitude_trim limbs) = mag_val limbs"
  using arg_cong [OF magnitude_trim_append [of limbs], of mag_val] by (simp add: mag_val_append)

lemma digits_ok_trim: "digits_ok limbs \<Longrightarrow> digits_ok (magnitude_trim limbs)"
  by (simp add: magnitude_trim_def digits_ok_take)

lemma trimmed_trim [simp]: "trimmed (magnitude_trim limbs)"
proof -
  let ?c = "trim_count limbs (length limbs)"
  have "magnitude_trim limbs \<noteq> [] \<Longrightarrow> last (magnitude_trim limbs) = limbs ! (?c - 1)"
    using trim_count_le [of limbs "length limbs"]
    by (simp add: magnitude_trim_def last_conv_nth min_absorb2)
  then show ?thesis
    using trim_count_nonzero [of limbs "length limbs"]
    by (auto simp: trimmed_def magnitude_trim_def)
qed

lemma wf_mag_trim: "digits_ok limbs \<Longrightarrow> wf_mag (magnitude_trim limbs)"
  by (simp add: wf_mag_def digits_ok_trim)

lemma length_trim: "length (magnitude_trim limbs) \<le> length limbs"
  by (simp add: magnitude_trim_def)

lemma wf_mag_length:
  assumes "wf_mag ds" "mag_val ds < BASE ^ n"
  shows "length ds \<le> n"
proof (cases "ds = []")
  case False
  with assms have "BASE ^ (length ds - 1) < BASE ^ n"
    using mag_val_trimmed_lower [of ds] by (simp add: wf_mag_def)
  then show ?thesis
    by (simp add: BASE_def power_strict_increasing_iff)
qed simp

lemma wf_mag_inject:
  assumes "wf_mag a" "wf_mag b" "mag_val a = mag_val b"
  shows "a = b"
proof -
  have len: "length a = length b"
    using assms mag_val_bound [of a] mag_val_bound [of b] wf_mag_length [of a "length b"]
      wf_mag_length [of b "length a"] by (simp add: wf_mag_def)
  have "\<lbrakk>length xs = length ys; digits_ok xs; digits_ok ys; mag_val xs = mag_val ys\<rbrakk> \<Longrightarrow> xs = ys"
    for xs ys :: "nat list"
  proof (induction xs ys rule: list_induct2)
    case (Cons x xs y ys)
    then have "x + BASE * mag_val xs = y + BASE * mag_val ys" "x < BASE" "y < BASE" by auto
    then have "x = y"
      by (metis mod_less mod_mult_self2)
    moreover from this have "mag_val xs = mag_val ys"
      using \<open>x + BASE * mag_val xs = y + BASE * mag_val ys\<close> by (simp add: BASE_def)
    ultimately show ?case using Cons by simp
  qed simp
  then show ?thesis using len assms by (simp add: wf_mag_def)
qed

subsection \<open>Comparison\<close>

lemma compare_from_sgn:
  assumes "digits_ok a" "digits_ok b" "i \<le> length a" "i \<le> length b"
  shows "compare_from a b i = sgn (int (mag_val (take i a)) - int (mag_val (take i b)))"
  using assms(3,4)
proof (induction i)
  case (Suc i)
  let ?x = "a ! i" and ?y = "b ! i" and ?p = "mag_val (take i a)" and ?q = "mag_val (take i b)"
  have va: "mag_val (take (Suc i) a) = ?p + BASE ^ i * ?x"
    and vb: "mag_val (take (Suc i) b) = ?q + BASE ^ i * ?y"
    using Suc.prems by (simp_all add: mag_val_take_Suc)
  have p: "?p < BASE ^ i" and q: "?q < BASE ^ i"
    using mag_val_bound [OF digits_ok_take [OF assms(1)], of i]
      mag_val_bound [OF digits_ok_take [OF assms(2)], of i] Suc.prems by (simp_all add: min_absorb2)
  consider "?x = ?y" | "?x < ?y" | "?y < ?x" by linarith
  then show ?case
  proof cases
    case 1
    then show ?thesis using Suc va vb by simp
  next
    case 2
    then have "BASE ^ i * (?x + 1) \<le> BASE ^ i * ?y" by (intro mult_le_mono2) simp
    then have "?p + BASE ^ i * ?x < ?q + BASE ^ i * ?y" using p by (simp add: algebra_simps)
    then show ?thesis
      using 2 sgn_diff_less [of "mag_val (take (Suc i) a)" "mag_val (take (Suc i) b)"]
      unfolding va vb by simp
  next
    case 3
    then have "BASE ^ i * (?y + 1) \<le> BASE ^ i * ?x" by (intro mult_le_mono2) simp
    then have "?q + BASE ^ i * ?y < ?p + BASE ^ i * ?x" using q by (simp add: algebra_simps)
    then show ?thesis
      using 3 sgn_diff_greater [of "mag_val (take (Suc i) b)" "mag_val (take (Suc i) a)"]
      unfolding va vb by simp
  qed
qed simp

lemma wf_mag_shorter_less:
  assumes "wf_mag a" "wf_mag b" "length a < length b"
  shows "mag_val a < mag_val b"
proof -
  have "mag_val a < BASE ^ length a" using assms mag_val_bound by (simp add: wf_mag_def)
  also have "\<dots> \<le> BASE ^ (length b - 1)"
    using assms by (intro power_increasing) (auto simp: BASE_def)
  also have "\<dots> \<le> mag_val b"
    using assms by (intro mag_val_trimmed_lower) (auto simp: wf_mag_def)
  finally show ?thesis .
qed

lemma magnitude_compare_sgn:
  assumes "wf_mag a" "wf_mag b"
  shows "magnitude_compare a b = sgn (int (mag_val a) - int (mag_val b))"
proof (cases "length a = length b")
  case True
  then show ?thesis
    using assms compare_from_sgn [of a b "length a"] by (simp add: magnitude_compare_def wf_mag_def)
next
  case False
  then show ?thesis
    using assms wf_mag_shorter_less [of a b] wf_mag_shorter_less [of b a]
    by (auto simp: magnitude_compare_def)
qed


subsection \<open>Addition\<close>

lemma add_loop_step:
  fixes i :: nat
  assumes "digits_ok a" "digits_ok b" "carry \<le> 1"
  defines "x \<equiv> if i < length a then a ! i else 0" and "y \<equiv> if i < length b then b ! i else 0"
  shows "add_loop a b i (Suc n) carry =
      (carry + x + y) mod BASE # add_loop a b (Suc i) n ((carry + x + y) div BASE)"
    and "(carry + x + y) div BASE \<le> 1"
proof -
  have "x < BASE" "y < BASE"
    using assms(1,2) digits_ok_nth by (auto simp: x_def y_def)
  then have "u64 (carry + x) = carry + x" "u64 (carry + y) = carry + y"
    "u64 (carry + x + y) = carry + x + y" "u32 ((carry + x + y) mod BASE) = (carry + x + y) mod BASE"
    and c: "(carry + x + y) div BASE \<le> 1"
    using assms(3) by (auto simp: width_simps BASE_def)
  then show "add_loop a b i (Suc n) carry =
      (carry + x + y) mod BASE # add_loop a b (Suc i) n ((carry + x + y) div BASE)"
    by (auto simp: Let_def x_def y_def)
  show "(carry + x + y) div BASE \<le> 1" by (rule c)
qed

lemma mag_val_window:
  "mag_val (take (Suc n) (drop i a)) =
     (if i < length a then a ! i else 0) + BASE * mag_val (take n (drop (Suc i) a))"
  by (cases "i < length a") (simp_all add: Cons_nth_drop_Suc [symmetric])

lemma add_loop_props:
  assumes "digits_ok a" "digits_ok b" "carry \<le> 1"
  shows "mag_val (add_loop a b i n carry) =
      carry + mag_val (take n (drop i a)) + mag_val (take n (drop i b)) \<and>
    digits_ok (add_loop a b i n carry) \<and>
    n \<le> length (add_loop a b i n carry) \<and> length (add_loop a b i n carry) \<le> n + 1 \<and>
    (length (add_loop a b i n carry) = n + 1 \<longrightarrow> last (add_loop a b i n carry) \<noteq> 0)"
  using assms(3)
proof (induction n arbitrary: i carry)
  case 0
  then show ?case by (auto simp: BASE_def width_simps)
next
  case (Suc n)
  define s where "s = carry + (if i < length a then a ! i else 0) + (if i < length b then b ! i else 0)"
  have step: "add_loop a b i (Suc n) carry = s mod BASE # add_loop a b (Suc i) n (s div BASE)"
    and c: "s div BASE \<le> 1"
    using add_loop_step [OF assms(1,2) Suc.prems] by (simp_all add: s_def)
  have "s = s mod BASE + BASE * (s div BASE)" by simp
  then show ?case
    using Suc.IH [OF c, of "Suc i"] unfolding step mag_val_window
    by (auto simp: s_def algebra_simps)
qed

lemma magnitude_add_props:
  assumes "digits_ok a" "digits_ok b"
  shows "mag_val (magnitude_add a b) = mag_val a + mag_val b"
    and "digits_ok (magnitude_add a b)"
    and "max (length a) (length b) \<le> length (magnitude_add a b)"
    and "length (magnitude_add a b) \<le> max (length a) (length b) + 1"
    and "length (magnitude_add a b) = max (length a) (length b) + 1 \<Longrightarrow> last (magnitude_add a b) \<noteq> 0"
  using add_loop_props [OF assms, of 0 0 "max (length a) (length b)"]
  by (auto simp: magnitude_add_def Let_def max_def split: if_splits)

lemma trimmed_by_value:
  assumes "digits_ok r" "BASE ^ (length r - 1) \<le> mag_val r"
  shows "trimmed r"
proof (rule ccontr)
  assume nt: "\<not> trimmed r"
  then have r: "r = butlast r @ [0]" by (metis append_butlast_last_id trimmed_def)
  then have "mag_val r = mag_val (butlast r)" using mag_val_append [of "butlast r" "[0]"] by simp
  also have "\<dots> < BASE ^ length (butlast r)"
    using assms r by (intro mag_val_bound) (metis digits_ok_append)
  finally show False using assms by simp
qed

lemma magnitude_add_wf:
  assumes "wf_mag a" "wf_mag b"
  shows "wf_mag (magnitude_add a b)"
proof -
  have d: "digits_ok a" "digits_ok b" using assms by (auto simp: wf_mag_def)
  note p = magnitude_add_props [OF d]
  let ?r = "magnitude_add a b" and ?n = "max (length a) (length b)"
  have "trimmed ?r"
  proof (cases "length ?r = ?n + 1")
    case True
    then show ?thesis using p(5) by (simp add: trimmed_def)
  next
    case False
    then have len: "length ?r = ?n" using p(3,4) by linarith
    have low: "x \<noteq> [] \<Longrightarrow> wf_mag x \<Longrightarrow> BASE ^ (length x - 1) \<le> mag_val x" for x
      using mag_val_trimmed_lower by (simp add: wf_mag_def)
    consider "?n = 0" | "?n = length a" "a \<noteq> []" | "?n = length b" "b \<noteq> []"
      by (metis length_0_conv max_def)
    then show ?thesis
    proof cases
      case 1
      then show ?thesis using len by (simp add: trimmed_def)
    next
      case 2
      then show ?thesis using low [of a] p(1) assms len
        by (intro trimmed_by_value p(2)) simp
    next
      case 3
      then show ?thesis using low [of b] p(1) assms len
        by (intro trimmed_by_value p(2)) simp
    qed
  qed
  then show ?thesis using p(2) by (simp add: wf_mag_def)
qed

subsection \<open>Subtraction\<close>

lemma subtract_loop_props:
  assumes "digits_ok a" "digits_ok b" "i + n \<le> length a" "borrow = 0 \<or> borrow = 1"
    "int (mag_val (take n (drop i b))) + borrow \<le> int (mag_val (take n (drop i a)))"
  shows "int (mag_val (subtract_loop a b i n borrow)) =
      int (mag_val (take n (drop i a))) - int (mag_val (take n (drop i b))) - borrow \<and>
    digits_ok (subtract_loop a b i n borrow) \<and> length (subtract_loop a b i n borrow) = n"
  using assms(3-5)
proof (induction n arbitrary: i borrow)
  case (Suc n)
  define x where "x = a ! i"
  define y where "y = (if i < length b then b ! i else 0)"
  have xy: "x < BASE" "y < BASE"
    using assms(1,2) Suc.prems digits_ok_nth by (auto simp: x_def y_def)
  have wa: "mag_val (take (Suc n) (drop i a)) = x + BASE * mag_val (take n (drop (Suc i) a))"
    using Suc.prems by (simp add: mag_val_window x_def)
  have wb: "mag_val (take (Suc n) (drop i b)) = y + BASE * mag_val (take n (drop (Suc i) b))"
    by (simp add: mag_val_window y_def)
  have le: "int y + int BASE * int (mag_val (take n (drop (Suc i) b))) + borrow
      \<le> int x + int BASE * int (mag_val (take n (drop (Suc i) a)))"
    using Suc.prems(3) unfolding wa wb by simp
  have diff: "int (a ! i) - borrow - (if i < length b then int (b ! i) else 0) = int x - borrow - int y"
    by (simp add: x_def y_def)
  show ?case
  proof (cases "int x - borrow - int y < 0")
    case True
    have w: "u32 (nat (int x - borrow - int y + int BASE)) = nat (int x - borrow - int y + int BASE)"
      using xy Suc.prems(2) True by (intro u32_id) (auto simp: BASE_def)
    have IH: "int (mag_val (take n (drop (Suc i) b))) + 1 \<le> int (mag_val (take n (drop (Suc i) a)))"
    proof (rule ccontr)
      assume "\<not> ?thesis"
      then have "int BASE * int (mag_val (take n (drop (Suc i) a)))
          \<le> int BASE * int (mag_val (take n (drop (Suc i) b)))"
        by (intro mult_left_mono) auto
      then show False using le True by linarith
    qed
    have step: "subtract_loop a b i (Suc n) borrow =
        nat (int x - borrow - int y + int BASE) # subtract_loop a b (Suc i) n 1"
      using True w by (simp add: diff Let_def)
    have rest: "int (mag_val (subtract_loop a b (Suc i) n 1)) =
        int (mag_val (take n (drop (Suc i) a))) - int (mag_val (take n (drop (Suc i) b))) - 1"
      "digits_ok (subtract_loop a b (Suc i) n 1)" "length (subtract_loop a b (Suc i) n 1) = n"
      using Suc.IH [of "Suc i" 1] IH Suc.prems by simp_all
    have "int BASE * int (mag_val (subtract_loop a b (Suc i) n 1)) = int BASE *
        (int (mag_val (take n (drop (Suc i) a))) - int (mag_val (take n (drop (Suc i) b))) - 1)"
      by (simp only: rest)
    then show ?thesis
      unfolding step wa wb using rest(2,3) xy True Suc.prems(2) by (auto simp: algebra_simps)
  next
    case False
    have w: "u32 (nat (int x - borrow - int y)) = nat (int x - borrow - int y)"
      using xy Suc.prems(2) by (intro u32_id) (auto simp: BASE_def)
    have IH: "int (mag_val (take n (drop (Suc i) b))) + 0 \<le> int (mag_val (take n (drop (Suc i) a)))"
    proof (rule ccontr)
      assume "\<not> ?thesis"
      then have "int BASE * (int (mag_val (take n (drop (Suc i) a))) + 1)
          \<le> int BASE * int (mag_val (take n (drop (Suc i) b)))"
        by (intro mult_left_mono) auto
      then show False using le xy Suc.prems(2) by (auto simp: algebra_simps)
    qed
    have step: "subtract_loop a b i (Suc n) borrow =
        nat (int x - borrow - int y) # subtract_loop a b (Suc i) n 0"
      using False w by (simp add: diff Let_def)
    have rest: "int (mag_val (subtract_loop a b (Suc i) n 0)) =
        int (mag_val (take n (drop (Suc i) a))) - int (mag_val (take n (drop (Suc i) b)))"
      "digits_ok (subtract_loop a b (Suc i) n 0)" "length (subtract_loop a b (Suc i) n 0) = n"
      using Suc.IH [of "Suc i" 0] IH Suc.prems by simp_all
    have "int BASE * int (mag_val (subtract_loop a b (Suc i) n 0)) = int BASE *
        (int (mag_val (take n (drop (Suc i) a))) - int (mag_val (take n (drop (Suc i) b))))"
      by (simp only: rest)
    then show ?thesis
      unfolding step wa wb using rest(2,3) xy False Suc.prems(2) by (auto simp: algebra_simps)
  qed
qed simp

lemma magnitude_subtract_props:
  assumes "digits_ok a" "digits_ok b" "length b \<le> length a" "mag_val b \<le> mag_val a"
  shows "mag_val (magnitude_subtract a b) = mag_val a - mag_val b"
    and "wf_mag (magnitude_subtract a b)"
    and "length (magnitude_subtract a b) \<le> length a"
proof -
  have *: "int (mag_val (subtract_loop a b 0 (length a) 0)) = int (mag_val a) - int (mag_val b)"
    "digits_ok (subtract_loop a b 0 (length a) 0)" "length (subtract_loop a b 0 (length a) 0) = length a"
    using subtract_loop_props [OF assms(1,2), of 0 "length a" 0] assms by simp_all
  then have "mag_val (subtract_loop a b 0 (length a) 0) = mag_val a - mag_val b"
    using assms(4) by linarith
  then show "mag_val (magnitude_subtract a b) = mag_val a - mag_val b"
    by (simp add: magnitude_subtract_def)
  show "wf_mag (magnitude_subtract a b)"
    using * by (simp add: magnitude_subtract_def wf_mag_trim)
  show "length (magnitude_subtract a b) \<le> length a"
    using length_trim [of "subtract_loop a b 0 (length a) 0"] * by (simp add: magnitude_subtract_def)
qed

lemma wf_mag_le_length: "\<lbrakk>wf_mag a; wf_mag b; mag_val b \<le> mag_val a\<rbrakk> \<Longrightarrow> length b \<le> length a"
  using wf_mag_shorter_less [of a b] by force

subsection \<open>Multiplication\<close>

lemma scalar_loop_props:
  assumes "digits_ok a" "scalar < 4294967296" "carry < 4294967296"
  shows "mag_val (scalar_loop a scalar carry) = mag_val a * scalar + carry"
    and "length (scalar_loop a scalar carry) \<le> length a + 1"
    and "scalar < BASE \<Longrightarrow> carry < BASE \<Longrightarrow> digits_ok (scalar_loop a scalar carry)"
proof -
  have "mag_val (scalar_loop a scalar carry) = mag_val a * scalar + carry \<and>
    length (scalar_loop a scalar carry) \<le> length a + 1 \<and>
    (scalar < BASE \<and> carry < BASE \<longrightarrow> digits_ok (scalar_loop a scalar carry))"
    using assms(1,3)
  proof (induction a arbitrary: carry)
    case Nil
    then show ?case by (auto simp: width_simps)
  next
    case (Cons x a)
    let ?p = "x * scalar + carry"
    have x: "x \<le> 999999999" "scalar \<le> 4294967295"
      using Cons.prems assms(2) by (auto simp: BASE_def)
    then have xs: "x * scalar \<le> 999999999 * 4294967295" by (rule mult_le_mono)
    have w: "u64 (u64 (x * scalar) + carry) = ?p" "u32 (?p mod BASE) = ?p mod BASE"
      using xs Cons.prems by (auto simp: width_simps BASE_def)
    have c: "?p div BASE < 4294967296"
      using xs Cons.prems by (simp add: BASE_def div_less_iff_less_mult)
    have c': "?p div BASE < BASE" if "scalar < BASE" "carry < BASE"
    proof -
      have "x * scalar \<le> (BASE - 1) * (BASE - 1)"
        using x that by (intro mult_le_mono) (auto simp: BASE_def)
      then show ?thesis using that by (simp add: BASE_def div_less_iff_less_mult)
    qed
    have step: "scalar_loop (x # a) scalar carry = ?p mod BASE # scalar_loop a scalar (?p div BASE)"
      by (simp add: Let_def w)
    have "?p = ?p mod BASE + BASE * (?p div BASE)" by simp
    then have "?p mod BASE + BASE * (mag_val a * scalar + ?p div BASE) = mag_val (x # a) * scalar + carry"
      by (simp add: algebra_simps)
    then show ?case
      using Cons.IH [OF _ c] Cons.prems c' unfolding step by auto
  qed
  then show "mag_val (scalar_loop a scalar carry) = mag_val a * scalar + carry"
    and "length (scalar_loop a scalar carry) \<le> length a + 1"
    and "scalar < BASE \<Longrightarrow> carry < BASE \<Longrightarrow> digits_ok (scalar_loop a scalar carry)"
    by auto
qed

lemma magnitude_multiply_scalar_props:
  assumes "digits_ok a" "scalar < BASE"
  shows "mag_val (magnitude_multiply_scalar a scalar) = mag_val a * scalar"
    and "wf_mag (magnitude_multiply_scalar a scalar)"
    and "length (magnitude_multiply_scalar a scalar) \<le> length a + 1"
  using scalar_loop_props [OF assms(1), of scalar 0] assms(2)
    length_trim [of "scalar_loop a scalar 0"]
  by (auto simp: magnitude_multiply_scalar_def wf_mag_trim BASE_def)


text \<open>
  One row of the schoolbook product adds \<open>x * b * BASE ^ k\<close> to the buffer, up to the carry that is
  still to be stored at position \<open>k + b_count\<close>.
\<close>

lemma product_row_props:
  assumes "digits_ok b" "digits_ok r" "x < BASE" "carry < BASE" "k + length b \<le> length r"
    "product_row x b k carry r = (r', carry')"
  shows "int (mag_val r') + int carry' * int BASE ^ (k + length b) =
      int (mag_val r) + (int x * int (mag_val b) + int carry) * int BASE ^ k \<and>
    carry' < BASE \<and> digits_ok r' \<and> length r' = length r"
  using assms
proof (induction b arbitrary: k carry r)
  case (Cons y b)
  let ?p = "x * y + r ! k + carry"
  have y: "y < BASE" and rk: "r ! k < BASE" and k: "k < length r"
    using Cons.prems digits_ok_nth [of r k] by auto
  have xy: "x * y \<le> (BASE - 1) * (BASE - 1)"
    using y \<open>x < BASE\<close> by (intro mult_le_mono) auto
  have p: "?p < BASE * BASE" "?p < 18446744073709551616"
    using xy rk Cons.prems(4) by (auto simp: BASE_def)
  have w: "u64 (u64 (u64 (x * y) + r ! k) + carry) = ?p" "u32 (?p mod BASE) = ?p mod BASE"
    using p xy rk by (auto simp: width_simps BASE_def)
  let ?r = "r[k := ?p mod BASE]"
  have step: "product_row x b (Suc k) (?p div BASE) ?r = (r', carry')"
    using Cons.prems(6) by (simp add: Let_def w)
  have c: "?p div BASE < BASE" using p(1) by (simp add: div_less_iff_less_mult)
  have "digits_ok ?r" using Cons.prems by (intro digits_ok_update) auto
  then have IH: "int (mag_val r') + int carry' * int BASE ^ (Suc k + length b) =
      int (mag_val ?r) + (int x * int (mag_val b) + int (?p div BASE)) * int BASE ^ Suc k"
    "carry' < BASE" "digits_ok r'" "length r' = length ?r"
    using Cons.IH [of ?r "?p div BASE" "Suc k"] Cons.prems step c by auto
  have upd: "int (mag_val ?r) = int (mag_val r) + (int (?p mod BASE) - int (r ! k)) * int BASE ^ k"
    by (rule mag_val_update [OF k])
  have digit: "int (?p mod BASE) = int x * int y + int (r ! k) + int carry - int BASE * int (?p div BASE)"
    by (simp add: int_mod_eq_diff)
  have "int (mag_val ?r) + (int x * int (mag_val b) + int (?p div BASE)) * int BASE ^ Suc k =
      int (mag_val r) + (int x * int (mag_val (y # b)) + int carry) * int BASE ^ k"
    unfolding upd digit by (simp add: algebra_simps)
  then show ?case using IH by (simp add: algebra_simps)
qed simp

lemma product_carry_props:
  assumes "digits_ok r" "carry \<le> BASE"
    "int (mag_val r) + int carry * int BASE ^ k < int BASE ^ length r"
  shows "\<exists>r'. product_carry k carry r = Some r' \<and> digits_ok r' \<and> length r' = length r \<and>
    int (mag_val r') = int (mag_val r) + int carry * int BASE ^ k"
  using assms
proof (induction k carry r rule: product_carry.induct)
  case (1 k carry r)
  show ?case
  proof (cases "carry = 0")
    case True
    then show ?thesis using "1.prems" by (simp add: product_carry.simps)
  next
    case False
    have k: "k < length r"
    proof (rule ccontr)
      assume "\<not> k < length r"
      then have "int BASE ^ length r \<le> 1 * int BASE ^ k"
        by (simp add: power_increasing BASE_def)
      also have "\<dots> \<le> int carry * int BASE ^ k"
        using False by (intro mult_right_mono) (auto simp: BASE_def)
      finally show False using "1.prems"(3) by simp
    qed
    let ?s = "r ! k + carry" and ?r = "r[k := (r ! k + carry) mod BASE]"
    have rk: "r ! k < BASE" using "1.prems" k digits_ok_nth by simp
    have w: "u64 ?s = ?s" "u32 (?s mod BASE) = ?s mod BASE"
      using rk "1.prems"(2) by (auto simp: width_simps BASE_def)
    have step: "product_carry k carry r = product_carry (Suc k) (?s div BASE) ?r"
      using False k by (simp add: product_carry.simps [of k carry r] Let_def w)
    have d: "digits_ok ?r" using "1.prems" by (intro digits_ok_update) auto
    have c: "?s div BASE \<le> BASE" using rk "1.prems"(2) by (simp add: BASE_def)
    have upd: "int (mag_val ?r) = int (mag_val r) + (int (?s mod BASE) - int (r ! k)) * int BASE ^ k"
      by (rule mag_val_update [OF k])
    have digit: "int (?s mod BASE) = int (r ! k) + int carry - int BASE * int (?s div BASE)"
      by (simp add: int_mod_eq_diff)
    have v: "int (mag_val ?r) + int (?s div BASE) * int BASE ^ Suc k =
        int (mag_val r) + int carry * int BASE ^ k"
      unfolding upd digit by (simp add: algebra_simps)
    have "\<exists>r'. product_carry (Suc k) (?s div BASE) ?r = Some r' \<and> digits_ok r' \<and>
        length r' = length ?r \<and>
        int (mag_val r') = int (mag_val ?r) + int (?s div BASE) * int BASE ^ Suc k"
      using "1.IH" [OF False _ refl, unfolded w] d c v "1.prems"(3) k by simp
    then show ?thesis unfolding step using v by auto
  qed
qed

lemma product_rows_props:
  assumes "digits_ok a" "digits_ok b" "digits_ok r" "length r = i + length a + length b"
    "int (mag_val r) + int (mag_val a) * int (mag_val b) * int BASE ^ i < int BASE ^ length r"
  shows "\<exists>r'. product_rows a b i r = Some r' \<and> digits_ok r' \<and> length r' = length r \<and>
    int (mag_val r') = int (mag_val r) + int (mag_val a) * int (mag_val b) * int BASE ^ i"
  using assms
proof (induction a arbitrary: i r)
  case (Cons x a)
  obtain r1 c1 where row: "product_row x b i 0 r = (r1, c1)" by fastforce
  have R: "int (mag_val r1) + int c1 * int BASE ^ (i + length b) =
      int (mag_val r) + int x * int (mag_val b) * int BASE ^ i"
    "c1 < BASE" "digits_ok r1" "length r1 = length r"
    using product_row_props [OF _ _ _ _ _ row] Cons.prems by auto
  have split: "int (mag_val r) + int (mag_val (x # a)) * int (mag_val b) * int BASE ^ i =
      int (mag_val r) + int x * int (mag_val b) * int BASE ^ i +
        int (mag_val a) * int (mag_val b) * int BASE ^ Suc i"
    by (simp add: algebra_simps)
  have nn: "0 \<le> int (mag_val a) * int (mag_val b) * int BASE ^ Suc i" by simp
  have lt: "int (mag_val r) + int x * int (mag_val b) * int BASE ^ i < int BASE ^ length r"
    using Cons.prems(5) split nn by linarith
  obtain r2 where r2: "product_carry (i + length b) c1 r1 = Some r2" "digits_ok r2"
    "length r2 = length r1" "int (mag_val r2) = int (mag_val r1) + int c1 * int BASE ^ (i + length b)"
    using product_carry_props [OF R(3), of c1 "i + length b"] R lt by fastforce
  have "\<exists>r'. product_rows a b (Suc i) r2 = Some r' \<and> digits_ok r' \<and> length r' = length r2 \<and>
      int (mag_val r') = int (mag_val r2) + int (mag_val a) * int (mag_val b) * int BASE ^ Suc i"
    using Cons.IH [of r2 "Suc i"] Cons.prems r2 R split by simp
  then show ?case
    using row r2 R split by auto
qed simp

lemma magnitude_multiply_props:
  assumes "digits_ok a" "digits_ok b"
  shows "\<exists>r. magnitude_multiply a b = Some r \<and> wf_mag r \<and> mag_val r = mag_val a * mag_val b \<and>
    length r \<le> length a + length b"
proof -
  let ?z = "replicate (length a + length b) (0 :: nat)"
  have lt: "int (mag_val a) * int (mag_val b) < int BASE ^ (length a + length b)"
  proof -
    have "mag_val a * mag_val b < BASE ^ length a * BASE ^ length b"
      using mag_val_bound [OF assms(1)] mag_val_bound [OF assms(2)] by (intro mult_strict_mono) auto
    then show ?thesis
      by (simp flip: power_add of_nat_mult of_nat_power)
  qed
  have "digits_ok ?z" by (simp add: digits_ok_def)
  then obtain r where r: "product_rows a b 0 ?z = Some r" "digits_ok r"
    "length r = length a + length b" "int (mag_val r) = int (mag_val a) * int (mag_val b)"
    using product_rows_props [OF assms, of ?z 0] lt by auto
  then have "mag_val r = mag_val a * mag_val b" by (metis of_nat_eq_iff of_nat_mult)
  then show ?thesis
    using r length_trim [of r] by (auto simp: magnitude_multiply_def wf_mag_trim)
qed

subsection \<open>Long division\<close>

lemma quotient_digit_props:
  assumes "wf_mag b" "0 < mag_val b" "wf_mag rm" "high < BASE"
    "digit \<le> mag_val rm div mag_val b" "mag_val rm div mag_val b \<le> high"
    "low = 0 \<and> digit = 0 \<or> low = digit + 1"
  shows "quotient_digit b rm low high digit = mag_val rm div mag_val b"
  using assms
proof (induction b rm low high digit rule: quotient_digit.induct)
  case (1 b rm low high digit)
  let ?q = "mag_val rm div mag_val b"
  show ?case
  proof (cases "low \<le> high")
    case True
    define mid where "mid = low + (high - low) div 2"
    have mid: "low \<le> mid" "mid \<le> high" using True by (auto simp: mid_def)
    have s: "wf_mag (magnitude_multiply_scalar b mid)"
      "mag_val (magnitude_multiply_scalar b mid) = mag_val b * mid"
      using magnitude_multiply_scalar_props [of b mid] "1.prems" mid by (auto simp: wf_mag_def)
    have "magnitude_compare (magnitude_multiply_scalar b mid) rm \<le> 0 \<longleftrightarrow> mag_val b * mid \<le> mag_val rm"
      using magnitude_compare_sgn [OF s(1) "1.prems"(3)] s(2)
      by (simp add: sgn_if flip: of_nat_mult)
    also have "\<dots> \<longleftrightarrow> mid \<le> ?q"
      using "1.prems"(2) by (simp add: less_eq_div_iff_mult_less_eq mult.commute)
    finally have cmp: "magnitude_compare (magnitude_multiply_scalar b mid) rm \<le> 0 \<longleftrightarrow> mid \<le> ?q" .
    have unfold_eq: "quotient_digit b rm low high digit =
        (if mid \<le> ?q then if mid = BASE - 1 then mid else quotient_digit b rm (mid + 1) high mid
         else if mid = 0 then digit else quotient_digit b rm low (mid - 1) digit)"
      using True by (simp add: quotient_digit.simps [of b rm low high digit] Let_def cmp
          flip: mid_def)
    show ?thesis
    proof (cases "mid \<le> ?q")
      case le: True
      then show ?thesis
        using "1.IH"(1) [OF True mid_def refl] "1.prems" mid cmp unfold_eq by auto
    next
      case False
      then show ?thesis
        using "1.IH"(2) [OF True mid_def refl] "1.prems" mid cmp unfold_eq by auto
    qed
  next
    case False
    then show ?thesis
      using "1.prems" by (subst quotient_digit.simps) auto
  qed
qed

lemma divide_step_props:
  assumes "wf_mag b" "0 < mag_val b" "limb < BASE" "wf_mag rm" "mag_val rm < mag_val b"
    "divide_step b limb rm = (digit, rm')"
  shows "digit = (limb + BASE * mag_val rm) div mag_val b"
    and "mag_val rm' = (limb + BASE * mag_val rm) mod mag_val b"
    and "digit < BASE" and "wf_mag rm'"
proof -
  define m where "m = magnitude_trim (limb # rm)"
  have m: "wf_mag m" "mag_val m = limb + BASE * mag_val rm"
    using assms(3,4) by (auto simp: m_def wf_mag_def intro: digits_ok_trim)
  have "limb + BASE * mag_val rm < BASE * (mag_val rm + 1)" using assms(3) by simp
  also have "\<dots> \<le> BASE * mag_val b" using assms(5) by (intro mult_le_mono2) simp
  finally have q: "mag_val m div mag_val b < BASE"
    using m(2) assms(2) by (simp add: div_less_iff_less_mult)
  have d: "quotient_digit b m 0 (BASE - 1) 0 = mag_val m div mag_val b"
    using quotient_digit_props [OF assms(1,2) m(1), of "BASE - 1" 0 0] q by simp
  then have eqs: "digit = mag_val m div mag_val b"
    "rm' = magnitude_subtract m (magnitude_multiply_scalar b (mag_val m div mag_val b))"
    using assms(6) by (auto simp: divide_step_def Let_def m_def [symmetric])
  let ?p = "magnitude_multiply_scalar b (mag_val m div mag_val b)"
  have p: "wf_mag ?p" "mag_val ?p = mag_val b * (mag_val m div mag_val b)"
    using magnitude_multiply_scalar_props [OF _ q, of b] assms(1) by (auto simp: wf_mag_def)
  have le: "mag_val ?p \<le> mag_val m" using p by (simp add: times_div_less_eq_dividend)
  have sub: "mag_val rm' = mag_val m - mag_val ?p" "wf_mag rm'"
    using magnitude_subtract_props [of m ?p] wf_mag_le_length [OF m(1) p(1) le] m p le eqs
    by (auto simp: wf_mag_def)
  then show "digit = (limb + BASE * mag_val rm) div mag_val b"
    "mag_val rm' = (limb + BASE * mag_val rm) mod mag_val b" "digit < BASE" "wf_mag rm'"
    using eqs m q p by (auto simp: minus_mult_div_eq_mod)
qed

lemma divide_loop_props:
  assumes "wf_mag b" "0 < mag_val b" "digits_ok a" "divide_loop b a = (q, rm)"
  shows "mag_val a = mag_val q * mag_val b + mag_val rm \<and> mag_val rm < mag_val b \<and>
    digits_ok q \<and> length q = length a \<and> wf_mag rm"
  using assms(3,4)
proof (induction a arbitrary: q rm)
  case (Cons limb a)
  obtain q1 r1 where rec: "divide_loop b a = (q1, r1)" by fastforce
  then have IH: "mag_val a = mag_val q1 * mag_val b + mag_val r1" "mag_val r1 < mag_val b"
    "digits_ok q1" "length q1 = length a" "wf_mag r1"
    using Cons by auto
  obtain d r2 where st: "divide_step b limb r1 = (d, r2)" by fastforce
  then have qr: "q = d # q1" "rm = r2" using Cons.prems rec by auto
  note S = divide_step_props [OF assms(1,2) _ IH(5,2) st]
  have "limb < BASE" using Cons.prems by simp
  note S = S [OF this]
  have "limb + BASE * mag_val r1 = d * mag_val b + mag_val r2"
    unfolding S by (simp add: div_mult_mod_eq)
  then show ?case
    using IH S qr assms(2) by (simp add: algebra_simps)
qed (simp add: assms)

lemma divide_remainder_room:
  assumes "wf_mag b" "wf_mag rm" "mag_val rm < mag_val b"
  shows "length (limb # rm) \<le> length b + 1"
  using wf_mag_le_length [of b rm] assms by simp

lemma magnitude_divide_props:
  assumes "wf_mag b" "0 < mag_val b" "wf_mag a"
  shows "\<exists>q rm. magnitude_divide True a b = Some (q, rm) \<and> wf_mag q \<and> wf_mag rm \<and>
    mag_val q = mag_val a div mag_val b \<and> mag_val rm = mag_val a mod mag_val b \<and>
    length q \<le> length a"
proof -
  obtain q rm where d: "divide_loop b a = (q, rm)" by fastforce
  then have "mag_val a = mag_val q * mag_val b + mag_val rm" "mag_val rm < mag_val b"
    "digits_ok q" "length q = length a" "wf_mag rm"
    using divide_loop_props [OF assms(1,2) _ d] assms(3) by (auto simp: wf_mag_def)
  then show ?thesis
    using d length_trim [of q] by (auto simp: magnitude_divide_def wf_mag_trim)
qed

subsection \<open>Machine integers\<close>

lemma to_limbs_props: "mag_val (to_limbs n) = n \<and> wf_mag (to_limbs n)"
proof (induction n rule: to_limbs.induct)
  case (1 n)
  show ?case
  proof (cases "n = 0")
    case True
    then show ?thesis by (simp add: to_limbs.simps)
  next
    case False
    have w: "u32 (n mod BASE) = n mod BASE" by (intro u32_id) (simp add: BASE_def)
    have "to_limbs n = n mod BASE # to_limbs (n div BASE)"
      using False w by (simp add: to_limbs.simps [of n])
    moreover have "trimmed (n mod BASE # to_limbs (n div BASE))"
    proof (cases "to_limbs (n div BASE) = []")
      case True
      then have "n div BASE = 0" using "1" False by (metis mag_val.simps(1) neq0_conv)
      then show ?thesis using True False by (simp add: trimmed_def div_eq_0_iff BASE_def)
    next
      case nonempty: False
      then show ?thesis using "1" False by (simp add: wf_mag_def trimmed_def)
    qed
    ultimately show ?thesis using "1" False by (simp add: wf_mag_def)
  qed
qed

lemma int64_to_magnitude_props:
  assumes "fits_int64 v"
  shows "mag_val (int64_to_magnitude v) = nat \<bar>v\<bar>" "wf_mag (int64_to_magnitude v)"
    and "length (int64_to_magnitude v) \<le> 3"
proof -
  have eq: "(if v < 0 then u64 (u64 (nat (- (v + 1))) + 1) else u64 (nat v)) = nat \<bar>v\<bar>"
    using assms by (auto simp: fits_int64_def int64_min_def int64_max_def u64_id)
  then show v: "mag_val (int64_to_magnitude v) = nat \<bar>v\<bar>" and w: "wf_mag (int64_to_magnitude v)"
    using to_limbs_props by (simp_all add: int64_to_magnitude_def)
  have "nat \<bar>v\<bar> < BASE ^ 3"
    using assms by (auto simp: fits_int64_def int64_min_def int64_max_def BASE_def)
  then show "length (int64_to_magnitude v) \<le> 3"
    using wf_mag_length [OF w] v by simp
qed

lemma horner64_props:
  assumes "digits_ok limbs"
  shows "horner64 limbs = (if mag_val limbs < 18446744073709551616 then Some (mag_val limbs) else None)"
  using assms
proof (induction limbs)
  case (Cons d ds)
  then have d: "d < 1000000000" by (simp add: BASE_def)
  show ?case
  proof (cases "mag_val ds < 18446744073709551616")
    case False
    then show ?thesis using Cons by (simp add: BASE_def)
  next
    case True
    have "mag_val ds > (18446744073709551615 - d) div BASE \<longleftrightarrow>
        18446744073709551616 \<le> d + BASE * mag_val ds"
      using d by (simp add: BASE_def div_less_iff_less_mult) linarith
    then show ?thesis
      using Cons True d by (auto simp: u64_id algebra_simps)
  qed
qed simp

lemma magnitude_to_int64_props:
  fixes negative :: bool
  assumes "wf_mag limbs"
  defines "v \<equiv> (if negative then - int (mag_val limbs) else int (mag_val limbs))"
  shows "magnitude_to_int64 limbs negative = (if fits_int64 v then Some v else None)"
proof (cases "length limbs > 3")
  case True
  then have "BASE ^ 3 \<le> BASE ^ (length limbs - 1)" by (intro power_increasing) (auto simp: BASE_def)
  also have "\<dots> \<le> mag_val limbs"
    using assms(1) True by (intro mag_val_trimmed_lower) (auto simp: wf_mag_def)
  finally have "\<not> fits_int64 v"
    by (auto simp: v_def fits_int64_def int64_min_def int64_max_def BASE_def)
  then show ?thesis using True by (simp add: magnitude_to_int64_def)
next
  case False
  then show ?thesis
    using assms(1) horner64_props [of limbs]
    by (auto simp: magnitude_to_int64_def v_def fits_int64_def int64_min_def int64_max_def wf_mag_def)
qed

end
