(* ===== verification/C_Text.thy ===== *)
theory C_Text
  imports Prelude
begin

text \<open>
  What the sources use of the C library on text: character classes of the "C" locale, \<open>memcmp\<close>,
  the decimal conversion of \<open>printf\<close> and \<open>strtoul\<close>.
\<close>

section \<open>Definitions\<close>

subsection \<open>Character classes\<close>

definition byte :: "char \<Rightarrow> nat" where
  "byte c = of_char c"

definition is_digit :: "char \<Rightarrow> bool" where
  "is_digit c \<longleftrightarrow> 48 \<le> (of_char c :: nat) \<and> (of_char c :: nat) \<le> 57"

definition decimal_val :: "string \<Rightarrow> nat" where
  "decimal_val s = foldl (\<lambda>n c. n * 10 + (of_char c - 48)) 0 s"

definition is_alpha :: "char \<Rightarrow> bool" where
  "is_alpha c \<longleftrightarrow> 65 \<le> byte c \<and> byte c \<le> 90 \<or> 97 \<le> byte c \<and> byte c \<le> 122"

definition is_alnum :: "char \<Rightarrow> bool" where
  "is_alnum c \<longleftrightarrow> is_alpha c \<or> is_digit c"

definition is_space :: "char \<Rightarrow> bool" where
  "is_space c \<longleftrightarrow> byte c = 32 \<or> 9 \<le> byte c \<and> byte c \<le> 13"

subsection \<open>Byte comparison\<close>

text \<open>The sign of \<open>memcmp\<close> on the first bytes of both, up to the shorter length.\<close>

fun memcmp :: "string \<Rightarrow> string \<Rightarrow> int" where
  "memcmp (a # as) (b # bs) =
     (if byte a < byte b then -1 else if byte a > byte b then 1 else memcmp as bs)"
| "memcmp _ _ = 0"

subsection \<open>Decimal numbers\<close>

definition digit_char :: "nat \<Rightarrow> char" where
  "digit_char n = char_of (48 + n)"

fun format_u :: "nat \<Rightarrow> string" where
  "format_u n = (if n < 10 then [digit_char n] else format_u (n div 10) @ [digit_char (n mod 10)])"

declare format_u.simps [simp del]

definition ULONG_MAX :: nat where
  "ULONG_MAX = 18446744073709551615"

text \<open>\<open>strtoul\<close> in base 10 on text that starts with a digit: the maximal run of digits, saturating.\<close>

definition strtoul :: "string \<Rightarrow> nat \<times> string" where
  "strtoul s = (min ULONG_MAX (decimal_val (takeWhile is_digit s)), dropWhile is_digit s)"

text \<open>\<open>strtoull\<close> in base 10 on any text: blanks, an optional sign, digits. The second component is the
text \<open>end\<close> points at, the whole text when there are no digits.\<close>

definition strtoull :: "string \<Rightarrow> nat \<times> string" where
  "strtoull s =
     (let t = dropWhile is_space s;
          signed = (byte_at t 0 = CHR ''-'' \<or> byte_at t 0 = CHR ''+'');
          ds = (if signed then tl t else t);
          v = decimal_val (takeWhile is_digit ds)
      in if takeWhile is_digit ds = [] then (0, s)
         else (if v > ULONG_MAX then ULONG_MAX else if byte_at t 0 = CHR ''-'' then usub64 0 v else v,
               dropWhile is_digit ds))"

section \<open>Lemmas\<close>

lemma decimal_foldl:
  "foldl (\<lambda>n c. n * 10 + (of_char c - 48)) k s = k * 10 ^ length s + decimal_val s"
proof (induction s arbitrary: k)
  case (Cons c s)
  show ?case
    using Cons [of "k * 10 + (of_char c - 48)"] Cons [of "of_char c - 48"]
    by (simp add: decimal_val_def algebra_simps)
qed (simp add: decimal_val_def)

lemma decimal_val_append: "decimal_val (s @ t) = decimal_val s * 10 ^ length t + decimal_val t"
  using decimal_foldl [of "decimal_val s" t] by (simp add: decimal_val_def)

lemma decimal_val_Nil [simp]: "decimal_val [] = 0"
  by (simp add: decimal_val_def)

lemma digit_char_props:
  assumes "n < 10"
  shows "is_digit (digit_char n)" "decimal_val [digit_char n] = n"
  using assms by (auto simp: digit_char_def is_digit_def decimal_val_def)

lemma decimal_val_single: "decimal_val [c] = of_char c - 48"
  by (simp add: decimal_val_def)

lemma decimal_val_Cons: "decimal_val (c # s) = (of_char c - 48) * 10 ^ length s + decimal_val s"
  using decimal_val_append [of "[c]" s] by (simp add: decimal_val_single)

lemma decimal_val_bound: "\<forall>c \<in> set s. is_digit c \<Longrightarrow> decimal_val s < 10 ^ length s"
proof (induction s rule: rev_induct)
  case (snoc c s)
  then have "decimal_val s + 1 \<le> 10 ^ length s" "decimal_val [c] < 10"
    by (auto simp: decimal_val_single is_digit_def)
  then show ?case by (simp add: decimal_val_append)
qed simp

lemma format_u_props:
  "decimal_val (format_u n) = n" "\<forall>c \<in> set (format_u n). is_digit c"
  "n < 10 ^ k \<Longrightarrow> 0 < k \<Longrightarrow> length (format_u n) \<le> k" "format_u n \<noteq> []"
proof -
  have "decimal_val (format_u n) = n \<and> (\<forall>c \<in> set (format_u n). is_digit c) \<and> format_u n \<noteq> [] \<and>
    (\<forall>k. n < 10 ^ k \<longrightarrow> 0 < k \<longrightarrow> length (format_u n) \<le> k)"
  proof (induction n rule: format_u.induct)
    case (1 n)
    show ?case
    proof (cases "n < 10")
      case True
      then show ?thesis by (simp add: format_u.simps [of n] digit_char_props)
    next
      case False
      then have ih: "decimal_val (format_u (n div 10)) = n div 10"
        "\<forall>c \<in> set (format_u (n div 10)). is_digit c"
        "\<And>k. n div 10 < 10 ^ k \<Longrightarrow> 0 < k \<Longrightarrow> length (format_u (n div 10)) \<le> k"
        using 1 by blast+
      have "length (format_u (n div 10)) + 1 \<le> k" if lt: "n < 10 ^ k" for k
      proof -
        obtain j where j: "k = Suc j" using False lt by (cases k) auto
        have "0 < j" using False lt j by (cases j) auto
        moreover have "n div 10 < 10 ^ j" using lt j by (simp add: div_less_iff_less_mult)
        ultimately show ?thesis using ih(3) j by simp
      qed
      then show ?thesis
        using False ih(1,2) digit_char_props [of "n mod 10"]
        by (simp add: format_u.simps [of n] decimal_val_append)
    qed
  qed
  then show "decimal_val (format_u n) = n" "\<forall>c \<in> set (format_u n). is_digit c"
    "n < 10 ^ k \<Longrightarrow> 0 < k \<Longrightarrow> length (format_u n) \<le> k" "format_u n \<noteq> []" by blast+
qed

lemma decimal_val_zeros [simp]: "decimal_val (replicate n (CHR ''0'') @ s) = decimal_val s"
proof -
  have "decimal_val (replicate n (CHR ''0'')) = 0"
    by (induction n) (simp_all add: decimal_val_Cons)
  then show ?thesis by (simp add: decimal_val_append)
qed

lemma byte_inject [simp]: "byte a = byte b \<longleftrightarrow> a = b"
  by (simp add: byte_def)

lemma byte_less [simp]: "byte c < 256"
  unfolding byte_def by (metis mod_less_divisor of_char_mod_256 zero_less_numeral)

lemma takeWhile_digits_append:
  "\<lbrakk>\<forall>c \<in> set s. is_digit c; t = [] \<or> \<not> is_digit (hd t)\<rbrakk> \<Longrightarrow>
   takeWhile is_digit (s @ t) = s \<and> dropWhile is_digit (s @ t) = t"
  by (cases t) (auto simp: takeWhile_append dropWhile_append)

lemma format_u_no_leading_zero:
  "hd (format_u n) = CHR ''0'' \<Longrightarrow> format_u n = ''0''"
proof (induction n rule: format_u.induct)
  case (1 n)
  show ?case
  proof (cases "n < 10")
    case True
    then show ?thesis using 1(2) by (simp add: format_u.simps [of n])
  next
    case False
    have ne: "format_u (n div 10) \<noteq> []" by (rule format_u_props)
    then have "hd (format_u (n div 10)) = CHR ''0''"
      using 1(2) False by (simp add: format_u.simps [of n])
    then have "format_u (n div 10) = ''0''" using 1(1) False by blast
    then have "n div 10 = 0" using format_u_props(1) [of "n div 10"] by (simp add: decimal_val_single)
    then show ?thesis using False by simp
  qed
qed

text \<open>Evaluation of decimal text on concrete numbers.\<close>

lemma digit_char_eval:
  "digit_char 0 = CHR ''0''"
  "digit_char 1 = CHR ''1''"
  "digit_char (Suc 0) = CHR ''1''"
  "digit_char 2 = CHR ''2''"
  "digit_char 3 = CHR ''3''"
  "digit_char 4 = CHR ''4''"
  "digit_char 5 = CHR ''5''"
  "digit_char 6 = CHR ''6''"
  "digit_char 7 = CHR ''7''"
  "digit_char 8 = CHR ''8''"
  "digit_char 9 = CHR ''9''"
  by code_simp+

lemmas format_eval = format_u.simps digit_char_eval

lemmas ctype_eval = is_digit_def is_alpha_def is_alnum_def is_space_def byte_def byte_at_def

end
