(* ===== verification/Bignum.thy ===== *)
theory Bignum
  imports Magnitude C_Text
begin

text \<open>
  Signed arbitrary-precision integers (\<open>src/src/bignum.c\<close>, \<open>src/src/bignum.h\<close>): views of the two
  representations of an Int, canonicalisation, the arithmetic entry points and decimal conversion.
  Every entry point takes the allocator as an argument (\<open>alloc_env\<close>: which of the buffers the
  operation requests can be had, and the collection check every heap allocation runs first) and
  returns the value together with the heap it leaves, so an allocation failure is the branch that
  returns nil. A bignum is immutable once built, so its heap object is its contents.
\<close>

section \<open>Definitions\<close>

datatype int_value =
    V_NIL
  | V_INT int
  | V_BIGNUM bool "nat list"

record int_view =
  negative :: bool
  limbs :: "nat list"

record vm_heap =
  young_objects :: "(bool \<times> nat list) list"
  bytes_allocated :: nat

text \<open>The buffers the operations request, by the names of their variables.\<close>

datatype buffer =
    B_result | B_quotient | B_remainder | B_complement | B_scratch | B_bignum | B_limbs
  | B_a | B_b | B_words | B_shifted | B_reversed

record alloc_env =
  malloc_ok :: "buffer \<Rightarrow> nat \<Rightarrow> bool"
  maybe_collect :: "vm_heap \<Rightarrow> bool \<times> vm_heap"

definition sizeof_DiamondBignum :: nat where
  "sizeof_DiamondBignum = 32"

definition bignum_alloc ::
    "alloc_env \<Rightarrow> vm_heap \<Rightarrow> bool \<Rightarrow> nat list \<Rightarrow> (bool \<times> nat list) option \<times> vm_heap" where
  "bignum_alloc env vm neg ls =
     (case maybe_collect env vm of
        (False, vm') \<Rightarrow> (None, vm')
      | (True, vm') \<Rightarrow>
          (let size = sizeof_DiamondBignum + length ls * 4
           in if \<not> malloc_ok env B_bignum size then (None, vm')
              else (Some (neg, ls),
                    vm'\<lparr>young_objects := (neg, ls) # young_objects vm',
                        bytes_allocated := bytes_allocated vm' + size\<rparr>)))"

definition bignum_canonicalize ::
    "alloc_env \<Rightarrow> vm_heap \<Rightarrow> bool \<Rightarrow> nat list \<Rightarrow> int_value \<times> vm_heap" where
  "bignum_canonicalize env vm neg ls =
     (if ls = [] then (V_INT 0, vm)
      else (case magnitude_to_int64 ls neg of
              Some small \<Rightarrow> (V_INT small, vm)
            | None \<Rightarrow>
                (case bignum_alloc env vm neg ls of
                   (None, vm') \<Rightarrow> (V_NIL, vm')
                 | (Some (n, l), vm') \<Rightarrow> (V_BIGNUM n l, vm'))))"

definition diamond_int_view_int64 :: "int \<Rightarrow> int_view" where
  "diamond_int_view_int64 v = \<lparr>negative = v < 0, limbs = int64_to_magnitude v\<rparr>"

fun diamond_int_view :: "int_value \<Rightarrow> int_view" where
  "diamond_int_view (V_BIGNUM n l) = \<lparr>negative = n, limbs = l\<rparr>"
| "diamond_int_view (V_INT i) = diamond_int_view_int64 i"
| "diamond_int_view V_NIL = diamond_int_view_int64 0"

subsection \<open>Arithmetic\<close>

definition diamond_bignum_add ::
    "alloc_env \<Rightarrow> vm_heap \<Rightarrow> int_view \<Rightarrow> int_view \<Rightarrow> int_value \<times> vm_heap" where
  "diamond_bignum_add env vm left right =
     (let capacity = (if length (limbs left) > length (limbs right) then length (limbs left)
                      else length (limbs right)) + 1
      in if \<not> malloc_ok env B_result (capacity * 4) then (V_NIL, vm)
         else if negative left = negative right
         then bignum_canonicalize env vm (negative left)
                (magnitude_add (limbs left) (limbs right))
         else (let comparison = magnitude_compare (limbs left) (limbs right)
               in if comparison = 0 then (V_INT 0, vm)
                  else if comparison > 0
                  then bignum_canonicalize env vm (negative left)
                         (magnitude_subtract (limbs left) (limbs right))
                  else bignum_canonicalize env vm (negative right)
                         (magnitude_subtract (limbs right) (limbs left))))"

definition diamond_bignum_subtract ::
    "alloc_env \<Rightarrow> vm_heap \<Rightarrow> int_view \<Rightarrow> int_view \<Rightarrow> int_value \<times> vm_heap" where
  "diamond_bignum_subtract env vm left right =
     diamond_bignum_add env vm left (right\<lparr>negative := \<not> negative right\<rparr>)"

definition diamond_bignum_negate ::
    "alloc_env \<Rightarrow> vm_heap \<Rightarrow> int_view \<Rightarrow> int_value \<times> vm_heap" where
  "diamond_bignum_negate env vm v = bignum_canonicalize env vm (\<not> negative v) (limbs v)"

text \<open>
  A write outside the product buffer (\<open>magnitude_multiply\<close> returning \<open>None\<close>) has no defined result;
  it is shown never to happen, and is mapped to nil only to make the function total.
\<close>

definition diamond_bignum_multiply ::
    "alloc_env \<Rightarrow> vm_heap \<Rightarrow> int_view \<Rightarrow> int_view \<Rightarrow> int_value \<times> vm_heap" where
  "diamond_bignum_multiply env vm left right =
     (let capacity = length (limbs left) + length (limbs right)
      in if \<not> malloc_ok env B_result ((if capacity = 0 then 1 else capacity) * 4) then (V_NIL, vm)
         else (case magnitude_multiply (limbs left) (limbs right) of
                 None \<Rightarrow> (V_NIL, vm)
               | Some result \<Rightarrow>
                   bignum_canonicalize env vm (negative left \<noteq> negative right) result))"

definition diamond_bignum_divide_floored ::
    "alloc_env \<Rightarrow> vm_heap \<Rightarrow> int_view \<Rightarrow> int_view \<Rightarrow> int_value \<times> vm_heap" where
  "diamond_bignum_divide_floored env vm left right =
     (if \<not> malloc_ok env B_quotient ((length (limbs left) + 1) * 4) \<or>
         \<not> malloc_ok env B_remainder ((length (limbs right) + 1) * 4) then (V_NIL, vm)
      else (case magnitude_divide (malloc_ok env B_scratch ((length (limbs right) + 1) * 4))
                   (limbs left) (limbs right) of
              None \<Rightarrow> (V_NIL, vm)
            | Some (quot, remainder) \<Rightarrow>
                (let neg = (negative left \<noteq> negative right);
                     quot = (if neg \<and> magnitude_trim remainder \<noteq> []
                                 then magnitude_add quot [1] else quot)
                 in bignum_canonicalize env vm neg quot)))"

definition diamond_bignum_modulo_floored ::
    "alloc_env \<Rightarrow> vm_heap \<Rightarrow> int_view \<Rightarrow> int_view \<Rightarrow> int_value \<times> vm_heap" where
  "diamond_bignum_modulo_floored env vm left right =
     (if \<not> malloc_ok env B_quotient
             ((if length (limbs left) = 0 then 1 else length (limbs left)) * 4) \<or>
         \<not> malloc_ok env B_remainder ((length (limbs right) + 1) * 4) \<or>
         \<not> malloc_ok env B_complement ((length (limbs right) + 1) * 4) then (V_NIL, vm)
      else (case magnitude_divide (malloc_ok env B_scratch ((length (limbs right) + 1) * 4))
                   (limbs left) (limbs right) of
              None \<Rightarrow> (V_NIL, vm)
            | Some (quot, remainder) \<Rightarrow>
                (let remainder = magnitude_trim remainder
                 in if remainder = [] then (V_INT 0, vm)
                    else if negative left = negative right
                    then bignum_canonicalize env vm (negative right) remainder
                    else bignum_canonicalize env vm (negative right)
                           (magnitude_subtract (limbs right) remainder))))"

definition diamond_bignum_compare :: "int_view \<Rightarrow> int_view \<Rightarrow> int" where
  "diamond_bignum_compare left right =
     (if negative left \<noteq> negative right then (if negative left then -1 else 1)
      else (let magnitude_comparison = magnitude_compare (limbs left) (limbs right)
            in if negative left then - magnitude_comparison else magnitude_comparison))"

subsection \<open>Decimal conversion\<close>

text \<open>The conversion \<open>%09u\<close> of \<open>snprintf\<close>.\<close>

definition format_09u :: "nat \<Rightarrow> string" where
  "format_09u n = (let s = format_u n in replicate (9 - length s) (CHR ''0'') @ s)"

definition diamond_bignum_string_length :: "bool \<Rightarrow> nat list \<Rightarrow> nat" where
  "diamond_bignum_string_length neg ls = (if neg then 1 else 0) + length ls * 9 + 1"

text \<open>
  The text written by \<open>diamond_bignum_to_string\<close>; \<open>snprintf\<close> with size \<open>n\<close> writes at most \<open>n - 1\<close>
  characters.
\<close>

primrec lower_limbs_text :: "nat list \<Rightarrow> nat \<Rightarrow> string" where
  "lower_limbs_text ls 0 = []"
| "lower_limbs_text ls (Suc i) = take 9 (format_09u (ls ! i)) @ lower_limbs_text ls i"

definition diamond_bignum_to_string :: "bool \<Rightarrow> nat list \<Rightarrow> string" where
  "diamond_bignum_to_string neg ls =
     (if neg then ''-'' else '''') @ take 20 (format_u (ls ! (length ls - 1))) @
     lower_limbs_text ls (length ls - 1)"

fun chunk_value :: "nat \<Rightarrow> string \<Rightarrow> nat" where
  "chunk_value chunk [] = chunk"
| "chunk_value chunk (c # cs) = chunk_value (u32 (u32 (chunk * 10) + (of_char c - 48))) cs"

function decimal_limbs :: "string \<Rightarrow> nat \<Rightarrow> nat list" where
  "decimal_limbs digits end_pos =
     (if end_pos > 0 then
        (let chunk_length = (if end_pos \<ge> 9 then 9 else end_pos);
             start = end_pos - chunk_length
         in chunk_value 0 (take chunk_length (drop start digits)) # decimal_limbs digits start)
      else [])"
  by pat_completeness auto
termination
  by (relation "measure (\<lambda>(digits, end_pos). end_pos)") auto

declare decimal_limbs.simps [simp del]

definition diamond_bignum_from_decimal_digits ::
    "alloc_env \<Rightarrow> vm_heap \<Rightarrow> string \<Rightarrow> bool \<Rightarrow> int_value \<times> vm_heap" where
  "diamond_bignum_from_decimal_digits env vm digits neg =
     (let limb_capacity = length digits div 9 + 1
      in if \<not> malloc_ok env B_limbs (limb_capacity * 4) then (V_NIL, vm)
         else bignum_canonicalize env vm neg
                (magnitude_trim (decimal_limbs digits (length digits))))"

section \<open>Values, invariants and the specification\<close>

fun int_val :: "int_value \<Rightarrow> int" where
  "int_val V_NIL = 0"
| "int_val (V_INT i) = i"
| "int_val (V_BIGNUM n l) = (if n then - int (mag_val l) else int (mag_val l))"

text \<open>The representation invariant: a bignum only for what does not fit \<open>int64_t\<close>.\<close>

fun canonical :: "int_value \<Rightarrow> bool" where
  "canonical V_NIL = False"
| "canonical (V_INT i) = fits_int64 i"
| "canonical (V_BIGNUM n l) = (wf_mag l \<and> \<not> fits_int64 (int_val (V_BIGNUM n l)))"

definition view_val :: "int_view \<Rightarrow> int" where
  "view_val v = (if negative v then - int (mag_val (limbs v)) else int (mag_val (limbs v)))"

definition view_ok :: "int_view \<Rightarrow> bool" where
  "view_ok v \<longleftrightarrow> wf_mag (limbs v) \<and> (negative v \<longrightarrow> limbs v \<noteq> [])"

text \<open>The value the language promises for an integer: its one canonical representation.\<close>

definition int_result :: "int \<Rightarrow> int_value" where
  "int_result i =
     (if fits_int64 i then V_INT i else V_BIGNUM (i < 0) (to_limbs (nat \<bar>i\<bar>)))"

definition alloc_succeeds :: "alloc_env \<Rightarrow> bool" where
  "alloc_succeeds env \<longleftrightarrow> (\<forall>b n. malloc_ok env b n) \<and> (\<forall>vm. fst (maybe_collect env vm))"

text \<open>Exactly the canonical result, or nil, and nil only when an allocation failed.\<close>

definition yields :: "alloc_env \<Rightarrow> int_value \<times> vm_heap \<Rightarrow> int \<Rightarrow> bool" where
  "yields env r i \<longleftrightarrow>
     fst r = int_result i \<or> fst r = V_NIL \<and> \<not> alloc_succeeds env"

text \<open>The collections run at most once, and at most one object is added after them.\<close>

definition allocates_once :: "alloc_env \<Rightarrow> vm_heap \<Rightarrow> int_value \<times> vm_heap \<Rightarrow> bool" where
  "allocates_once env vm r \<longleftrightarrow>
     (case r of
        (V_BIGNUM n l, vm') \<Rightarrow>
          fst (maybe_collect env vm) \<and>
          young_objects vm' = (n, l) # young_objects (snd (maybe_collect env vm)) \<and>
          bytes_allocated vm' = bytes_allocated (snd (maybe_collect env vm)) +
            sizeof_DiamondBignum + 4 * length l
      | (V_INT i, vm') \<Rightarrow> vm' = vm
      | (V_NIL, vm') \<Rightarrow> vm' = vm \<or> vm' = snd (maybe_collect env vm))"

text \<open>An allocator that never fails and a heap with nothing in it, for concrete runs.\<close>

definition env_ok :: alloc_env where
  "env_ok = \<lparr>malloc_ok = \<lambda>_ _. True, maybe_collect = \<lambda>vm. (True, vm)\<rparr>"

definition vm_empty :: vm_heap where
  "vm_empty = \<lparr>young_objects = [], bytes_allocated = 0\<rparr>"

definition signed :: "bool \<Rightarrow> nat \<Rightarrow> int" where
  "signed neg n = (if neg then - int n else int n)"

section \<open>Canonical results\<close>

lemma int_result_val [simp]: "int_val (int_result i) = i"
  using to_limbs_props [of "nat \<bar>i\<bar>"] by (cases "i < 0") (simp_all add: int_result_def)

lemma int_result_canonical: "canonical (int_result i)"
  using to_limbs_props [of "nat \<bar>i\<bar>"] by (auto simp: int_result_def)

lemma to_limbs_unique: "wf_mag l \<Longrightarrow> to_limbs (mag_val l) = l"
  using to_limbs_props [of "mag_val l"] wf_mag_inject by blast

text \<open>A canonical value is determined by the integer it stands for.\<close>

lemma canonical_unique: "canonical v \<Longrightarrow> int_result (int_val v) = v"
  by (cases v) (auto simp: int_result_def to_limbs_unique fits_int64_def int64_min_def int64_max_def)

lemma view_val_signed: "view_val v = signed (negative v) (mag_val (limbs v))"
  by (simp add: view_val_def signed_def)

lemma malloc_fails: "\<not> malloc_ok env b n \<Longrightarrow> \<not> alloc_succeeds env"
  by (auto simp: alloc_succeeds_def)

lemma collect_fails: "maybe_collect env vm = (False, vm') \<Longrightarrow> \<not> alloc_succeeds env"
  by (metis alloc_succeeds_def fst_conv)

lemma bignum_alloc_result:
  "fst (bignum_alloc env vm neg ls) = Some (neg, ls) \<or>
   fst (bignum_alloc env vm neg ls) = None \<and> \<not> alloc_succeeds env"
  using collect_fails [of env vm] malloc_fails [of env]
  by (auto simp: bignum_alloc_def Let_def split: prod.splits bool.splits)

lemma canonicalize_result:
  assumes "wf_mag ls"
  shows "yields env (bignum_canonicalize env vm neg ls) (signed neg (mag_val ls))"
    and "allocates_once env vm (bignum_canonicalize env vm neg ls)"
proof -
  have fits0: "fits_int64 0"
    by (simp add: fits_int64_def int64_min_def int64_max_def)
  have is_big: "int_result (signed neg (mag_val ls)) = V_BIGNUM neg ls"
    if "\<not> fits_int64 (signed neg (mag_val ls))"
    using that to_limbs_unique [OF assms]
    by (auto simp: int_result_def signed_def fits_int64_def int64_min_def int64_max_def)
  have small: "magnitude_to_int64 ls neg =
      (if fits_int64 (signed neg (mag_val ls)) then Some (signed neg (mag_val ls)) else None)"
    unfolding signed_def by (rule magnitude_to_int64_props [OF assms])
  consider (zero) "ls = []" | (fits) "ls \<noteq> []" "fits_int64 (signed neg (mag_val ls))"
    | (big) "ls \<noteq> []" "\<not> fits_int64 (signed neg (mag_val ls))" by blast
  then show "yields env (bignum_canonicalize env vm neg ls) (signed neg (mag_val ls))"
  proof cases
    case zero
    then show ?thesis
      using fits0 by (simp add: yields_def bignum_canonicalize_def signed_def int_result_def)
  next
    case fits
    then show ?thesis
      by (simp add: yields_def bignum_canonicalize_def small int_result_def)
  next
    case big
    then show ?thesis
      using bignum_alloc_result [of env vm neg ls] is_big
      by (auto simp: yields_def bignum_canonicalize_def small split: prod.splits)
  qed
  show "allocates_once env vm (bignum_canonicalize env vm neg ls)"
    by (auto simp: allocates_once_def bignum_canonicalize_def bignum_alloc_def Let_def
        split: prod.splits bool.splits option.splits)
qed

lemma yields_nil: "\<not> alloc_succeeds env \<Longrightarrow> yields env (V_NIL, vm) i"
  by (simp add: yields_def)

lemma yields_zero: "yields env (V_INT 0, vm) 0"
  by (simp add: yields_def int_result_def fits_int64_def int64_min_def int64_max_def)

lemma allocates_once_simple [simp]:
  "allocates_once env vm (V_NIL, vm)" "allocates_once env vm (V_INT i, vm)"
  by (simp_all add: allocates_once_def)

lemma view_int64_ok: "fits_int64 i \<Longrightarrow> view_ok (diamond_int_view_int64 i)"
  "fits_int64 i \<Longrightarrow> view_val (diamond_int_view_int64 i) = i"
  using int64_to_magnitude_props [of i]
  by (auto simp: view_ok_def diamond_int_view_int64_def view_val_def)

lemma int_view_ok:
  assumes "canonical v"
  shows "view_ok (diamond_int_view v)" and "view_val (diamond_int_view v) = int_val v"
  using assms view_int64_ok
  by (cases v; auto simp: view_ok_def view_val_def fits_int64_def int64_min_def int64_max_def)+

section \<open>Arithmetic is exact\<close>

lemma yieldsI: "yields env r j \<Longrightarrow> i = j \<Longrightarrow> yields env r i"
  by simp

lemma add_yields:
  assumes "wf_mag (limbs l)" "wf_mag (limbs r)"
  shows "yields env (diamond_bignum_add env vm l r) (view_val l + view_val r)"
    and "allocates_once env vm (diamond_bignum_add env vm l r)"
proof -
  have d: "digits_ok (limbs l)" "digits_ok (limbs r)" using assms by (auto simp: wf_mag_def)
  note cmp = magnitude_compare_sgn [OF assms]
  have lr: "mag_val (limbs a) \<le> mag_val (limbs b) \<Longrightarrow> wf_mag (limbs a) \<Longrightarrow> wf_mag (limbs b) \<Longrightarrow>
     mag_val (magnitude_subtract (limbs b) (limbs a)) = mag_val (limbs b) - mag_val (limbs a) \<and>
     wf_mag (magnitude_subtract (limbs b) (limbs a))" for a b :: int_view
    using magnitude_subtract_props [of "limbs b" "limbs a"] wf_mag_le_length [of "limbs b" "limbs a"]
    by (auto simp: wf_mag_def)
  have sum: "mag_val (magnitude_add (limbs l) (limbs r)) = mag_val (limbs l) + mag_val (limbs r)"
    "wf_mag (magnitude_add (limbs l) (limbs r))"
    using magnitude_add_props(1) [OF d] magnitude_add_wf [OF assms] by auto
  consider (same) "negative l = negative r"
    | (eq) "negative l \<noteq> negative r" "mag_val (limbs l) = mag_val (limbs r)"
    | (gt) "negative l \<noteq> negative r" "mag_val (limbs r) < mag_val (limbs l)"
    | (lt) "negative l \<noteq> negative r" "mag_val (limbs l) < mag_val (limbs r)"
    by linarith
  then show "yields env (diamond_bignum_add env vm l r) (view_val l + view_val r)"
  proof cases
    case same
    then show ?thesis
      using canonicalize_result(1) [OF sum(2), of env vm "negative l"] sum(1)
      by (auto simp: diamond_bignum_add_def Let_def view_val_signed signed_def
          intro!: yields_nil dest: malloc_fails elim!: yieldsI)
  next
    case eq
    then show ?thesis
      by (auto simp: diamond_bignum_add_def Let_def view_val_signed signed_def cmp
          intro!: yields_nil yields_zero dest: malloc_fails)
  next
    case gt
    then show ?thesis
      using lr [of r l] assms
        canonicalize_result(1) [of "magnitude_subtract (limbs l) (limbs r)" env vm "negative l"]
      by (auto simp: diamond_bignum_add_def Let_def view_val_signed signed_def cmp of_nat_diff
          intro!: yields_nil dest: malloc_fails elim!: yieldsI)
  next
    case lt
    then show ?thesis
      using lr [of l r] assms
        canonicalize_result(1) [of "magnitude_subtract (limbs r) (limbs l)" env vm "negative r"]
      by (auto simp: diamond_bignum_add_def Let_def view_val_signed signed_def cmp of_nat_diff
          intro!: yields_nil dest: malloc_fails elim!: yieldsI)
  qed
  show "allocates_once env vm (diamond_bignum_add env vm l r)"
    using sum(2) lr [of l r] lr [of r l] assms
    by (auto simp: diamond_bignum_add_def Let_def cmp sgn_if intro!: canonicalize_result(2) split: if_splits)
qed

lemma subtract_yields:
  assumes "wf_mag (limbs l)" "wf_mag (limbs r)"
  shows "yields env (diamond_bignum_subtract env vm l r) (view_val l - view_val r)"
    and "allocates_once env vm (diamond_bignum_subtract env vm l r)"
  using add_yields [of l "r\<lparr>negative := \<not> negative r\<rparr>"] assms
  by (auto simp: diamond_bignum_subtract_def view_val_def split: if_splits)

lemma negate_yields:
  assumes "wf_mag (limbs v)"
  shows "yields env (diamond_bignum_negate env vm v) (- view_val v)"
    and "allocates_once env vm (diamond_bignum_negate env vm v)"
  using canonicalize_result [OF assms, of env vm "\<not> negative v"]
  by (auto simp: diamond_bignum_negate_def view_val_def signed_def split: if_splits)

lemma multiply_yields:
  assumes "wf_mag (limbs l)" "wf_mag (limbs r)"
  shows "yields env (diamond_bignum_multiply env vm l r) (view_val l * view_val r)"
    and "allocates_once env vm (diamond_bignum_multiply env vm l r)"
proof -
  obtain p where p: "magnitude_multiply (limbs l) (limbs r) = Some p" "wf_mag p"
    "mag_val p = mag_val (limbs l) * mag_val (limbs r)"
    using magnitude_multiply_props assms by (metis wf_mag_def)
  show "yields env (diamond_bignum_multiply env vm l r) (view_val l * view_val r)"
    using canonicalize_result(1) [OF p(2), of env vm "negative l \<noteq> negative r"] p
    by (auto simp: diamond_bignum_multiply_def Let_def view_val_def signed_def
        intro!: yields_nil dest: malloc_fails elim!: yieldsI)
  show "allocates_once env vm (diamond_bignum_multiply env vm l r)"
    using canonicalize_result(2) [OF p(2)] p by (auto simp: diamond_bignum_multiply_def Let_def)
qed

lemma signed_div:
  assumes "b > 0"
  shows "signed s a div signed t b =
    signed (s \<noteq> t) (a div b + (if s \<noteq> t \<and> a mod b \<noteq> 0 then 1 else 0))"
  using assms
  by (auto simp: signed_def zdiv_zminus1_eq_if zdiv_zminus2_eq_if zdiv_int zmod_int)

lemma signed_mod:
  assumes "b > 0"
  shows "signed s a mod signed t b =
    (if a mod b = 0 then 0 else if s = t then signed t (a mod b) else signed t (b - a mod b))"
proof -
  have "a mod b \<le> b" using assms by (simp add: order_less_imp_le)
  then have *: "int (b - a mod b) = int b - int a mod int b" by (simp add: of_nat_diff zmod_int)
  have **: "int (a mod b) = int a mod int b" by (simp add: zmod_int)
  have "a mod b = 0 \<longleftrightarrow> int a mod int b = 0" by (metis ** of_nat_0_eq_iff)
  moreover have "int b \<noteq> int a mod int b" using assms pos_mod_bound [of "int b" "int a"] by linarith
  ultimately show ?thesis
    unfolding signed_def * ** using assms by (auto simp: zmod_zminus1_eq_if zmod_zminus2_eq_if)
qed

lemma divide_yields:
  assumes "wf_mag (limbs l)" "wf_mag (limbs r)" "view_val r \<noteq> 0"
  shows "yields env (diamond_bignum_divide_floored env vm l r) (view_val l div view_val r)"
    and "allocates_once env vm (diamond_bignum_divide_floored env vm l r)"
proof -
  have pos: "mag_val (limbs r) > 0" using assms(3) by (auto simp: view_val_def split: if_splits)
  obtain q rm where d: "magnitude_divide True (limbs l) (limbs r) = Some (q, rm)"
    "wf_mag q" "wf_mag rm" "mag_val q = mag_val (limbs l) div mag_val (limbs r)"
    "mag_val rm = mag_val (limbs l) mod mag_val (limbs r)"
    using magnitude_divide_props [OF assms(2) pos assms(1)] by blast
  let ?neg = "negative l \<noteq> negative r"
  define q' where "q' = (if ?neg \<and> magnitude_trim rm \<noteq> [] then magnitude_add q [1] else q)"
  have one: "wf_mag [1]" by (simp add: wf_mag_def trimmed_def BASE_def)
  have rm0: "magnitude_trim rm \<noteq> [] \<longleftrightarrow> mag_val rm \<noteq> 0"
    using mag_val_0_iff [of "magnitude_trim rm"] by simp
  have q': "wf_mag q'" "mag_val q' = mag_val q + (if ?neg \<and> mag_val rm \<noteq> 0 then 1 else 0)"
    using d(2) one magnitude_add_wf [OF d(2) one] magnitude_add_props(1) [of q "[1]"] rm0
    by (auto simp: q'_def wf_mag_def)
  have eq: "diamond_bignum_divide_floored env vm l r = bignum_canonicalize env vm ?neg q'"
    if "malloc_ok env B_quotient ((length (limbs l) + 1) * 4)"
      "malloc_ok env B_remainder ((length (limbs r) + 1) * 4)"
      "malloc_ok env B_scratch ((length (limbs r) + 1) * 4)"
    using that d(1) by (simp add: diamond_bignum_divide_floored_def q'_def Let_def)
  have nil: "diamond_bignum_divide_floored env vm l r = (V_NIL, vm)" "\<not> alloc_succeeds env"
    if "\<not> (malloc_ok env B_quotient ((length (limbs l) + 1) * 4) \<and>
      malloc_ok env B_remainder ((length (limbs r) + 1) * 4) \<and>
      malloc_ok env B_scratch ((length (limbs r) + 1) * 4))"
    using that by (auto simp: diamond_bignum_divide_floored_def magnitude_divide_def dest: malloc_fails)
  have v: "view_val l div view_val r = signed ?neg (mag_val q')"
    using signed_div [OF pos] d q' by (simp add: view_val_signed)
  show "yields env (diamond_bignum_divide_floored env vm l r) (view_val l div view_val r)"
    using eq nil canonicalize_result(1) [OF q'(1), of env vm ?neg] yields_nil [of env vm]
    unfolding v by metis
  show "allocates_once env vm (diamond_bignum_divide_floored env vm l r)"
    using eq nil canonicalize_result(2) [OF q'(1), of env vm ?neg] allocates_once_simple by metis
qed

lemma modulo_yields:
  assumes "wf_mag (limbs l)" "wf_mag (limbs r)" "view_val r \<noteq> 0"
  shows "yields env (diamond_bignum_modulo_floored env vm l r) (view_val l mod view_val r)"
    and "allocates_once env vm (diamond_bignum_modulo_floored env vm l r)"
proof -
  have pos: "mag_val (limbs r) > 0" using assms(3) by (auto simp: view_val_def split: if_splits)
  obtain q rm where d: "magnitude_divide True (limbs l) (limbs r) = Some (q, rm)" "wf_mag rm"
    "mag_val rm = mag_val (limbs l) mod mag_val (limbs r)"
    using magnitude_divide_props [OF assms(2) pos assms(1)] by blast
  let ?rm = "magnitude_trim rm" and ?sub = "magnitude_subtract (limbs r) (magnitude_trim rm)"
  have wf: "wf_mag ?rm" using d(2) by (simp add: wf_mag_def wf_mag_trim digits_ok_trim)
  have lt: "mag_val ?rm < mag_val (limbs r)" using d pos by simp
  have len: "length ?rm \<le> length (limbs r)"
    using wf_mag_le_length [OF assms(2) wf] lt by simp
  have sub: "wf_mag ?sub" "mag_val ?sub = mag_val (limbs r) - mag_val rm"
    using magnitude_subtract_props [OF _ _ len] assms(2) wf lt by (auto simp: wf_mag_def)
  have rm0: "?rm = [] \<longleftrightarrow> mag_val rm = 0" using mag_val_0_iff [of ?rm] by simp
  define ok where "ok \<longleftrightarrow>
    malloc_ok env B_quotient ((if length (limbs l) = 0 then 1 else length (limbs l)) * 4) \<and>
    malloc_ok env B_remainder ((length (limbs r) + 1) * 4) \<and>
    malloc_ok env B_complement ((length (limbs r) + 1) * 4) \<and>
    malloc_ok env B_scratch ((length (limbs r) + 1) * 4)"
  have eq: "diamond_bignum_modulo_floored env vm l r =
      (if ?rm = [] then (V_INT 0, vm)
       else if negative l = negative r then bignum_canonicalize env vm (negative r) ?rm
       else bignum_canonicalize env vm (negative r) ?sub)" if ok
    using that d(1) by (simp add: diamond_bignum_modulo_floored_def Let_def ok_def)
  have nil: "diamond_bignum_modulo_floored env vm l r = (V_NIL, vm)" "\<not> alloc_succeeds env"
    if "\<not> ok"
    using that
    by (auto simp: diamond_bignum_modulo_floored_def magnitude_divide_def ok_def dest: malloc_fails)
  have v: "view_val l mod view_val r =
      (if ?rm = [] then 0 else if negative l = negative r then signed (negative r) (mag_val ?rm)
       else signed (negative r) (mag_val ?sub))"
    using signed_mod [OF pos] d(3) sub rm0 by (simp add: view_val_signed)
  show "yields env (diamond_bignum_modulo_floored env vm l r) (view_val l mod view_val r)"
    unfolding v using eq nil yields_nil [of env vm] yields_zero [of env vm]
      canonicalize_result(1) [OF wf, of env vm "negative r"]
      canonicalize_result(1) [OF sub(1), of env vm "negative r"] by (cases ok) auto
  show "allocates_once env vm (diamond_bignum_modulo_floored env vm l r)"
    using eq nil canonicalize_result(2) [OF wf, of env vm "negative r"]
      canonicalize_result(2) [OF sub(1), of env vm "negative r"] by (cases ok) auto
qed

lemma compare_sgn:
  assumes "view_ok l" "view_ok r"
  shows "diamond_bignum_compare l r = sgn (view_val l - view_val r)"
proof -
  have w: "wf_mag (limbs l)" "wf_mag (limbs r)" using assms by (auto simp: view_ok_def)
  have pos: "negative v \<Longrightarrow> view_ok v \<Longrightarrow> mag_val (limbs v) > 0" for v
    using mag_val_0_iff [of "limbs v"] by (auto simp: view_ok_def wf_mag_def)
  show ?thesis
    using pos [OF _ assms(1)] pos [OF _ assms(2)] by (auto simp: diamond_bignum_compare_def magnitude_compare_sgn [OF w] Let_def
      view_val_def sgn_if)
qed

interpretation int_compare: three_way diamond_bignum_compare view_ok
  by unfold_locales (auto simp: compare_sgn sgn_if split: if_splits)

interpretation mag_compare: three_way magnitude_compare wf_mag
  by unfold_locales (auto simp: magnitude_compare_sgn sgn_if split: if_splits)

section \<open>Decimal conversion\<close>

lemma format_09u_props:
  assumes "n < BASE"
  shows "length (format_09u n) = 9" "decimal_val (format_09u n) = n"
    "\<forall>c \<in> set (format_09u n). is_digit c"
  using assms format_u_props(1,2) [of n] format_u_props(3) [of n 9]
  by (auto simp: format_09u_def Let_def BASE_def is_digit_def)

lemma chunk_value_foldl:
  assumes "\<forall>c \<in> set s. is_digit c" "k * 10 ^ length s + decimal_val s < 4294967296"
  shows "chunk_value k s = k * 10 ^ length s + decimal_val s"
  using assms
proof (induction s arbitrary: k)
  case (Cons c s)
  have eq: "k * 10 ^ length (c # s) + decimal_val (c # s) =
      (k * 10 + (of_char c - 48)) * 10 ^ length s + decimal_val s"
    by (simp add: decimal_val_Cons algebra_simps)
  have "k * 10 + (of_char c - 48) \<le> (k * 10 + (of_char c - 48)) * 10 ^ length s + decimal_val s"
    by (simp add: trans_le_add1)
  then have lt: "k * 10 + (of_char c - 48) < 4294967296" using Cons.prems(2) eq by linarith
  then have "u32 (u32 (k * 10) + (of_char c - 48)) = k * 10 + (of_char c - 48)"
    by (simp add: width_simps)
  then show ?case using Cons.IH [of "k * 10 + (of_char c - 48)"] Cons.prems eq by simp
qed simp

lemma chunk_value_digits:
  assumes "\<forall>c \<in> set s. is_digit c" "length s \<le> 9"
  shows "chunk_value 0 s = decimal_val s" "chunk_value 0 s < BASE"
proof -
  have "decimal_val s < 10 ^ length s" by (rule decimal_val_bound [OF assms(1)])
  also have "\<dots> \<le> (10 :: nat) ^ 9" using assms(2) by (intro power_increasing) auto
  finally have "decimal_val s < BASE" by (simp add: BASE_def)
  then show "chunk_value 0 s = decimal_val s" "chunk_value 0 s < BASE"
    using chunk_value_foldl [OF assms(1), of 0] by (auto simp: BASE_def)
qed

lemma decimal_limbs_props:
  assumes "\<forall>c \<in> set s. is_digit c" "n \<le> length s"
  shows "mag_val (decimal_limbs s n) = decimal_val (take n s)" "digits_ok (decimal_limbs s n)"
    "length (decimal_limbs s n) = (n + 8) div 9"
proof -
  have "mag_val (decimal_limbs s n) = decimal_val (take n s) \<and>
    digits_ok (decimal_limbs s n) \<and> length (decimal_limbs s n) = (n + 8) div 9"
    using assms(2)
  proof (induction n rule: less_induct)
    case (less n)
    show ?case
    proof (cases "n = 0")
      case True
      then show ?thesis by (simp add: decimal_limbs.simps)
    next
      case False
      define c where "c = (if n \<ge> 9 then 9 else n)"
      define st where "st = n - c"
      let ?chunk = "take c (drop st s)"
      have n: "n = st + c" "st < n" "c \<le> 9" "c < 9 \<Longrightarrow> st = 0" using False by (auto simp: c_def st_def)
      have step: "decimal_limbs s n = chunk_value 0 ?chunk # decimal_limbs s st"
        using False by (subst decimal_limbs.simps) (simp add: c_def st_def Let_def)
      have dig: "\<forall>c \<in> set ?chunk. is_digit c"
        using assms(1) by (meson in_set_dropD in_set_takeD)
      have cv: "chunk_value 0 ?chunk = decimal_val ?chunk" "chunk_value 0 ?chunk < BASE"
        using chunk_value_digits [OF dig] n by auto
      have ih: "mag_val (decimal_limbs s st) = decimal_val (take st s)"
        "digits_ok (decimal_limbs s st)" "length (decimal_limbs s st) = (st + 8) div 9"
        using less.IH [OF n(2)] less.prems n by auto
      have len: "length ?chunk = c" using less.prems n by simp
      have "decimal_val (take n s) = decimal_val (take st s) * 10 ^ c + decimal_val ?chunk"
        using decimal_val_append [of "take st s" ?chunk] n(1) len by (simp add: take_add)
      moreover have "decimal_val (take st s) * 10 ^ c = decimal_val (take st s) * BASE"
        using n(3,4) by (cases "c = 9") (auto simp: BASE_def)
      moreover have "Suc ((st + 8) div 9) = (n + 8) div 9"
        using n False by (cases "c = 9") auto
      ultimately show ?thesis using step cv ih by (simp add: algebra_simps)
    qed
  qed
  then show "mag_val (decimal_limbs s n) = decimal_val (take n s)" "digits_ok (decimal_limbs s n)"
    "length (decimal_limbs s n) = (n + 8) div 9" by blast+
qed

lemma from_decimal_yields:
  assumes "\<forall>c \<in> set s. is_digit c"
  shows "yields env (diamond_bignum_from_decimal_digits env vm s neg) (signed neg (decimal_val s))"
    and "allocates_once env vm (diamond_bignum_from_decimal_digits env vm s neg)"
proof -
  have "wf_mag (magnitude_trim (decimal_limbs s (length s)))"
    using decimal_limbs_props [OF assms, of "length s"] by (simp add: wf_mag_trim)
  from canonicalize_result [OF this, of env vm neg]
  show "yields env (diamond_bignum_from_decimal_digits env vm s neg) (signed neg (decimal_val s))"
    and "allocates_once env vm (diamond_bignum_from_decimal_digits env vm s neg)"
    using decimal_limbs_props(1) [OF assms, of "length s"]
    by (auto simp: diamond_bignum_from_decimal_digits_def Let_def intro!: yields_nil dest: malloc_fails)
qed

lemma lower_limbs_text_props:
  assumes "digits_ok ls" "n \<le> length ls"
  shows "decimal_val (lower_limbs_text ls n) = mag_val (take n ls)"
    "length (lower_limbs_text ls n) = 9 * n" "\<forall>c \<in> set (lower_limbs_text ls n). is_digit c"
proof -
  have "decimal_val (lower_limbs_text ls n) = mag_val (take n ls) \<and>
    length (lower_limbs_text ls n) = 9 * n \<and> (\<forall>c \<in> set (lower_limbs_text ls n). is_digit c)"
    using assms(2)
  proof (induction n)
    case (Suc n)
    then have lt: "ls ! n < BASE" using assms(1) digits_ok_nth by simp
    have b: "(10 :: nat) ^ (9 * n) = BASE ^ n" by (simp add: BASE_def power_mult)
    have t: "mag_val (take (Suc n) ls) = mag_val (take n ls) + BASE ^ n * (ls ! n)"
      using Suc.prems by (simp add: take_Suc_conv_app_nth mag_val_append min_def)
    show ?case
      using Suc format_09u_props [OF lt] b t by (auto simp: decimal_val_append)
  qed simp
  then show "decimal_val (lower_limbs_text ls n) = mag_val (take n ls)"
    "length (lower_limbs_text ls n) = 9 * n" "\<forall>c \<in> set (lower_limbs_text ls n). is_digit c"
    by blast+
qed

lemma to_string_props:
  assumes "wf_mag ls" "ls \<noteq> []"
  obtains body where
    "diamond_bignum_to_string neg ls = (if neg then ''-'' else []) @ body"
    "\<forall>c \<in> set body. is_digit c" "decimal_val body = mag_val ls" "body \<noteq> []"
    "length (diamond_bignum_to_string neg ls) < diamond_bignum_string_length neg ls"
proof
  let ?n = "length ls - 1"
  let ?body = "format_u (ls ! ?n) @ lower_limbs_text ls ?n"
  have d: "digits_ok ls" using assms by (simp add: wf_mag_def)
  have lt: "ls ! ?n < BASE" using d assms(2) by (simp add: digits_ok_nth)
  then have f: "length (format_u (ls ! ?n)) \<le> 9"
    using format_u_props(3) [of "ls ! ?n" 9] by (simp add: BASE_def)
  show "diamond_bignum_to_string neg ls = (if neg then ''-'' else []) @ ?body"
    using f by (simp add: diamond_bignum_to_string_def)
  have l: "decimal_val (lower_limbs_text ls ?n) = mag_val (take ?n ls)"
    "length (lower_limbs_text ls ?n) = 9 * ?n" "\<forall>c \<in> set (lower_limbs_text ls ?n). is_digit c"
    using lower_limbs_text_props [OF d, of ?n] by simp_all
  show "\<forall>c \<in> set ?body. is_digit c" using l(3) format_u_props(2) by auto
  have "ls = take ?n ls @ [ls ! ?n]"
    using assms(2) by (metis append_butlast_last_id butlast_conv_take last_conv_nth)
  then have "mag_val ls = mag_val (take ?n ls) + BASE ^ ?n * (ls ! ?n)"
    using mag_val_append [of "take ?n ls" "[ls ! ?n]"] assms(2) by (cases ls) simp_all
  moreover have "(10 :: nat) ^ (9 * ?n) = BASE ^ ?n" by (simp add: BASE_def power_mult)
  ultimately show "decimal_val ?body = mag_val ls"
    using l format_u_props(1) [of "ls ! ?n"] by (simp add: decimal_val_append algebra_simps)
  show "?body \<noteq> []" using format_u_props(4) by simp
  show "length (diamond_bignum_to_string neg ls) < diamond_bignum_string_length neg ls"
    using f l(2) assms(2)
    by (cases ls) (auto simp: diamond_bignum_to_string_def diamond_bignum_string_length_def)
qed

section \<open>Properties\<close>

text \<open>
  C1: Int arithmetic beyond \<open>int64_t\<close> is exact: on canonical operands, addition, subtraction,
  negation and multiplication return the canonical representation of the mathematical result, and
  nil only when an allocation failed.
\<close>

theorem bignum_arithmetic_exact:
  assumes "canonical a" "canonical b"
  shows "yields env (diamond_bignum_add env vm (diamond_int_view a) (diamond_int_view b))
           (int_val a + int_val b) \<and>
         yields env (diamond_bignum_subtract env vm (diamond_int_view a) (diamond_int_view b))
           (int_val a - int_val b) \<and>
         yields env (diamond_bignum_negate env vm (diamond_int_view a)) (- int_val a) \<and>
         yields env (diamond_bignum_multiply env vm (diamond_int_view a) (diamond_int_view b))
           (int_val a * int_val b)"
  using add_yields(1) subtract_yields(1) negate_yields(1) multiply_yields(1)
    int_view_ok [OF assms(1)] int_view_ok [OF assms(2)]
  by (metis view_ok_def)

lemma env_ok_succeeds: "alloc_succeeds env_ok"
  by (simp add: alloc_succeeds_def env_ok_def)

theorem bignum_arithmetic_exact_witness:
  "canonical (V_INT 9223372036854775807) \<and> canonical (V_INT 1) \<and>
   fst (diamond_bignum_add env_ok vm_empty (diamond_int_view (V_INT 9223372036854775807))
     (diamond_int_view (V_INT 1))) = int_result 9223372036854775808"
  using bignum_arithmetic_exact [of "V_INT 9223372036854775807" "V_INT 1" env_ok vm_empty]
    env_ok_succeeds
  by (simp add: fits_int64_def int64_min_def int64_max_def yields_def)

text \<open>
  C2: Int division and modulo are floored (rounded towards minus infinity, the remainder taking
  the divisor's sign) and exact for every canonical dividend and nonzero canonical divisor.
\<close>

theorem bignum_division_floored:
  assumes "canonical a" "canonical b" "int_val b \<noteq> 0"
  shows "yields env (diamond_bignum_divide_floored env vm (diamond_int_view a) (diamond_int_view b))
           (int_val a div int_val b) \<and>
         yields env (diamond_bignum_modulo_floored env vm (diamond_int_view a) (diamond_int_view b))
           (int_val a mod int_val b)"
  using divide_yields(1) modulo_yields(1) int_view_ok [OF assms(1)] int_view_ok [OF assms(2)] assms(3)
  by (metis view_ok_def)

theorem bignum_division_floored_witness:
  "canonical (V_INT (-7)) \<and> canonical (V_INT 3) \<and>
   fst (diamond_bignum_divide_floored env_ok vm_empty (diamond_int_view (V_INT (-7)))
     (diamond_int_view (V_INT 3))) = V_INT (-3) \<and>
   fst (diamond_bignum_modulo_floored env_ok vm_empty (diamond_int_view (V_INT (-7)))
     (diamond_int_view (V_INT 3))) = V_INT 2"
  using bignum_division_floored [of "V_INT (-7)" "V_INT 3" env_ok vm_empty] env_ok_succeeds
  by (simp add: fits_int64_def int64_min_def int64_max_def yields_def int_result_def)

text \<open>
  C3: Canonical representation: every integer has exactly one canonical value, so two canonical
  Int values are the same value exactly when they denote the same integer, and the comparison
  routine is the sign of the difference.
\<close>

theorem canonical_values_compare:
  assumes "canonical a" "canonical b"
  shows "(a = b \<longleftrightarrow> int_val a = int_val b) \<and>
    diamond_bignum_compare (diamond_int_view a) (diamond_int_view b) = sgn (int_val a - int_val b)"
  using canonical_unique [OF assms(1)] canonical_unique [OF assms(2)]
    compare_sgn int_view_ok [OF assms(1)] int_view_ok [OF assms(2)]
  by metis

theorem canonical_values_compare_witness:
  "canonical (V_BIGNUM True [0, 0, 10]) \<and> canonical (V_INT (-9)) \<and>
   V_BIGNUM True [0, 0, 10] \<noteq> V_INT (-9) \<and>
   diamond_bignum_compare (diamond_int_view (V_BIGNUM True [0, 0, 10]))
     (diamond_int_view (V_INT (-9))) = -1"
proof -
  have "canonical (V_BIGNUM True [0, 0, 10])" "canonical (V_INT (-9))"
    by (simp_all add: wf_mag_def trimmed_def BASE_def fits_int64_def int64_min_def int64_max_def)
  from this canonical_values_compare [OF this] show ?thesis by (simp add: BASE_def)
qed

text \<open>
  C4: At most one heap object per operation: an arithmetic entry point runs at most one collection
  and afterwards adds either nothing or exactly the object it returns, so no intermediate result is
  ever exposed to a collection.
\<close>

theorem bignum_single_allocation:
  assumes "canonical a" "canonical b" "int_val b \<noteq> 0"
  shows "allocates_once env vm (diamond_bignum_add env vm (diamond_int_view a) (diamond_int_view b)) \<and>
    allocates_once env vm (diamond_bignum_subtract env vm (diamond_int_view a) (diamond_int_view b)) \<and>
    allocates_once env vm (diamond_bignum_multiply env vm (diamond_int_view a) (diamond_int_view b)) \<and>
    allocates_once env vm
      (diamond_bignum_divide_floored env vm (diamond_int_view a) (diamond_int_view b)) \<and>
    allocates_once env vm
      (diamond_bignum_modulo_floored env vm (diamond_int_view a) (diamond_int_view b))"
  using add_yields(2) subtract_yields(2) multiply_yields(2) divide_yields(2) modulo_yields(2)
    int_view_ok [OF assms(1)] int_view_ok [OF assms(2)] assms(3)
  by (metis view_ok_def)

theorem bignum_single_allocation_witness:
  "canonical (V_INT 4611686018427387904) \<and>
   (case diamond_bignum_multiply env_ok vm_empty (diamond_int_view (V_INT 4611686018427387904))
      (diamond_int_view (V_INT 4)) of
      (V_BIGNUM n l, vm') \<Rightarrow> young_objects vm' = [(n, l)]
    | (V_INT i, vm') \<Rightarrow> vm' = vm_empty
    | (V_NIL, vm') \<Rightarrow> vm' = vm_empty)"
  using bignum_single_allocation [of "V_INT 4611686018427387904" "V_INT 4" env_ok vm_empty]
  by (auto simp: fits_int64_def int64_min_def int64_max_def allocates_once_def env_ok_def vm_empty_def
      split: prod.splits int_value.splits)

text \<open>
  C5: Decimal round trip: the text of a bignum is an optional minus sign and decimal digits, fits
  the buffer size that is announced for it, and parsing the digits back under that sign returns
  the same canonical value.
\<close>

theorem bignum_decimal_round_trip:
  assumes "canonical (V_BIGNUM neg ls)"
  shows "\<exists>body. diamond_bignum_to_string neg ls = (if neg then ''-'' else []) @ body \<and>
    list_all is_digit body \<and>
    length (diamond_bignum_to_string neg ls) < diamond_bignum_string_length neg ls \<and>
    (fst (diamond_bignum_from_decimal_digits env vm body neg) = V_BIGNUM neg ls \<or>
     fst (diamond_bignum_from_decimal_digits env vm body neg) = V_NIL \<and> alloc_succeeds env = False)"
proof -
  have w: "wf_mag ls" and big: "\<not> fits_int64 (int_val (V_BIGNUM neg ls))" using assms by auto
  have ne: "ls \<noteq> []"
    using big by (cases neg) (auto simp: fits_int64_def int64_min_def int64_max_def)
  obtain body where body: "diamond_bignum_to_string neg ls = (if neg then ''-'' else []) @ body"
    "\<forall>c \<in> set body. is_digit c" "decimal_val body = mag_val ls"
    "length (diamond_bignum_to_string neg ls) < diamond_bignum_string_length neg ls"
    using to_string_props [OF w ne, of neg] by metis
  have "int_result (signed neg (decimal_val body)) = V_BIGNUM neg ls"
    using canonical_unique [OF assms] by (simp add: signed_def body(3))
  with from_decimal_yields(1) [OF body(2), of env vm neg] body show ?thesis
    by (auto simp: yields_def list_all_iff)
qed

theorem bignum_decimal_round_trip_witness:
  "canonical (V_BIGNUM True [5, 0, 12]) \<and>
   (\<exists>body. diamond_bignum_to_string True [5, 0, 12] = ''-'' @ body \<and> list_all is_digit body \<and>
      fst (diamond_bignum_from_decimal_digits env_ok vm_empty body True) = V_BIGNUM True [5, 0, 12])"
proof -
  have c: "canonical (V_BIGNUM True [5, 0, 12])"
    by (simp add: wf_mag_def trimmed_def BASE_def fits_int64_def int64_min_def int64_max_def)
  from c bignum_decimal_round_trip [OF c, of env_ok vm_empty] env_ok_succeeds show ?thesis by auto
qed

end
