(* ===== verification/Bignum_Words.thy ===== *)
theory Bignum_Words
  imports Bignum
begin

unbundle bit_operations_syntax

text \<open>
  The bit-level part of \<open>src/src/bignum.c\<close>: conversion between base-\<open>10^9\<close> limbs and little-endian
  32-bit words, infinite two's-complement \<open>&\<close>, \<open>|\<close> and \<open>^\<close>, the shifts, and radix conversion.
  Every scratch buffer has the capacity the source requests; a write past it is \<open>Out_of_bounds\<close>,
  distinct from an allocation failure, and is shown unreachable.
\<close>

section \<open>Definitions\<close>

datatype 'a outcome = Done 'a | No_memory | Out_of_bounds

fun fits :: "nat \<Rightarrow> 'a list \<Rightarrow> 'a list outcome" where
  "fits capacity xs = (if length xs \<le> capacity then Done xs else Out_of_bounds)"

primrec bind_outcome :: "'a outcome \<Rightarrow> ('a \<Rightarrow> 'b outcome) \<Rightarrow> 'b outcome" where
  "bind_outcome (Done x) f = f x"
| "bind_outcome No_memory f = No_memory"
| "bind_outcome Out_of_bounds f = Out_of_bounds"

subsection \<open>Limbs to words and back\<close>

primrec divide_word_loop :: "nat list \<Rightarrow> nat list \<times> nat" where
  "divide_word_loop [] = ([], 0)"
| "divide_word_loop (limb # ls) =
     (case divide_word_loop ls of
        (qs, remainder) \<Rightarrow>
          (let current = u64 (u64 (remainder * BASE) + limb)
           in (u32 (drop_bit 32 current) # qs, current AND 0xFFFFFFFF)))"

definition magnitude_divide_word :: "nat list \<Rightarrow> nat list \<times> nat" where
  "magnitude_divide_word ls =
     (case divide_word_loop ls of (qs, remainder) \<Rightarrow> (magnitude_trim qs, u32 remainder))"

fun to_words_loop :: "nat \<Rightarrow> nat list \<Rightarrow> nat list outcome" where
  "to_words_loop 0 scratch = (if scratch \<noteq> [] then Out_of_bounds else Done [])"
| "to_words_loop (Suc room) scratch =
     (if scratch \<noteq> []
      then (case magnitude_divide_word scratch of
              (scratch', word) \<Rightarrow>
                bind_outcome (to_words_loop room scratch') (\<lambda>words. Done (word # words)))
      else Done [])"

definition magnitude_to_words :: "alloc_env \<Rightarrow> nat list \<Rightarrow> nat list outcome" where
  "magnitude_to_words env ls =
     (let capacity = (length ls * 30 + 31) div 32 + 2
      in if \<not> malloc_ok env B_words (capacity * 4) \<or>
            \<not> malloc_ok env B_scratch ((if length ls = 0 then 1 else length ls) * 4)
         then No_memory
         else to_words_loop capacity (magnitude_trim ls))"

function carry_limbs :: "nat \<Rightarrow> nat list" where
  "carry_limbs carry =
     (if carry > 0 then u32 (carry mod BASE) # carry_limbs (carry div BASE) else [])"
  by pat_completeness auto
termination
  by (relation "measure id") (auto simp: BASE_def)

declare carry_limbs.simps [simp del]

fun multiply_add_loop :: "nat list \<Rightarrow> nat \<Rightarrow> nat \<Rightarrow> nat list" where
  "multiply_add_loop [] scalar carry = carry_limbs carry"
| "multiply_add_loop (limb # ls) scalar carry =
     (let product = u64 (u64 (limb * scalar) + carry)
      in u32 (product mod BASE) # multiply_add_loop ls scalar (product div BASE))"

definition magnitude_multiply_add :: "nat \<Rightarrow> nat list \<Rightarrow> nat \<Rightarrow> nat \<Rightarrow> nat list outcome" where
  "magnitude_multiply_add capacity ls scalar addend =
     fits capacity (multiply_add_loop ls scalar addend)"

function (sequential) add_word :: "nat list \<Rightarrow> nat \<Rightarrow> nat list" where
  "add_word [] carry =
     (if carry > 0
      then (let sum = u64 (0 + carry) in u32 (sum mod BASE) # add_word [] (sum div BASE))
      else [])"
| "add_word (limb # ls) carry =
     (if carry > 0
      then (let sum = u64 (limb + carry) in u32 (sum mod BASE) # add_word ls (sum div BASE))
      else limb # ls)"
  by pat_completeness auto
termination
  by (relation "measures [length \<circ> fst, snd]") (auto simp: u64_def BASE_def)

declare add_word.simps [simp del]

primrec words_limbs :: "nat \<Rightarrow> nat list \<Rightarrow> nat list outcome" where
  "words_limbs capacity [] = Done []"
| "words_limbs capacity (word # words) =
     bind_outcome (words_limbs capacity words) (\<lambda>ls.
     bind_outcome (magnitude_multiply_add capacity ls 65536 0) (\<lambda>ls.
     bind_outcome (magnitude_multiply_add capacity ls 65536 0) (\<lambda>ls.
     fits capacity (add_word ls word))))"

definition words_to_value ::
    "alloc_env \<Rightarrow> vm_heap \<Rightarrow> bool \<Rightarrow> nat list \<Rightarrow> (int_value \<times> vm_heap) outcome" where
  "words_to_value env vm neg words =
     (let words = magnitude_trim words
      in if words = [] then Done (V_INT 0, vm)
         else if \<not> malloc_ok env B_limbs ((length words * 2 + 3) * 4) then Done (V_NIL, vm)
         else bind_outcome (words_limbs (length words * 2 + 3) words) (\<lambda>ls.
                Done (bignum_canonicalize env vm neg (magnitude_trim ls))))"

subsection \<open>Two's complement\<close>

fun negate_words :: "nat list \<Rightarrow> nat \<Rightarrow> nat list" where
  "negate_words [] carry = []"
| "negate_words (word # words) carry =
     (let sum = u64 ((4294967295 - word) + carry)
      in u32 sum # negate_words words (drop_bit 32 sum))"

definition value_to_twos_complement ::
    "alloc_env \<Rightarrow> int_view \<Rightarrow> nat \<Rightarrow> nat list outcome" where
  "value_to_twos_complement env view width =
     bind_outcome (magnitude_to_words env (limbs view)) (\<lambda>words.
       let out = take width words @ replicate (width - length words) 0
       in Done (if negative view then negate_words out 1 else out))"

definition view_word_count :: "int_view \<Rightarrow> nat" where
  "view_word_count view = (length (limbs view) * 30 + 31) div 32 + 2"

datatype DiamondBignumBitwiseOp = BITWISE_AND | BITWISE_OR | BITWISE_XOR

fun word_op :: "DiamondBignumBitwiseOp \<Rightarrow> nat \<Rightarrow> nat \<Rightarrow> nat" where
  "word_op BITWISE_AND a b = a AND b"
| "word_op BITWISE_OR a b = a OR b"
| "word_op BITWISE_XOR a b = a XOR b"

text \<open>The callers' view of an outcome: an allocation failure is the nil result.\<close>

definition or_nil :: "vm_heap \<Rightarrow> (int_value \<times> vm_heap) outcome \<Rightarrow> (int_value \<times> vm_heap) outcome" where
  "or_nil vm r = (case r of No_memory \<Rightarrow> Done (V_NIL, vm) | _ \<Rightarrow> r)"

definition diamond_bignum_bitwise ::
    "alloc_env \<Rightarrow> vm_heap \<Rightarrow> DiamondBignumBitwiseOp \<Rightarrow> int_view \<Rightarrow> int_view \<Rightarrow>
     (int_value \<times> vm_heap) outcome" where
  "diamond_bignum_bitwise env vm oper left right =
     (let a_width = view_word_count left;
          b_width = view_word_count right;
          width = (if a_width > b_width then a_width else b_width)
      in if \<not> malloc_ok env B_a (width * 4) \<or> \<not> malloc_ok env B_b (width * 4)
         then Done (V_NIL, vm)
         else or_nil vm
           (bind_outcome (value_to_twos_complement env left width) (\<lambda>a.
            bind_outcome (value_to_twos_complement env right width) (\<lambda>b.
              let a = map2 (word_op oper) a b;
                  neg = (a ! (width - 1) AND 0x80000000) \<noteq> 0;
                  a = (if neg then negate_words a 1 else a)
              in words_to_value env vm neg a))))"

subsection \<open>Shifts\<close>

fun shift_left_loop :: "nat list \<Rightarrow> nat \<Rightarrow> nat \<Rightarrow> nat list \<Rightarrow> nat list outcome" where
  "shift_left_loop [] k part shifted = Done shifted"
| "shift_left_loop (word # words) k part shifted =
     (if length shifted \<le> k + 1 then Out_of_bounds
      else (let spread = u64 (push_bit part word);
                shifted = shifted[k := shifted ! k OR u32 spread];
                shifted = shifted[k + 1 := shifted ! (k + 1) OR u32 (drop_bit 32 spread)]
            in shift_left_loop words (Suc k) part shifted))"

definition diamond_bignum_shift_left ::
    "alloc_env \<Rightarrow> vm_heap \<Rightarrow> int_view \<Rightarrow> nat \<Rightarrow> (int_value \<times> vm_heap) outcome" where
  "diamond_bignum_shift_left env vm v bits =
     or_nil vm (bind_outcome (magnitude_to_words env (limbs v)) (\<lambda>words.
       if words = [] then Done (V_INT 0, vm)
       else (let whole = bits div 32;
                 part = bits mod 32;
                 width = length words + whole + 2
             in if \<not> malloc_ok env B_shifted (width * 4) then Done (V_NIL, vm)
                else bind_outcome (shift_left_loop words whole part (replicate width 0))
                       (words_to_value env vm (negative v)))))"

fun shift_right_loop :: "nat \<Rightarrow> nat list \<Rightarrow> nat list" where
  "shift_right_loop part [] = []"
| "shift_right_loop part [word] = [u32 (drop_bit part word)]"
| "shift_right_loop part (word # word' # words) =
     (let current = drop_bit part word;
          current = (if part \<noteq> 0
                     then current OR (u64 (push_bit (32 - part) word') AND 0xFFFFFFFF)
                     else current)
      in u32 current # shift_right_loop part (word' # words))"

fun increment_words :: "nat list \<Rightarrow> nat list" where
  "increment_words [] = [1]"
| "increment_words (word # words) =
     (if u32 (word + 1) \<noteq> 0 then u32 (word + 1) # words
      else u32 (word + 1) # increment_words words)"

definition diamond_bignum_shift_right ::
    "alloc_env \<Rightarrow> vm_heap \<Rightarrow> int_view \<Rightarrow> nat \<Rightarrow> (int_value \<times> vm_heap) outcome" where
  "diamond_bignum_shift_right env vm v bits =
     or_nil vm (bind_outcome (magnitude_to_words env (limbs v)) (\<lambda>words.
       if words = [] then Done (V_INT 0, vm)
       else (let whole = (if bits div 32 > length words then length words else bits div 32);
                 part = bits mod 32;
                 lost = list_ex (\<lambda>w. w \<noteq> 0) (take whole words);
                 lost = (if whole < length words \<and> part \<noteq> 0
                         then lost \<or> (words ! whole AND (u32 (push_bit part 1) - 1)) \<noteq> 0 else lost)
             in if \<not> malloc_ok env B_result ((length words + 1) * 4) then Done (V_NIL, vm)
                else (let result = shift_right_loop part (drop whole words);
                          result = (if negative v \<and> lost then increment_words result else result)
                      in bind_outcome (fits (length words + 1) result)
                           (words_to_value env vm (negative v))))))"

subsection \<open>Radix conversion\<close>

definition radix_digits :: string where
  "radix_digits = ''0123456789abcdefghijklmnopqrstuvwxyz''"

primrec divide_radix_loop :: "nat \<Rightarrow> nat list \<Rightarrow> nat list \<times> nat" where
  "divide_radix_loop radix [] = ([], 0)"
| "divide_radix_loop radix (limb # ls) =
     (case divide_radix_loop radix ls of
        (qs, carry) \<Rightarrow>
          (let current = u64 (u64 (carry * BASE) + limb)
           in (u32 (current div radix) # qs, current mod radix)))"

fun radix_loop :: "nat \<Rightarrow> nat \<Rightarrow> nat list \<Rightarrow> string outcome" where
  "radix_loop radix 0 scratch = (if scratch \<noteq> [] then Out_of_bounds else Done [])"
| "radix_loop radix (Suc room) scratch =
     (if scratch \<noteq> []
      then (case divide_radix_loop radix scratch of
              (scratch', carry) \<Rightarrow>
                bind_outcome (radix_loop radix room (magnitude_trim scratch'))
                  (\<lambda>reversed. Done (radix_digits ! carry # reversed)))
      else Done [])"

definition diamond_bignum_to_radix_string ::
    "alloc_env \<Rightarrow> int_view \<Rightarrow> nat \<Rightarrow> string outcome" where
  "diamond_bignum_to_radix_string env v radix =
     (let capacity = length (limbs v) * 30 + 3
      in if \<not> malloc_ok env B_reversed capacity \<or>
            \<not> malloc_ok env B_scratch
                ((if length (limbs v) = 0 then 1 else length (limbs v)) * 4)
         then No_memory
         else bind_outcome (radix_loop radix capacity (magnitude_trim (limbs v))) (\<lambda>reversed.
           let reversed = (if reversed = [] then ''0'' else reversed);
               reversed = (if negative v then reversed @ ''-'' else reversed)
           in bind_outcome (fits (capacity - 1) reversed) (\<lambda>reversed. Done (rev reversed))))"

definition radix_digit :: "char \<Rightarrow> nat" where
  "radix_digit c =
     (let b = of_char c :: nat
      in if 48 \<le> b \<and> b \<le> 57 then b - 48
         else if 97 \<le> b \<and> b \<le> 122 then b - 97 + 10
         else b - 65 + 10)"

fun from_radix_loop :: "nat \<Rightarrow> nat \<Rightarrow> string \<Rightarrow> nat list \<Rightarrow> nat list outcome" where
  "from_radix_loop capacity radix [] ls = Done ls"
| "from_radix_loop capacity radix (c # digits) ls =
     bind_outcome (magnitude_multiply_add capacity ls radix (radix_digit c))
       (from_radix_loop capacity radix digits)"

definition diamond_bignum_from_radix_digits ::
    "alloc_env \<Rightarrow> vm_heap \<Rightarrow> string \<Rightarrow> nat \<Rightarrow> bool \<Rightarrow> (int_value \<times> vm_heap) outcome" where
  "diamond_bignum_from_radix_digits env vm digits radix neg =
     (let capacity = length digits * 6 div 29 + 3
      in if \<not> malloc_ok env B_limbs (capacity * 4) then Done (V_NIL, vm)
         else bind_outcome (from_radix_loop capacity radix digits []) (\<lambda>ls.
                Done (bignum_canonicalize env vm neg (magnitude_trim ls))))"

section \<open>Words and the numbers they denote\<close>

primrec words_val :: "nat list \<Rightarrow> nat" where
  "words_val [] = 0"
| "words_val (w # ws) = w + 4294967296 * words_val ws"

definition words_ok :: "nat list \<Rightarrow> bool" where
  "words_ok ws \<longleftrightarrow> (\<forall>w \<in> set ws. w < 4294967296)"

definition radix_val :: "nat \<Rightarrow> string \<Rightarrow> nat" where
  "radix_val radix s = foldl (\<lambda>n c. n * radix + radix_digit c) 0 s"

definition returns :: "alloc_env \<Rightarrow> vm_heap \<Rightarrow> (int_value \<times> vm_heap) outcome \<Rightarrow> int \<Rightarrow> bool" where
  "returns env vm r i \<longleftrightarrow> (\<exists>x. r = Done x \<and> yields env x i \<and> allocates_once env vm x)"

fun int_op :: "DiamondBignumBitwiseOp \<Rightarrow> int \<Rightarrow> int \<Rightarrow> int" where
  "int_op BITWISE_AND a b = a AND b"
| "int_op BITWISE_OR a b = a OR b"
| "int_op BITWISE_XOR a b = a XOR b"

lemma words_ok_simps [simp]:
  "words_ok []" "words_ok (w # ws) \<longleftrightarrow> w < 4294967296 \<and> words_ok ws"
  "words_ok (xs @ ys) \<longleftrightarrow> words_ok xs \<and> words_ok ys"
  by (auto simp: words_ok_def)

lemma words_ok_replicate_0 [simp]: "words_ok (replicate n 0)"
  by (simp add: words_ok_def)

lemma words_val_append: "words_val (xs @ ys) = words_val xs + 2 ^ (32 * length xs) * words_val ys"
  by (induction xs) (simp_all add: algebra_simps power_add)

lemma words_val_replicate_0 [simp]: "words_val (replicate n 0) = 0"
  by (induction n) simp_all

lemma words_val_bound: "words_ok ws \<Longrightarrow> words_val ws < 2 ^ (32 * length ws)"
proof (induction ws)
  case (Cons w ws)
  then have "words_val ws + 1 \<le> 2 ^ (32 * length ws)" and "w < 4294967296" by auto
  then have "4294967296 * (words_val ws + 1) \<le> 4294967296 * 2 ^ (32 * length ws)"
    by (meson mult_le_mono2)
  with \<open>w < 4294967296\<close> show ?case by (simp add: power_add)
qed simp

lemma words_trim:
  "words_val (magnitude_trim ws) = words_val ws" "words_ok ws \<Longrightarrow> words_ok (magnitude_trim ws)"
proof -
  note eq = magnitude_trim_append [of ws, symmetric]
  show "words_val (magnitude_trim ws) = words_val ws"
    using arg_cong [OF eq, of words_val] by (simp add: words_val_append)
  show "words_ok ws \<Longrightarrow> words_ok (magnitude_trim ws)"
    using eq by (metis words_ok_simps(3))
qed

lemma and_word_mask: "n AND 0xFFFFFFFF = n mod 4294967296" for n :: nat
  using take_bit_eq_mask [of 32 n] by (simp add: take_bit_eq_mod mask_eq_exp_minus_1)

subsection \<open>Limbs to words\<close>

lemma divide_word_loop_props:
  assumes "digits_ok ls" "divide_word_loop ls = (qs, r)"
  shows "mag_val ls = mag_val qs * 4294967296 + r" "r < 4294967296" "digits_ok qs"
proof -
  have "mag_val ls = mag_val qs * 4294967296 + r \<and> r < 4294967296 \<and> digits_ok qs"
    using assms
  proof (induction ls arbitrary: qs r)
    case (Cons limb ls)
    obtain qs' r' where rec: "divide_word_loop ls = (qs', r')" by fastforce
    have ih: "mag_val ls = mag_val qs' * 4294967296 + r'" "r' < 4294967296" "digits_ok qs'"
      using Cons.IH [OF _ rec] Cons.prems(1) by auto
    have lt: "r' * BASE + limb < 4294967296 * BASE"
    proof -
      have "(r' + 1) * BASE \<le> 4294967296 * BASE" using ih(2) by (intro mult_le_mono1) simp
      moreover have "limb < BASE" using Cons.prems(1) by simp
      ultimately show ?thesis by (simp only: add_mult_distrib mult_1)
    qed
    have cur: "u64 (u64 (r' * BASE) + limb) = r' * BASE + limb"
      using lt by (simp add: width_simps BASE_def)
    have qd: "drop_bit 32 (r' * BASE + limb) = (r' * BASE + limb) div 4294967296"
      and md: "(r' * BASE + limb) AND 0xFFFFFFFF = (r' * BASE + limb) mod 4294967296"
      by (simp_all add: drop_bit_eq_div and_word_mask)
    have q_lt: "(r' * BASE + limb) div 4294967296 < BASE"
      using lt by (simp add: div_less_iff_less_mult algebra_simps)
    then have qs: "qs = (r' * BASE + limb) div 4294967296 # qs'"
      and r: "r = (r' * BASE + limb) mod 4294967296"
      using Cons.prems(2) rec cur qd md by (auto simp: Let_def width_simps BASE_def)
    have "(r' * BASE + limb) div 4294967296 * 4294967296 + (r' * BASE + limb) mod 4294967296 =
      r' * BASE + limb" by simp
    then have "mag_val (limb # ls) = mag_val qs * 4294967296 + r"
      unfolding qs r using ih(1) by (simp add: algebra_simps)
    then show ?case using qs r q_lt ih(3) by simp
  qed simp
  then show "mag_val ls = mag_val qs * 4294967296 + r" "r < 4294967296" "digits_ok qs" by blast+
qed

lemma magnitude_divide_word_props:
  assumes "digits_ok ls"
  shows "\<exists>qs. magnitude_divide_word ls = (qs, mag_val ls mod 4294967296) \<and> wf_mag qs \<and>
    mag_val qs = mag_val ls div 4294967296"
proof -
  obtain qs r where d: "divide_word_loop ls = (qs, r)" by fastforce
  from divide_word_loop_props [OF assms this] show ?thesis
    by (auto simp: magnitude_divide_word_def d wf_mag_trim width_simps)
qed

lemma to_words_loop_props:
  assumes "wf_mag ls" "mag_val ls < 2 ^ (32 * room)"
  shows "\<exists>ws. to_words_loop room ls = Done ws \<and> words_ok ws \<and> words_val ws = mag_val ls \<and>
    length ws \<le> room \<and> (ws = [] \<longleftrightarrow> ls = [])"
  using assms
proof (induction room arbitrary: ls)
  case 0
  then have "ls = []" using mag_val_0_iff [of ls] by (simp add: wf_mag_def)
  then show ?case by simp
next
  case (Suc room)
  show ?case
  proof (cases "ls = []")
    case False
    obtain qs where q: "magnitude_divide_word ls = (qs, mag_val ls mod 4294967296)" "wf_mag qs"
      "mag_val qs = mag_val ls div 4294967296"
      using magnitude_divide_word_props Suc.prems(1) by (auto simp: wf_mag_def)
    have "mag_val qs < 2 ^ (32 * room)"
      using Suc.prems(2) q(3) by (simp add: div_less_iff_less_mult power_add algebra_simps)
    from Suc.IH [OF q(2) this] obtain ws where "to_words_loop room qs = Done ws" "words_ok ws"
      "words_val ws = mag_val qs" "length ws \<le> room" by blast
    then show ?thesis using False q by simp
  qed simp
qed

lemma limbs_bits: "digits_ok ls \<Longrightarrow> mag_val ls < 2 ^ (30 * length ls)"
proof -
  assume "digits_ok ls"
  then have "mag_val ls < BASE ^ length ls" by (rule mag_val_bound)
  also have "\<dots> \<le> (2 ^ 30) ^ length ls" by (intro power_mono) (auto simp: BASE_def)
  finally show ?thesis by (simp add: power_mult)
qed

lemma word_capacity: "30 * n \<le> 32 * ((n * 30 + 31) div 32)" for n :: nat
  by linarith

lemma limbs_bits_words:
  assumes "digits_ok ls" "(length ls * 30 + 31) div 32 \<le> k"
  shows "mag_val ls < 2 ^ (32 * k)"
proof -
  have "30 * length ls \<le> 32 * k" using word_capacity [of "length ls"] assms(2) by linarith
  then have "(2 :: nat) ^ (30 * length ls) \<le> 2 ^ (32 * k)" by (intro power_increasing) auto
  with limbs_bits [OF assms(1)] show ?thesis by linarith
qed

lemma magnitude_to_words_props:
  assumes "wf_mag ls"
  shows "(\<exists>ws. magnitude_to_words env ls = Done ws \<and> words_ok ws \<and> words_val ws = mag_val ls \<and>
      length ws \<le> (length ls * 30 + 31) div 32 + 2 \<and> (ws = [] \<longleftrightarrow> ls = [])) \<or>
    magnitude_to_words env ls = No_memory \<and> \<not> alloc_succeeds env"
proof -
  let ?cap = "(length ls * 30 + 31) div 32 + 2"
  have d: "digits_ok ls" using assms by (simp add: wf_mag_def)
  have "trimmed ls" using assms by (simp add: wf_mag_def)
  then have t: "magnitude_trim ls = ls"
    using wf_mag_inject [OF wf_mag_trim [OF d] assms] by simp
  have "\<exists>ws. to_words_loop ?cap ls = Done ws \<and> words_ok ws \<and> words_val ws = mag_val ls \<and>
    length ws \<le> ?cap \<and> (ws = [] \<longleftrightarrow> ls = [])"
    by (intro to_words_loop_props assms limbs_bits_words d) simp
  then show ?thesis
    using t by (auto simp: magnitude_to_words_def Let_def dest: malloc_fails)
qed

subsection \<open>Words to limbs\<close>

lemma carry_limbs_eq: "carry_limbs n = to_limbs n"
  by (induction n rule: to_limbs.induct) (subst carry_limbs.simps, subst to_limbs.simps, simp)

lemma multiply_add_loop_props:
  assumes "digits_ok ls" "scalar < 4294967296" "carry < 4294967296"
  shows "mag_val (multiply_add_loop ls scalar carry) = mag_val ls * scalar + carry"
    and "digits_ok (multiply_add_loop ls scalar carry)"
    and "trimmed ls \<Longrightarrow> 0 < scalar \<Longrightarrow> trimmed (multiply_add_loop ls scalar carry)"
proof -
  have "mag_val (multiply_add_loop ls scalar carry) = mag_val ls * scalar + carry \<and>
    digits_ok (multiply_add_loop ls scalar carry) \<and>
    (0 < scalar \<longrightarrow> trimmed ls \<longrightarrow> trimmed (multiply_add_loop ls scalar carry)) \<and>
    (ls \<noteq> [] \<longrightarrow> multiply_add_loop ls scalar carry \<noteq> [])"
    using assms(1,3)
  proof (induction ls arbitrary: carry)
    case Nil
    then show ?case using to_limbs_props [of carry] by (simp add: carry_limbs_eq wf_mag_def)
  next
    case (Cons limb ls)
    let ?p = "limb * scalar + carry"
    have lt: "limb < BASE" using Cons.prems by simp
    have "limb * scalar \<le> (BASE - 1) * 4294967295"
      using lt assms(2) by (intro mult_le_mono) auto
    then have p_le: "?p \<le> 999999999 * 4294967295 + 4294967295" using Cons.prems(2) by (simp add: BASE_def)
    then have p: "u64 (u64 (limb * scalar) + carry) = ?p" by (simp add: width_simps)
    have c_lt: "?p div BASE < 4294967296"
      using p_le by (simp add: div_less_iff_less_mult BASE_def)
    have dm: "u32 (?p mod BASE) = ?p mod BASE"
      using mod_less_divisor [of BASE ?p] by (intro u32_id) (simp add: BASE_def)
    have step: "multiply_add_loop (limb # ls) scalar carry =
        ?p mod BASE # multiply_add_loop ls scalar (?p div BASE)"
      using p dm by (simp add: Let_def)
    note ih = Cons.IH [OF _ c_lt]
    have "mag_val (multiply_add_loop (limb # ls) scalar carry) = mag_val (limb # ls) * scalar + carry"
    proof -
      have "mag_val (multiply_add_loop ls scalar (?p div BASE)) = mag_val ls * scalar + ?p div BASE"
        using ih Cons.prems by simp
      moreover have "?p mod BASE + BASE * (?p div BASE) = ?p" by simp
      ultimately show ?thesis unfolding step by (simp add: algebra_simps)
    qed
    moreover have "trimmed (multiply_add_loop (limb # ls) scalar carry)"
      if pos: "0 < scalar" and tr: "trimmed (limb # ls)"
    proof (cases "ls = []")
      case True
      then have "0 < ?p" using pos tr by (simp add: trimmed_def)
      then have "multiply_add_loop (limb # ls) scalar carry = to_limbs ?p"
        unfolding step using True dm by (subst to_limbs.simps) (simp add: carry_limbs_eq)
      then show ?thesis using to_limbs_props [of ?p] by (simp add: wf_mag_def)
    next
      case False
      then have "trimmed ls" using tr by (simp add: trimmed_def)
      then show ?thesis unfolding step using ih pos Cons.prems(1) False by (simp add: trimmed_def)
    qed
    ultimately show ?case using step ih Cons.prems(1) by simp
  qed
  then show "mag_val (multiply_add_loop ls scalar carry) = mag_val ls * scalar + carry"
    and "digits_ok (multiply_add_loop ls scalar carry)"
    and "trimmed ls \<Longrightarrow> 0 < scalar \<Longrightarrow> trimmed (multiply_add_loop ls scalar carry)" by blast+
qed

lemma add_word_Nil: "carry < 18446744073709551616 \<Longrightarrow> add_word [] carry = to_limbs carry"
proof (induction carry rule: to_limbs.induct)
  case (1 n)
  have "n div BASE \<le> n" by simp
  then have "n div BASE < 18446744073709551616" using 1 by linarith
  then show ?case using 1
    by (subst add_word.simps, subst to_limbs.simps) (simp add: width_simps Let_def)
qed

lemma add_word_props:
  assumes "digits_ok ls" "carry < 4294967296"
  shows "mag_val (add_word ls carry) = mag_val ls + carry" "digits_ok (add_word ls carry)"
    "trimmed ls \<Longrightarrow> trimmed (add_word ls carry)"
proof -
  have "mag_val (add_word ls carry) = mag_val ls + carry \<and> digits_ok (add_word ls carry) \<and>
    (trimmed ls \<longrightarrow> trimmed (add_word ls carry)) \<and> (ls \<noteq> [] \<longrightarrow> add_word ls carry \<noteq> [])"
    using assms
  proof (induction ls arbitrary: carry)
    case Nil
    then show ?case using to_limbs_props [of carry] by (simp add: add_word_Nil wf_mag_def)
  next
    case (Cons limb ls)
    show ?case
    proof (cases "carry = 0")
      case True
      then show ?thesis using Cons.prems by (simp add: add_word.simps)
    next
      case False
      let ?s = "limb + carry"
      have lt: "limb < BASE" using Cons.prems by simp
      have s_lt: "?s < 18446744073709551616" using lt Cons.prems(2) by (simp add: BASE_def)
      have dm: "u32 (?s mod BASE) = ?s mod BASE"
        using mod_less_divisor [of BASE ?s] by (intro u32_id) (simp add: BASE_def)
      have step: "add_word (limb # ls) carry = ?s mod BASE # add_word ls (?s div BASE)"
        using False s_lt dm by (subst add_word.simps) (simp add: Let_def width_simps)
      have c_lt: "?s div BASE < 4294967296"
        using lt Cons.prems(2) by (simp add: div_less_iff_less_mult BASE_def)
      note ih = Cons.IH [OF _ c_lt]
      have val: "mag_val (add_word (limb # ls) carry) = mag_val (limb # ls) + carry"
      proof -
        have "mag_val (add_word ls (?s div BASE)) = mag_val ls + ?s div BASE"
          using ih Cons.prems by simp
        moreover have "?s mod BASE + BASE * (?s div BASE) = ?s" by simp
        ultimately show ?thesis unfolding step by (simp add: algebra_simps)
      qed
      have "trimmed (add_word (limb # ls) carry)" if tr: "trimmed (limb # ls)"
      proof (cases "ls = []")
        case True
        have "?s div BASE < 18446744073709551616" using c_lt by linarith
        then have "add_word (limb # ls) carry = to_limbs ?s"
          unfolding step using True dm False by (subst to_limbs.simps) (simp add: add_word_Nil)
        then show ?thesis using to_limbs_props [of ?s] by (simp add: wf_mag_def)
      next
        case False
        then have "trimmed ls" using tr by (simp add: trimmed_def)
        then show ?thesis unfolding step using ih Cons.prems(1) False by (simp add: trimmed_def)
      qed
      then show ?thesis using step val ih Cons.prems(1) by simp
    qed
  qed
  then show "mag_val (add_word ls carry) = mag_val ls + carry" "digits_ok (add_word ls carry)"
    "trimmed ls \<Longrightarrow> trimmed (add_word ls carry)" by blast+
qed

lemma words_cap_bound: "2 * n \<le> cap \<Longrightarrow> (2 :: nat) ^ (32 * n) \<le> BASE ^ cap"
proof -
  assume "2 * n \<le> cap"
  then have "(2 :: nat) ^ (32 * n) \<le> 2 ^ (16 * cap)" by (intro power_increasing) auto
  also have "\<dots> = (2 ^ 16) ^ cap" by (simp add: power_mult)
  also have "\<dots> \<le> BASE ^ cap" by (intro power_mono) (auto simp: BASE_def)
  finally show ?thesis .
qed

lemma multiply_add_done:
  assumes "wf_mag ls" "0 < scalar" "scalar < 4294967296" "addend < 4294967296"
    "mag_val ls * scalar + addend < BASE ^ cap"
  shows "\<exists>r. magnitude_multiply_add cap ls scalar addend = Done r \<and> wf_mag r \<and>
    mag_val r = mag_val ls * scalar + addend"
proof -
  let ?r = "multiply_add_loop ls scalar addend"
  have "wf_mag ?r" "mag_val ?r = mag_val ls * scalar + addend"
    using multiply_add_loop_props [of ls scalar addend] assms by (auto simp: wf_mag_def)
  moreover from this have "length ?r \<le> cap" using assms(5) by (intro wf_mag_length) auto
  ultimately show ?thesis by (simp add: magnitude_multiply_add_def)
qed

lemma words_limbs_props:
  assumes "words_ok ws" "2 * length ws \<le> cap"
  shows "\<exists>ls. words_limbs cap ws = Done ls \<and> wf_mag ls \<and> mag_val ls = words_val ws"
  using assms
proof (induction ws)
  case (Cons w ws)
  then obtain ls where ls: "words_limbs cap ws = Done ls" "wf_mag ls" "mag_val ls = words_val ws"
    by auto
  have bound: "words_val (w # ws) < BASE ^ cap"
    using words_val_bound [OF Cons.prems(1)] words_cap_bound [OF Cons.prems(2)] by linarith
  have "mag_val ls * 65536 + 0 < BASE ^ cap" using bound ls(3) by simp
  from multiply_add_done [OF ls(2) _ _ _ this]
  obtain l1 where l1: "magnitude_multiply_add cap ls 65536 0 = Done l1" "wf_mag l1"
    "mag_val l1 = words_val ws * 65536" using ls(3) by auto
  have "mag_val l1 * 65536 + 0 < BASE ^ cap" using bound l1(3) by simp
  from multiply_add_done [OF l1(2) _ _ _ this]
  obtain l2 where l2: "magnitude_multiply_add cap l1 65536 0 = Done l2" "wf_mag l2"
    "mag_val l2 = words_val ws * 4294967296" using l1(3) by auto
  have a: "wf_mag (add_word l2 w)" "mag_val (add_word l2 w) = words_val (w # ws)"
    using add_word_props [of l2 w] l2 Cons.prems(1) by (auto simp: wf_mag_def)
  then have "length (add_word l2 w) \<le> cap" using bound by (intro wf_mag_length) auto
  then show ?case using ls(1) l1(1) l2(1) a by simp
qed simp

lemma words_to_value_props:
  assumes "words_ok ws"
  shows "\<exists>r. words_to_value env vm neg ws = Done r \<and>
    yields env r (signed neg (words_val ws)) \<and> allocates_once env vm r"
proof -
  let ?t = "magnitude_trim ws"
  obtain ls where ls: "words_limbs (length ?t * 2 + 3) ?t = Done ls" "wf_mag ls"
    "mag_val ls = words_val ws"
    using words_limbs_props [of ?t "length ?t * 2 + 3"] words_trim [of ws] assms by auto
  have "magnitude_trim ls = ls"
    using wf_mag_inject [OF wf_mag_trim ls(2)] ls(2) by (simp add: wf_mag_def)
  moreover have "?t = [] \<Longrightarrow> signed neg (words_val ws) = 0"
    using words_trim(1) [of ws] by (simp add: signed_def)
  ultimately show ?thesis
    using ls canonicalize_result [OF ls(2), of env vm neg]
    by (cases "bignum_canonicalize env vm neg ls")
      (auto simp: words_to_value_def Let_def intro: yields_nil yields_zero dest: malloc_fails)
qed

text \<open>The outcome of a bit-level entry point: in bounds, the exact value, one allocation.\<close>

lemma words_to_value_returns:
  "words_ok ws \<Longrightarrow> returns env vm (words_to_value env vm neg ws) (signed neg (words_val ws))"
  using words_to_value_props by (simp add: returns_def)

lemma returns_nil [intro]: "\<not> alloc_succeeds env \<Longrightarrow> returns env vm (Done (V_NIL, vm)) i"
  by (simp add: returns_def yields_nil)

lemma returns_or_nil [intro]: "returns env vm r i \<Longrightarrow> returns env vm (or_nil vm r) i"
  by (auto simp: returns_def or_nil_def)

lemma returns_No_memory [intro]:
  "\<not> alloc_succeeds env \<Longrightarrow> returns env vm (or_nil vm No_memory) i"
  by (simp add: or_nil_def returns_nil)

lemma or_nil_Done [simp]: "or_nil vm (Done x) = Done x"
  by (simp add: or_nil_def)

subsection \<open>Two's complement\<close>

lemma negate_words_props:
  assumes "words_ok ws" "c \<le> 1"
  shows "words_ok (negate_words ws c)" "length (negate_words ws c) = length ws"
    "int (words_val (negate_words ws c)) =
       (int c - 1 - int (words_val ws)) mod 2 ^ (32 * length ws)"
proof -
  have "words_ok (negate_words ws c) \<and> length (negate_words ws c) = length ws \<and>
    (\<exists>k \<le> 1. int (words_val (negate_words ws c)) + int k * 2 ^ (32 * length ws) =
       2 ^ (32 * length ws) - 1 + int c - int (words_val ws))"
    using assms
  proof (induction ws arbitrary: c)
    case Nil
    then show ?case by (auto intro!: exI [of _ c])
  next
    case (Cons w ws)
    let ?s = "(4294967295 - w) + c"
    have w: "w < 4294967296" using Cons.prems by simp
    have s: "u64 ?s = ?s" using Cons.prems by (simp add: width_simps)
    have c': "?s div 4294967296 \<le> 1" using Cons.prems(2) by (simp add: div_le_mono [of _ "4294967296", of "?s", simplified] le_div_geq)
    have step: "negate_words (w # ws) c = ?s mod 4294967296 # negate_words ws (?s div 4294967296)"
      using s by (simp add: Let_def u32_def drop_bit_eq_div)
    obtain k where k: "k \<le> 1"
      "int (words_val (negate_words ws (?s div 4294967296))) + int k * 2 ^ (32 * length ws) =
       2 ^ (32 * length ws) - 1 + int (?s div 4294967296) - int (words_val ws)"
      using Cons.IH [OF _ c'] Cons.prems(1) by auto
    have sd: "int (?s mod 4294967296) = int ?s - 4294967296 * int (?s div 4294967296)"
      using int_mod_eq_diff [of ?s 4294967296] by simp
    have si: "int (4294967295 - w) = 4294967295 - int w" using w by simp
    have p: "(2 :: int) ^ (32 * length (w # ws)) = 4294967296 * 2 ^ (32 * length ws)"
      by (simp add: power_add)
    have "int (words_val (negate_words (w # ws) c)) + int k * 2 ^ (32 * length (w # ws)) =
       2 ^ (32 * length (w # ws)) - 1 + int c - int (words_val (w # ws))"
      unfolding step words_val.simps of_nat_add of_nat_mult sd p
      unfolding of_nat_add si
      using arg_cong [OF k(2), of "\<lambda>x. 4294967296 * x"] by (simp add: algebra_simps)
    then show ?case using step Cons.IH [OF _ c'] Cons.prems(1) k(1) by auto
  qed
  then obtain k where ok: "words_ok (negate_words ws c)" "length (negate_words ws c) = length ws"
    and k: "int (words_val (negate_words ws c)) + int k * 2 ^ (32 * length ws) =
       2 ^ (32 * length ws) - 1 + int c - int (words_val ws)" by blast
  show "words_ok (negate_words ws c)" "length (negate_words ws c) = length ws" by (fact ok)+
  have "int (words_val (negate_words ws c)) < 2 ^ (32 * length ws)"
    using words_val_bound [OF ok(1)] ok(2) by (metis of_nat_less_iff of_nat_numeral of_nat_power)
  then have "int (words_val (negate_words ws c)) =
      (int (words_val (negate_words ws c)) + int k * 2 ^ (32 * length ws)) mod 2 ^ (32 * length ws)"
    by simp
  also have "\<dots> = (int c - 1 - int (words_val ws) + 2 ^ (32 * length ws)) mod 2 ^ (32 * length ws)"
    unfolding k by (simp add: algebra_simps)
  finally show "int (words_val (negate_words ws c)) =
       (int c - 1 - int (words_val ws)) mod 2 ^ (32 * length ws)" by simp
qed

lemma twos_complement_props:
  assumes "wf_mag (limbs v)" "view_word_count v \<le> width"
  shows "(\<exists>ws. value_to_twos_complement env v width = Done ws \<and> words_ok ws \<and>
      length ws = width \<and> int (words_val ws) = view_val v mod 2 ^ (32 * width)) \<or>
    value_to_twos_complement env v width = No_memory \<and> \<not> alloc_succeeds env"
proof -
  consider (words) ws where "magnitude_to_words env (limbs v) = Done ws" "words_ok ws"
      "words_val ws = mag_val (limbs v)" "length ws \<le> width"
    | (fail) "magnitude_to_words env (limbs v) = No_memory" "\<not> alloc_succeeds env"
    using magnitude_to_words_props [OF assms(1), of env] assms(2) by (auto simp: view_word_count_def)
  then show ?thesis
  proof cases
    case words
    define out where "out = take width ws @ replicate (width - length ws) 0"
    have out: "words_ok out" "length out = width" "words_val out = mag_val (limbs v)"
      using words by (simp_all add: words_val_append out_def)
    have "int (mag_val (limbs v)) < 2 ^ (32 * width)"
      using words_val_bound [OF out(1)] unfolding out(2,3) by (metis of_nat_less_iff of_nat_numeral of_nat_power)
    then have "int (mag_val (limbs v)) = int (mag_val (limbs v)) mod 2 ^ (32 * width)" by simp
    then show ?thesis
      using words(1) out negate_words_props [OF out(1), of 1, unfolded out(2,3)]
      by (simp add: value_to_twos_complement_def Let_def view_val_def flip: out_def)
  next
    case fail
    then show ?thesis by (simp add: value_to_twos_complement_def)
  qed
qed

lemma int_word_op: "int (word_op oper a b) = int_op oper (int a) (int b)"
  by (cases oper) (simp_all add: of_nat_and_eq of_nat_or_eq of_nat_xor_eq)

lemma take_bit_int_op:
  "take_bit n (int_op oper a b) = int_op oper (take_bit n a) (take_bit n b)"
  by (cases oper) simp_all

lemma drop_bit_int_op:
  "drop_bit n (int_op oper a b) = int_op oper (drop_bit n a) (drop_bit n b)"
  by (cases oper) simp_all

lemma signed_take_bit_int_op:
  "signed_take_bit n (int_op oper a b) = int_op oper (signed_take_bit n a) (signed_take_bit n b)"
  by (cases oper) (auto simp: bit_eq_iff bit_signed_take_bit_iff bit_simps)

lemma word_split:
  assumes "w < 4294967296"
  shows "take_bit 32 (int w + 4294967296 * int n) = int w" "drop_bit 32 (int w + 4294967296 * int n) = int n"
  using assms by (simp_all add: take_bit_eq_mod drop_bit_eq_div)

lemma int_op_split:
  assumes "w < 4294967296" "v < 4294967296"
  shows "int_op oper (int w + 4294967296 * int m) (int v + 4294967296 * int n) =
    int_op oper (int w) (int v) + 4294967296 * int_op oper (int m) (int n)"
proof -
  let ?x = "int w + 4294967296 * int m" and ?y = "int v + 4294967296 * int n"
  have "int_op oper ?x ?y = take_bit 32 (int_op oper ?x ?y) + push_bit 32 (drop_bit 32 (int_op oper ?x ?y))"
    using bits_ident [of 32 "int_op oper ?x ?y"] by simp
  then show ?thesis
    unfolding take_bit_int_op drop_bit_int_op word_split [OF assms(1)] word_split [OF assms(2)]
    by (simp add: push_bit_eq_mult algebra_simps)
qed

lemma word_op_less:
  assumes "a < 4294967296" "b < 4294967296"
  shows "word_op oper a b < 4294967296"
proof -
  have "take_bit 32 (int (word_op oper a b)) = int (word_op oper a b)"
    using assms by (simp add: int_word_op take_bit_int_op) (simp add: take_bit_eq_mod)
  then have "int (word_op oper a b) < 2 ^ 32" by (metis take_bit_int_less_exp)
  then show ?thesis by simp
qed

lemma map2_word_op:
  assumes "length a = length b" "words_ok a" "words_ok b"
  shows "int (words_val (map2 (word_op oper) a b)) = int_op oper (int (words_val a)) (int (words_val b))"
    "words_ok (map2 (word_op oper) a b)"
proof -
  have "int (words_val (map2 (word_op oper) a b)) = int_op oper (int (words_val a)) (int (words_val b)) \<and>
    words_ok (map2 (word_op oper) a b)"
    using assms
  proof (induction a b rule: list_induct2)
    case Nil
    then show ?case by (cases oper) simp_all
  next
    case (Cons x xs y ys)
    then show ?case
      using int_op_split [of x y oper "words_val xs" "words_val ys"] word_op_less [of x y oper]
      by (simp add: int_word_op)
  qed
  then show "int (words_val (map2 (word_op oper) a b)) = int_op oper (int (words_val a)) (int (words_val b))"
    "words_ok (map2 (word_op oper) a b)" by blast+
qed

lemma top_bit:
  assumes "words_ok ws" "ws \<noteq> []"
  shows "(ws ! (length ws - 1) AND 0x80000000) \<noteq> 0 \<longleftrightarrow> 2 ^ (32 * length ws - 1) \<le> words_val ws"
proof -
  obtain xs w where ws: "ws = xs @ [w]" using assms(2) by (metis rev_exhaust)
  have w: "w < 4294967296" and xs: "words_val xs < 2 ^ (32 * length xs)"
    using assms(1) words_val_bound [of xs] by (simp_all add: ws)
  have "(w AND 0x80000000) \<noteq> 0 \<longleftrightarrow> bit w 31"
    using and_exp_eq_0_iff_not_bit [of w 31] by simp
  also have "\<dots> \<longleftrightarrow> 2147483648 \<le> w"
  proof -
    have "w div 2147483648 < 2" using w by (simp add: div_less_iff_less_mult)
    then have "odd (w div 2147483648) \<longleftrightarrow> 1 \<le> w div 2147483648" by (cases "w div 2147483648") auto
    also have "\<dots> \<longleftrightarrow> 2147483648 \<le> w" by (metis div_greater_zero_iff less_eq_Suc_le One_nat_def zero_less_numeral)
    finally show ?thesis by (simp add: bit_iff_odd)
  qed
  also have "\<dots> \<longleftrightarrow> 2 ^ (32 * length xs) * 2147483648 \<le> words_val xs + 2 ^ (32 * length xs) * w"
  proof
    assume "2147483648 \<le> w"
    then show "2 ^ (32 * length xs) * 2147483648 \<le> words_val xs + 2 ^ (32 * length xs) * w"
      by (meson mult_le_mono2 trans_le_add2)
  next
    assume *: "2 ^ (32 * length xs) * 2147483648 \<le> words_val xs + 2 ^ (32 * length xs) * w"
    have "2 ^ (32 * length xs) * 2147483648 < 2 ^ (32 * length xs) * (w + 1)"
      unfolding add_mult_distrib2 using * xs by linarith
    then show "2147483648 \<le> w" by simp
  qed
  finally show ?thesis by (simp add: ws words_val_append power_add mult.commute)
qed

lemma view_bits:
  assumes "wf_mag (limbs v)" "view_word_count v \<le> width"
  shows "signed_take_bit (32 * width - 1) (view_val v) = view_val v"
proof -
  have "mag_val (limbs v) < 2 ^ (32 * (width - 1))"
    using assms by (intro limbs_bits_words) (auto simp: wf_mag_def view_word_count_def)
  also have "(2 :: nat) ^ (32 * (width - 1)) \<le> 2 ^ (32 * width - 1)"
    using assms(2) by (intro power_increasing) (auto simp: view_word_count_def)
  finally have lt: "int (mag_val (limbs v)) < 2 ^ (32 * width - 1)"
    by (metis of_nat_less_iff of_nat_numeral of_nat_power)
  have "view_val v = - int (mag_val (limbs v)) \<or> view_val v = int (mag_val (limbs v))"
    by (simp add: view_val_def)
  then have "- (2 ^ (32 * width - 1)) \<le> view_val v \<and> view_val v < 2 ^ (32 * width - 1)"
    using lt by linarith
  then show ?thesis by (simp add: signed_take_bit_int_eq_self_iff)
qed

text \<open>Reading a \<open>width\<close>-word two's-complement result back as sign and magnitude.\<close>

lemma twos_complement_read:
  assumes "words_ok ws" "length ws = width" "0 < width"
    and "int (words_val ws) = t mod 2 ^ (32 * width)"
    and "- (2 ^ (32 * width - 1)) \<le> t" "t < 2 ^ (32 * width - 1)"
  defines "neg \<equiv> (ws ! (width - 1) AND 0x80000000) \<noteq> 0"
  shows "words_ok (if neg then negate_words ws 1 else ws)"
    "signed neg (words_val (if neg then negate_words ws 1 else ws)) = t"
proof -
  have n: "neg \<longleftrightarrow> (2 :: int) ^ (32 * width - 1) \<le> int (words_val ws)"
    using top_bit [of ws] assms(1-3) unfolding neg_def
    by (metis length_0_conv less_numeral_extra(3) of_nat_le_iff of_nat_numeral of_nat_power)
  have dbl: "(2 :: int) ^ (32 * width) = 2 * 2 ^ (32 * width - 1)"
    using assms(3) by (simp flip: power_Suc)
  have sgn: "neg \<longleftrightarrow> t < 0"
  proof (cases "t < 0")
    case True
    have "t mod 2 ^ (32 * width) = (t + 2 ^ (32 * width)) mod 2 ^ (32 * width)" by simp
    also have "\<dots> = t + 2 ^ (32 * width)"
      using True assms(5) dbl by (intro mod_pos_pos_trivial) auto
    finally show ?thesis using True n assms(4,5) dbl by simp
  next
    case False
    then have "t mod 2 ^ (32 * width) = t" using assms(6) dbl by simp
    then show ?thesis using False n assms(4,6) by simp
  qed
  show "words_ok (if neg then negate_words ws 1 else ws)"
    using assms(1) negate_words_props(1) [OF assms(1), of 1] by simp
  show "signed neg (words_val (if neg then negate_words ws 1 else ws)) = t"
  proof (cases neg)
    case True
    have "int (words_val (negate_words ws 1)) = (- int (words_val ws)) mod 2 ^ (32 * width)"
      using negate_words_props(3) [OF assms(1), of 1] assms(2) by simp
    also have "\<dots> = (- t) mod 2 ^ (32 * width)" unfolding assms(4) by (simp add: mod_minus_eq)
    also have "\<dots> = - t" using True sgn assms(5) dbl by (intro mod_pos_pos_trivial) auto
    finally show ?thesis using True by (simp add: signed_def)
  next
    case False
    then have "t mod 2 ^ (32 * width) = t" using sgn assms(6) dbl by simp
    then show ?thesis using False assms(4) by (simp add: signed_def)
  qed
qed

lemma bitwise_returns:
  assumes "wf_mag (limbs l)" "wf_mag (limbs r)"
  shows "returns env vm (diamond_bignum_bitwise env vm oper l r) (int_op oper (view_val l) (view_val r))"
proof -
  define width where "width = (if view_word_count l > view_word_count r
    then view_word_count l else view_word_count r)"
  have w: "view_word_count l \<le> width" "view_word_count r \<le> width" "0 < width"
    by (auto simp: width_def view_word_count_def)
  let ?t = "int_op oper (view_val l) (view_val r)"
  have st: "signed_take_bit (32 * width - 1) ?t = ?t"
    using view_bits [OF assms(1) w(1)] view_bits [OF assms(2) w(2)] by (simp add: signed_take_bit_int_op)
  then have t: "- (2 ^ (32 * width - 1)) \<le> ?t" "?t < 2 ^ (32 * width - 1)"
    by (simp_all add: signed_take_bit_int_eq_self_iff)
  consider (words) a b where "value_to_twos_complement env l width = Done a" "words_ok a"
      "length a = width" "int (words_val a) = view_val l mod 2 ^ (32 * width)"
      "value_to_twos_complement env r width = Done b" "words_ok b"
      "length b = width" "int (words_val b) = view_val r mod 2 ^ (32 * width)"
    | (fail) "value_to_twos_complement env l width = No_memory" "\<not> alloc_succeeds env"
    | (fail2) a where "value_to_twos_complement env l width = Done a"
      "value_to_twos_complement env r width = No_memory" "\<not> alloc_succeeds env"
    using twos_complement_props [OF assms(1) w(1), of env] twos_complement_props [OF assms(2) w(2), of env]
    by blast
  then show ?thesis
  proof cases
    case words
    let ?c = "map2 (word_op oper) a b"
    have c: "words_ok ?c" "length ?c = width" "int (words_val ?c) = ?t mod 2 ^ (32 * width)"
      using map2_word_op [of a b oper] words
      by (auto simp: take_bit_int_op simp flip: take_bit_eq_mod)
    let ?neg = "(?c ! (width - 1) AND 0x80000000) \<noteq> 0"
    note rd = twos_complement_read [OF c(1,2) w(3) c(3) t]
    show ?thesis
      using words words_to_value_returns [OF rd(1), of env vm ?neg, unfolded rd(2)]
      by (auto simp: diamond_bignum_bitwise_def Let_def simp flip: width_def dest: malloc_fails)
  qed (auto simp: diamond_bignum_bitwise_def Let_def simp flip: width_def dest: malloc_fails)
qed

subsection \<open>Shifts\<close>

lemma returns_zero: "returns env vm (Done (V_INT 0, vm)) 0"
  by (simp add: returns_def yields_zero)

lemma or_push_bit: "a < 2 ^ p \<Longrightarrow> a OR 2 ^ p * m = a + 2 ^ p * m" for a m :: nat
proof -
  assume a: "a < 2 ^ p"
  let ?x = "a OR push_bit p m"
  have "take_bit p ?x = a"
    using a by (simp add: take_bit_push_bit take_bit_nat_eq_self)
  moreover have "drop_bit p a = 0" "drop_bit p (push_bit p m) = m"
    using a by (simp_all add: drop_bit_eq_div push_bit_eq_mult)
  then have "drop_bit p ?x = m" by simp
  ultimately have "a + push_bit p m = ?x" using bits_ident [of p ?x] by (simp add: add.commute)
  then show ?thesis by (simp add: push_bit_eq_mult mult.commute)
qed

lemma pow32_split: "p \<le> 32 \<Longrightarrow> (4294967296 :: nat) = 2 ^ p * 2 ^ (32 - p)"
  by (simp flip: power_add)

lemma words_val_update:
  "k < length ws \<Longrightarrow> int (words_val (ws[k := v])) =
    int (words_val ws) + (int v - int (ws ! k)) * 2 ^ (32 * k)"
proof (induction ws arbitrary: k)
  case (Cons w ws)
  show ?case
  proof (cases k)
    case (Suc j)
    then have "int (words_val (ws[j := v])) =
        int (words_val ws) + (int v - int (ws ! j)) * 2 ^ (32 * j)"
      using Cons by simp
    then show ?thesis unfolding Suc by (simp add: power_add algebra_simps)
  qed simp
qed simp

lemma words_ok_update: "words_ok ws \<Longrightarrow> v < 4294967296 \<Longrightarrow> words_ok (ws[k := v])"
  using set_update_subset_insert by (fastforce simp: words_ok_def)

lemma words_ok_nth: "words_ok ws \<Longrightarrow> k < length ws \<Longrightarrow> ws ! k < 4294967296"
  by (simp add: words_ok_def)

lemma spread_split:
  assumes "w < 4294967296" "p < 32" "a < 2 ^ p"
  shows "u64 (push_bit p w) = 2 ^ p * w"
    "a OR u32 (2 ^ p * w) = a + (2 ^ p * w) mod 4294967296" "a OR u32 (2 ^ p * w) < 4294967296"
    "u32 (drop_bit 32 (2 ^ p * w)) = (2 ^ p * w) div 4294967296" "(2 ^ p * w) div 4294967296 < 2 ^ p"
proof -
  have b: "4294967296 = 2 ^ p * (2 :: nat) ^ (32 - p)" using pow32_split assms(2) by simp
  have lt: "2 ^ p * w < 2 ^ p * 4294967296" using assms(1) by simp
  have p32: "(2 :: nat) ^ p \<le> 2 ^ 32" using assms(2) by (intro power_increasing) auto
  have "(2 :: nat) ^ p * 4294967296 \<le> 2 ^ 32 * 4294967296" using p32 by (rule mult_le_mono1)
  with lt have "2 ^ p * w < 2 ^ 32 * 4294967296" by (rule less_le_trans)
  then have "2 ^ p * w < 18446744073709551616" by simp
  then show "u64 (push_bit p w) = 2 ^ p * w"
    by (simp add: push_bit_eq_mult mult.commute width_simps)
  have m: "(2 ^ p * w) mod 4294967296 = 2 ^ p * (w mod 2 ^ (32 - p))"
    unfolding b by (rule mod_mult_mult1)
  show o: "a OR u32 (2 ^ p * w) = a + (2 ^ p * w) mod 4294967296"
    using or_push_bit [OF assms(3)] by (simp add: u32_def m)
  have "w mod 2 ^ (32 - p) + 1 \<le> 2 ^ (32 - p)" by (simp add: Suc_leI)
  then have "2 ^ p * (w mod 2 ^ (32 - p) + 1) \<le> 2 ^ p * 2 ^ (32 - p)" by (rule mult_le_mono2)
  then have "2 ^ p * (w mod 2 ^ (32 - p)) + 2 ^ p \<le> 4294967296" using b by simp
  then show "a OR u32 (2 ^ p * w) < 4294967296" unfolding o m using assms(3) by linarith
  show hi: "(2 ^ p * w) div 4294967296 < 2 ^ p" using lt by (simp add: div_less_iff_less_mult)
  then show "u32 (drop_bit 32 (2 ^ p * w)) = (2 ^ p * w) div 4294967296"
    using p32 by (simp add: drop_bit_eq_div width_simps)
qed

lemma shift_left_loop_props:
  assumes "words_ok ws" "p < 32" "words_ok sh" "k + length ws < length sh"
    "sh ! k < 2 ^ p" "\<forall>j. k < j \<longrightarrow> j < length sh \<longrightarrow> sh ! j = 0"
  shows "\<exists>sh'. shift_left_loop ws k p sh = Done sh' \<and> words_ok sh' \<and>
    words_val sh' = words_val sh + 2 ^ (32 * k) * (2 ^ p * words_val ws)"
  using assms
proof (induction ws arbitrary: k sh)
  case (Cons w ws)
  let ?s = "2 ^ p * w"
  have w: "w < 4294967296" using Cons.prems by simp
  note sp = spread_split [OF w Cons.prems(2) Cons.prems(5)]
  have z: "sh ! (k + 1) = 0" using Cons.prems(4,6) by simp
  define sh1 where "sh1 = sh[k := sh ! k OR u32 ?s]"
  define sh2 where "sh2 = sh1[k + 1 := ?s div 4294967296]"
  have p32: "(2 :: nat) ^ p \<le> 2 ^ 32" using Cons.prems(2) by (intro power_increasing) auto
  have step: "shift_left_loop (w # ws) k p sh = shift_left_loop ws (Suc k) p sh2"
    using Cons.prems(4) sp(1,4) z by (simp add: Let_def sh1_def sh2_def)
  have ok: "words_ok sh1" "words_ok sh2"
    using words_ok_update Cons.prems(3) sp(3,5) p32 by (auto simp: sh1_def sh2_def)
  have "sh2 ! Suc k < 2 ^ p" using Cons.prems(4) sp(5) by (simp add: sh2_def sh1_def)
  moreover have "\<forall>j. Suc k < j \<longrightarrow> j < length sh2 \<longrightarrow> sh2 ! j = 0"
    using Cons.prems(6) by (simp add: sh2_def sh1_def)
  moreover have "Suc k + length ws < length sh2" using Cons.prems(4) by (simp add: sh2_def sh1_def)
  ultimately obtain sh' where sh': "shift_left_loop ws (Suc k) p sh2 = Done sh'" "words_ok sh'"
    "words_val sh' = words_val sh2 + 2 ^ (32 * Suc k) * (2 ^ p * words_val ws)"
    using Cons.IH [of sh2 "Suc k"] Cons.prems(1,2) ok(2) by auto
  define lo hi where "lo = ?s mod 4294967296" and "hi = ?s div 4294967296"
  have lohi: "int ?s = int lo + 4294967296 * int hi"
    unfolding lo_def hi_def by (simp only: int_mod_eq_diff of_nat_numeral diff_add_cancel)
  have v1: "int (words_val sh1) = int (words_val sh) + int lo * 2 ^ (32 * k)"
    using words_val_update [of k sh "sh ! k OR u32 ?s"] Cons.prems(4) sp(2)
    by (simp add: sh1_def lo_def)
  have "sh1 ! (k + 1) = 0" using z by (simp add: sh1_def)
  then have "int (words_val sh2) = int (words_val sh1) + int hi * 2 ^ (32 * (k + 1))"
    using words_val_update [of "k + 1" sh1 hi] Cons.prems(4)
    by (simp add: sh2_def sh1_def flip: hi_def)
  also have "\<dots> = int (words_val sh) + int ?s * 2 ^ (32 * k)"
    unfolding v1 lohi by (simp add: algebra_simps power_add)
  finally have "int (words_val sh2) = int (words_val sh + ?s * 2 ^ (32 * k))" by simp
  then have "words_val sh2 = words_val sh + ?s * 2 ^ (32 * k)" by (simp only: of_nat_eq_iff)
  moreover have "(2 :: nat) ^ (32 * Suc k) = 2 ^ (32 * k) * 4294967296" by (simp add: power_add)
  ultimately have "words_val sh' = words_val sh + 2 ^ (32 * k) * (2 ^ p * words_val (w # ws))"
    unfolding sh'(3) by (simp only: words_val.simps add_mult_distrib2 mult_ac add_ac)
  then show ?case unfolding step using sh'(1,2) by blast
qed simp

lemma shift_left_returns:
  assumes "wf_mag (limbs v)"
  shows "returns env vm (diamond_bignum_shift_left env vm v bits) (view_val v * 2 ^ bits)"
proof -
  consider (words) ws where "magnitude_to_words env (limbs v) = Done ws" "words_ok ws"
      "words_val ws = mag_val (limbs v)"
    | (fail) "magnitude_to_words env (limbs v) = No_memory" "\<not> alloc_succeeds env"
    using magnitude_to_words_props [OF assms, of env] by blast
  then show ?thesis
  proof cases
    case words
    let ?w = "bits div 32"
    define z :: "nat list" where "z = replicate (length ws + bits div 32 + 2) 0"
    have z: "words_ok z" "words_val z = 0" "length z = length ws + ?w + 2" "\<forall>j < length z. z ! j = 0"
      by (simp_all only: z_def words_ok_replicate_0 words_val_replicate_0 length_replicate)
        (metis nth_replicate)
    obtain sh where sh: "shift_left_loop ws ?w (bits mod 32) z = Done sh" "words_ok sh"
      "words_val sh = 2 ^ (32 * ?w) * (2 ^ (bits mod 32) * words_val ws)"
      using shift_left_loop_props [of ws "bits mod 32" z ?w] words(2) z by auto
    have "(2 :: nat) ^ (32 * ?w) * 2 ^ (bits mod 32) = 2 ^ bits" by (simp flip: power_add)
    then have "words_val sh = mag_val (limbs v) * 2 ^ bits"
      using sh(3) words(3) by (metis mult.assoc mult.commute)
    then have "signed (negative v) (words_val sh) = view_val v * 2 ^ bits"
      by (simp add: view_val_signed signed_def)
    then have "returns env vm (words_to_value env vm (negative v) sh) (view_val v * 2 ^ bits)"
      using words_to_value_returns [OF sh(2), of env vm "negative v"] by simp
    moreover have "ws = [] \<Longrightarrow> view_val v = 0" using words(3) by (simp add: view_val_def)
    moreover have "diamond_bignum_shift_left env vm v bits = or_nil vm
        (if ws = [] then Done (V_INT 0, vm)
         else if \<not> malloc_ok env B_shifted (length z * 4) then Done (V_NIL, vm)
         else words_to_value env vm (negative v) sh)"
      using words(1) sh(1) unfolding diamond_bignum_shift_left_def Let_def z(3)
      by (simp only: bind_outcome.simps flip: z_def)
    ultimately show ?thesis
      by (auto intro: returns_zero dest: malloc_fails)
  qed (auto simp: diamond_bignum_shift_left_def)
qed

lemma div_pow_word:
  fixes w n :: nat
  assumes "p \<le> 32"
  shows "(w + 4294967296 * n) div 2 ^ p = w div 2 ^ p + 2 ^ (32 - p) * n"
    "(w + 4294967296 * n) mod 2 ^ p = w mod 2 ^ p"
proof -
  have e: "w + 4294967296 * n = w + 2 ^ p * (2 ^ (32 - p) * n)"
    unfolding pow32_split [OF assms] by (simp only: mult.assoc)
  show "(w + 4294967296 * n) div 2 ^ p = w div 2 ^ p + 2 ^ (32 - p) * n"
    unfolding e by (subst div_mult_self2) auto
  show "(w + 4294967296 * n) mod 2 ^ p = w mod 2 ^ p"
    unfolding e by (rule mod_mult_self2)
qed

lemma shift_right_word:
  assumes "w < 4294967296" "p < 32" "p \<noteq> 0" "w' < 4294967296"
  shows "drop_bit p w OR (u64 (push_bit (32 - p) w') AND 0xFFFFFFFF) =
      w div 2 ^ p + 2 ^ (32 - p) * (w' mod 2 ^ p)"
    "w div 2 ^ p + 2 ^ (32 - p) * (w' mod 2 ^ p) < 4294967296"
proof -
  have b: "4294967296 = 2 ^ (32 - p) * (2 :: nat) ^ p"
    using pow32_split [of "32 - p"] assms(2) by simp
  have a: "w div 2 ^ p < 2 ^ (32 - p)"
    using assms(1) b by (simp add: div_less_iff_less_mult)
  have s: "u64 (push_bit (32 - p) w') = 2 ^ (32 - p) * w'"
    using spread_split(1) [of w' "32 - p" 0] assms by simp
  have m: "(2 ^ (32 - p) * w') mod 4294967296 = 2 ^ (32 - p) * (w' mod 2 ^ p)"
    unfolding b by (rule mod_mult_mult1)
  show "drop_bit p w OR (u64 (push_bit (32 - p) w') AND 0xFFFFFFFF) =
      w div 2 ^ p + 2 ^ (32 - p) * (w' mod 2 ^ p)"
    unfolding s and_word_mask m drop_bit_eq_div by (rule or_push_bit [OF a])
  have "w' mod 2 ^ p + 1 \<le> 2 ^ p" by (simp add: Suc_leI)
  then have "2 ^ (32 - p) * (w' mod 2 ^ p + 1) \<le> 2 ^ (32 - p) * 2 ^ p" by (rule mult_le_mono2)
  then have "2 ^ (32 - p) * (w' mod 2 ^ p) + 2 ^ (32 - p) \<le> 4294967296" using b by simp
  then show "w div 2 ^ p + 2 ^ (32 - p) * (w' mod 2 ^ p) < 4294967296" using a by linarith
qed

lemma shift_right_loop_props:
  assumes "words_ok ws" "p < 32"
  shows "words_val (shift_right_loop p ws) = words_val ws div 2 ^ p"
    "words_ok (shift_right_loop p ws)" "length (shift_right_loop p ws) = length ws"
proof -
  have "words_val (shift_right_loop p ws) = words_val ws div 2 ^ p \<and>
    words_ok (shift_right_loop p ws) \<and> length (shift_right_loop p ws) = length ws"
    using assms
  proof (induction p ws rule: shift_right_loop.induct)
    case (2 p w)
    have "w div 2 ^ p \<le> w" by (rule div_le_dividend)
    moreover have "w < 4294967296" using 2 by simp
    ultimately have "w div 2 ^ p < 4294967296" by (rule le_less_trans)
    then show ?case by (simp add: drop_bit_eq_div width_simps)
  next
    case (3 p w w' ws)
    let ?V = "words_val (w' # ws)"
    have w: "w < 4294967296" "w' < 4294967296" using "3.prems" by auto
    have ih: "words_val (shift_right_loop p (w' # ws)) = ?V div 2 ^ p"
      "words_ok (shift_right_loop p (w' # ws))"
      "length (shift_right_loop p (w' # ws)) = length (w' # ws)"
      using "3.IH" "3.prems" by auto
    define cur where "cur = w div 2 ^ p + 2 ^ (32 - p) * (w' mod 2 ^ p)"
    have cur: "cur < 4294967296"
      using shift_right_word(2) [OF w(1) "3.prems"(2) _ w(2)] w by (cases "p = 0") (simp_all add: cur_def)
    have step: "shift_right_loop p (w # w' # ws) = cur # shift_right_loop p (w' # ws)"
    proof (cases "p = 0")
      case True
      then show ?thesis using w by (simp add: cur_def width_simps)
    next
      case False
      then show ?thesis
        using shift_right_word(1) [OF w(1) "3.prems"(2) False w(2)] cur
        by (simp add: Let_def u32_id flip: cur_def)
    qed
    have p: "p \<le> 32" using "3.prems" by simp
    have vm: "?V mod 2 ^ p = w' mod 2 ^ p"
      using div_pow_word(2) [OF p, of w' "words_val ws"] by simp
    have "words_val (w # w' # ws) div 2 ^ p = w div 2 ^ p + 2 ^ (32 - p) * ?V"
      using div_pow_word(1) [OF p, of w ?V] by simp
    also have "?V = ?V mod 2 ^ p + 2 ^ p * (?V div 2 ^ p)" by simp
    also have "w div 2 ^ p + 2 ^ (32 - p) * (?V mod 2 ^ p + 2 ^ p * (?V div 2 ^ p)) =
        cur + 4294967296 * (?V div 2 ^ p)"
      unfolding vm cur_def add_mult_distrib2 pow32_split [OF p] by (simp only: mult_ac add_ac)
    finally show ?case using step cur ih by simp
  qed simp
  then show "words_val (shift_right_loop p ws) = words_val ws div 2 ^ p"
    "words_ok (shift_right_loop p ws)" "length (shift_right_loop p ws) = length ws" by blast+
qed

lemma increment_words_props:
  assumes "words_ok ws"
  shows "words_val (increment_words ws) = words_val ws + 1" "words_ok (increment_words ws)"
    "length (increment_words ws) \<le> length ws + 1"
  using assms by (induction ws) (auto simp: u32_def mod_Suc split: if_splits)

lemma words_val_0_iff: "words_val ws = 0 \<longleftrightarrow> \<not> list_ex (\<lambda>w. w \<noteq> 0) ws"
  by (induction ws) auto

lemma words_take_drop:
  assumes "words_ok ws" "k \<le> length ws"
  shows "words_val (take k ws) = words_val ws mod 2 ^ (32 * k)"
    "words_val (drop k ws) = words_val ws div 2 ^ (32 * k)" "words_ok (drop k ws)"
proof -
  have ok: "words_ok (take k ws)" "words_ok (drop k ws)"
    using assms(1) by (metis append_take_drop_id words_ok_simps(3))+
  have lt: "words_val (take k ws) < 2 ^ (32 * k)"
    using words_val_bound [OF ok(1)] assms(2) by (simp add: min_def split: if_splits)
  have "words_val ws = words_val (take k ws) + 2 ^ (32 * k) * words_val (drop k ws)"
    using words_val_append [of "take k ws" "drop k ws"] assms(2) by (simp add: min_def split: if_splits)
  with lt show "words_val (take k ws) = words_val ws mod 2 ^ (32 * k)"
    "words_val (drop k ws) = words_val ws div 2 ^ (32 * k)" by simp_all
  show "words_ok (drop k ws)" by (fact ok)
qed

text \<open>The words that are shifted out, and whether one of their bits is set.\<close>

lemma shift_right_parts:
  fixes bits :: nat
  assumes "words_ok ws"
  defines "whole \<equiv> (if bits div 32 > length ws then length ws else bits div 32)"
  defines "part \<equiv> bits mod 32"
  shows "words_val (shift_right_loop part (drop whole ws)) = words_val ws div 2 ^ bits"
    "(list_ex (\<lambda>w. w \<noteq> 0) (take whole ws) \<or>
      whole < length ws \<and> part \<noteq> 0 \<and> (ws ! whole AND (u32 (push_bit part 1) - 1)) \<noteq> 0) \<longleftrightarrow>
     words_val ws mod 2 ^ bits \<noteq> 0"
proof -
  have le: "whole \<le> length ws" by (simp add: whole_def)
  have p: "part < 32" by (simp add: part_def)
  note td = words_take_drop [OF assms(1) le]
  have mask: "ws ! whole AND (u32 (push_bit part 1) - 1) = ws ! whole mod 2 ^ part"
  proof -
    have "(2 :: nat) ^ part \<le> 2 ^ 31" using p by (intro power_increasing) auto
    then have "u32 (push_bit part 1) - 1 = mask part"
      by (simp add: push_bit_eq_mult width_simps mask_eq_exp_minus_1)
    then show ?thesis by (simp add: take_bit_eq_mod flip: take_bit_eq_mask)
  qed
  have hd: "ws ! whole mod 2 ^ part = words_val (drop whole ws) mod 2 ^ part" if "whole < length ws"
  proof -
    have "drop whole ws = ws ! whole # drop (Suc whole) ws" using that by (simp add: Cons_nth_drop_Suc)
    then show ?thesis
      using div_pow_word(2) [of part "ws ! whole" "words_val (drop (Suc whole) ws)"] p by simp
  qed
  have tail: "(whole < length ws \<and> part \<noteq> 0 \<and> (ws ! whole AND (u32 (push_bit part 1) - 1)) \<noteq> 0) \<longleftrightarrow>
      words_val (drop whole ws) mod 2 ^ part \<noteq> 0"
    using mask hd le by (cases "whole < length ws"; cases "part = 0") auto
  have ex: "list_ex (\<lambda>w. w \<noteq> 0) (take whole ws) \<longleftrightarrow> words_val ws mod 2 ^ (32 * whole) \<noteq> 0"
    using words_val_0_iff [of "take whole ws"] td(1) by simp
  have all: "words_val (shift_right_loop part (drop whole ws)) = words_val ws div 2 ^ (32 * whole + part)"
    using shift_right_loop_props(1) [OF td(3) p] td(2) by (simp add: power_add div_mult2_eq)
  have any: "words_val ws mod 2 ^ (32 * whole + part) \<noteq> 0 \<longleftrightarrow>
      words_val ws mod 2 ^ (32 * whole) \<noteq> 0 \<or> words_val (drop whole ws) mod 2 ^ part \<noteq> 0"
    unfolding power_add mod_mult2_eq td(2) by auto
  show "words_val (shift_right_loop part (drop whole ws)) = words_val ws div 2 ^ bits"
    and "(list_ex (\<lambda>w. w \<noteq> 0) (take whole ws) \<or>
      whole < length ws \<and> part \<noteq> 0 \<and> (ws ! whole AND (u32 (push_bit part 1) - 1)) \<noteq> 0) \<longleftrightarrow>
     words_val ws mod 2 ^ bits \<noteq> 0"
  proof -
    have "words_val ws div 2 ^ (32 * whole + part) = words_val ws div 2 ^ bits \<and>
      (words_val ws mod 2 ^ (32 * whole + part) \<noteq> 0 \<longleftrightarrow> words_val ws mod 2 ^ bits \<noteq> 0)"
    proof (cases "bits div 32 > length ws")
      case True
      then have "32 * length ws \<le> bits" by linarith
      then have "(2 :: nat) ^ (32 * length ws) \<le> 2 ^ bits" "(2 :: nat) ^ (32 * length ws) \<le> 2 ^ (32 * whole + part)"
        using True by (auto intro!: power_increasing simp: whole_def)
      then have "words_val ws < 2 ^ bits" "words_val ws < 2 ^ (32 * whole + part)"
        using words_val_bound [OF assms(1)] by linarith+
      then show ?thesis by simp
    next
      case False
      then show ?thesis by (simp add: whole_def part_def)
    qed
    then show "words_val (shift_right_loop part (drop whole ws)) = words_val ws div 2 ^ bits"
      and "(list_ex (\<lambda>w. w \<noteq> 0) (take whole ws) \<or>
      whole < length ws \<and> part \<noteq> 0 \<and> (ws ! whole AND (u32 (push_bit part 1) - 1)) \<noteq> 0) \<longleftrightarrow>
     words_val ws mod 2 ^ bits \<noteq> 0"
      unfolding tail ex all using any by blast+
  qed
qed

lemma shift_right_returns:
  assumes "wf_mag (limbs v)"
  shows "returns env vm (diamond_bignum_shift_right env vm v bits) (view_val v div 2 ^ bits)"
proof -
  consider (words) ws where "magnitude_to_words env (limbs v) = Done ws" "words_ok ws"
      "words_val ws = mag_val (limbs v)"
    | (fail) "magnitude_to_words env (limbs v) = No_memory" "\<not> alloc_succeeds env"
    using magnitude_to_words_props [OF assms, of env] by blast
  then show ?thesis
  proof cases
    case words
    define whole where "whole = (if bits div 32 > length ws then length ws else bits div 32)"
    define part where "part = bits mod 32"
    define lost where "lost \<longleftrightarrow> list_ex (\<lambda>w. w \<noteq> 0) (take whole ws) \<or>
      whole < length ws \<and> part \<noteq> 0 \<and> (ws ! whole AND (u32 (push_bit part 1) - 1)) \<noteq> 0"
    let ?res = "shift_right_loop part (drop whole ws)"
    define res where "res = (if negative v \<and> lost then increment_words ?res else ?res)"
    have parts: "words_val ?res = words_val ws div 2 ^ bits" "lost \<longleftrightarrow> words_val ws mod 2 ^ bits \<noteq> 0"
      using shift_right_parts [OF words(2), of bits] unfolding lost_def whole_def part_def by blast+
    have le: "whole \<le> length ws" by (simp add: whole_def)
    have r: "words_ok ?res" "length ?res = length ws - whole"
      using shift_right_loop_props [of "drop whole ws" part] words_take_drop(3) [OF words(2) le]
      by (simp_all add: part_def)
    have res: "words_ok res" "length res \<le> length ws + 1"
      "words_val res = words_val ws div 2 ^ bits +
        (if negative v \<and> words_val ws mod 2 ^ bits \<noteq> 0 then 1 else 0)"
      using r increment_words_props [OF r(1)] parts by (auto simp: res_def)
    have "view_val v div 2 ^ bits = signed (negative v) (words_val res)"
      using signed_div [of "2 ^ bits" "negative v" "mag_val (limbs v)" False] res(3) words(3)
      by (simp add: view_val_signed signed_def [of False])
    then have ret: "returns env vm (words_to_value env vm (negative v) res) (view_val v div 2 ^ bits)"
      using words_to_value_returns [OF res(1), of env vm "negative v"] by simp
    have "lost = (if whole < length ws \<and> part \<noteq> 0
        then list_ex (\<lambda>w. w \<noteq> 0) (take whole ws) \<or> (ws ! whole AND (u32 (push_bit part 1) - 1)) \<noteq> 0
        else list_ex (\<lambda>w. w \<noteq> 0) (take whole ws))"
      by (auto simp: lost_def)
    then have "diamond_bignum_shift_right env vm v bits = or_nil vm
        (if ws = [] then Done (V_INT 0, vm)
         else if \<not> malloc_ok env B_result ((length ws + 1) * 4) then Done (V_NIL, vm)
         else words_to_value env vm (negative v) res)"
      using words(1) res(2) unfolding diamond_bignum_shift_right_def Let_def
      by (simp only: bind_outcome.simps flip: whole_def part_def res_def)
        (simp add: res_def)
    moreover have "ws = [] \<Longrightarrow> view_val v = 0" using words(3) by (simp add: view_val_def)
    ultimately show ?thesis using ret by (auto intro: returns_zero dest: malloc_fails)
  qed (auto simp: diamond_bignum_shift_right_def)
qed

subsection \<open>Radix conversion\<close>

lemma radix_digit_digits: "map radix_digit radix_digits = [0..<36]" "length radix_digits = 36"
  by (simp_all add: radix_digits_def radix_digit_def upt_conv_Cons)

lemma radix_digit_char: "n < 36 \<Longrightarrow> radix_digit (radix_digits ! n) = n"
  using nth_map [of n radix_digits radix_digit] by (simp add: radix_digit_digits)

lemma radix_val_snoc: "radix_val radix (s @ [c]) = radix_val radix s * radix + radix_digit c"
  by (simp add: radix_val_def)

lemma radix_val_Nil [simp]: "radix_val radix [] = 0"
  by (simp add: radix_val_def)

lemma divide_radix_loop_props:
  assumes "digits_ok ls" "0 < radix" "radix \<le> 36" "divide_radix_loop radix ls = (qs, r)"
  shows "mag_val ls = mag_val qs * radix + r" "r < radix" "digits_ok qs"
proof -
  have "mag_val ls = mag_val qs * radix + r \<and> r < radix \<and> digits_ok qs"
    using assms(1,4)
  proof (induction ls arbitrary: qs r)
    case Nil
    then show ?case using assms(2) by simp
  next
    case (Cons limb ls)
    obtain qs' r' where rec: "divide_radix_loop radix ls = (qs', r')" by fastforce
    have ih: "mag_val ls = mag_val qs' * radix + r'" "r' < radix" "digits_ok qs'"
      using Cons.IH [OF _ rec] Cons.prems(1) by auto
    define cur where "cur = r' * BASE + limb"
    have lt: "cur < radix * BASE"
    proof -
      have "(r' + 1) * BASE \<le> radix * BASE" using ih(2) by (intro mult_le_mono1) simp
      moreover have "limb < BASE" using Cons.prems(1) by simp
      ultimately show ?thesis by (simp only: add_mult_distrib mult_1 cur_def)
    qed
    have "radix * BASE \<le> 36 * BASE" using assms(3) by (rule mult_le_mono1)
    then have small: "cur < 18446744073709551616" using lt by (simp add: BASE_def)
    have u: "u64 (u64 (r' * BASE) + limb) = cur"
      using small by (simp add: width_simps cur_def)
    have q_lt: "cur div radix < BASE"
      using lt assms(2) by (simp add: div_less_iff_less_mult mult.commute)
    then have qs: "qs = cur div radix # qs'" and r: "r = cur mod radix"
      using Cons.prems(2) rec u by (auto simp: Let_def width_simps BASE_def)
    have "mag_val (limb # ls) = limb + BASE * (mag_val qs' * radix) + BASE * r'"
      using ih(1) by (simp add: algebra_simps)
    also have "\<dots> = cur + BASE * mag_val qs' * radix" by (simp add: cur_def mult.commute)
    also have "cur = cur div radix * radix + cur mod radix" by simp
    finally have "mag_val (limb # ls) = mag_val qs * radix + r"
      unfolding qs r by (simp add: add_mult_distrib)
    then show ?case using qs r q_lt ih(3) assms(2) by simp
  qed
  then show "mag_val ls = mag_val qs * radix + r" "r < radix" "digits_ok qs" by blast+
qed

lemma radix_loop_props:
  assumes "2 \<le> radix" "radix \<le> 36" "wf_mag ls" "mag_val ls < 2 ^ room"
  shows "\<exists>s. radix_loop radix room ls = Done s \<and> radix_val radix (rev s) = mag_val ls \<and>
    length s \<le> room \<and> (\<forall>c \<in> set s. radix_digit c < radix \<and> c \<in> set radix_digits)"
  using assms(3,4)
proof (induction room arbitrary: ls)
  case 0
  then have "ls = []" using mag_val_0_iff [of ls] by (simp add: wf_mag_def)
  then show ?case by simp
next
  case (Suc room)
  show ?case
  proof (cases "ls = []")
    case False
    obtain qs r where d: "divide_radix_loop radix ls = (qs, r)" by fastforce
    have q: "mag_val ls = mag_val qs * radix + r" "r < radix" "digits_ok qs"
      using divide_radix_loop_props [OF _ _ assms(2) d] Suc.prems(1) assms(1) by (auto simp: wf_mag_def)
    have "mag_val qs * 2 \<le> mag_val qs * radix" using assms(1) by (rule mult_le_mono2)
    then have "mag_val qs * 2 < 2 ^ room * 2"
      using q(1) Suc.prems(2) unfolding power_Suc2 by linarith
    then have "mag_val (magnitude_trim qs) < 2 ^ room" by simp
    from Suc.IH [OF wf_mag_trim [OF q(3)] this] obtain s where
      s: "radix_loop radix room (magnitude_trim qs) = Done s" "radix_val radix (rev s) = mag_val qs"
        "length s \<le> room" "\<forall>c \<in> set s. radix_digit c < radix \<and> c \<in> set radix_digits" by auto
    have r36: "r < 36" using q(2) assms(2) by simp
    have "radix_digits ! r \<in> set radix_digits" using r36 radix_digit_digits(2) by simp
    then show ?thesis
      using False d s q radix_digit_char [OF r36] by (simp add: radix_val_snoc)
  qed simp
qed

text \<open>The text of a number: an optional minus sign before the digits of its magnitude.\<close>

lemma to_radix_string_props:
  assumes "view_ok v" "2 \<le> radix" "radix \<le> 36"
  shows "(\<exists>s. diamond_bignum_to_radix_string env v radix =
        Done ((if negative v then ''-'' else []) @ s) \<and>
      radix_val radix s = mag_val (limbs v) \<and> s \<noteq> [] \<and>
      (\<forall>c \<in> set s. radix_digit c < radix \<and> c \<in> set radix_digits)) \<or>
    diamond_bignum_to_radix_string env v radix = No_memory \<and> \<not> alloc_succeeds env"
proof -
  let ?n = "length (limbs v)"
  have w: "wf_mag (limbs v)" using assms(1) by (simp add: view_ok_def)
  have t: "magnitude_trim (limbs v) = limbs v"
    using wf_mag_inject [OF wf_mag_trim w] w by (simp add: wf_mag_def)
  have lt: "mag_val (limbs v) < 2 ^ (30 * ?n)" using limbs_bits w by (simp add: wf_mag_def)
  obtain s where s: "radix_loop radix (?n * 30 + 3) (limbs v) = Done s"
    "radix_val radix (rev s) = mag_val (limbs v)"
    "\<forall>c \<in> set s. radix_digit c < radix \<and> c \<in> set radix_digits"
    using radix_loop_props [OF assms(2,3) w, of "?n * 30 + 3"] lt
    by (auto simp: power_add mult.commute less_le_trans)
  obtain s' where s': "radix_loop radix (30 * ?n) (limbs v) = Done s'" "length s' \<le> 30 * ?n"
    using radix_loop_props [OF assms(2,3) w lt] by blast
  have more: "radix_loop radix k ls = Done x \<Longrightarrow> k \<le> m \<Longrightarrow> radix_loop radix m ls = Done x" for k m ls x
  proof (induction k arbitrary: m ls x)
    case 0
    then show ?case by (cases m) (auto split: if_splits)
  next
    case (Suc k)
    then obtain j where j: "m = Suc j" by (cases m) auto
    show ?case
    proof (cases "ls = []")
      case False
      obtain qs r where d: "divide_radix_loop radix ls = (qs, r)" by fastforce
      obtain y where "radix_loop radix k (magnitude_trim qs) = Done y" "x = radix_digits ! r # y"
        using Suc.prems(1) False d by (cases "radix_loop radix k (magnitude_trim qs)") auto
      then show ?thesis using Suc.IH [of "magnitude_trim qs" y j] Suc.prems(2) False d j by simp
    qed (use Suc.prems j in simp)
  qed
  have len: "length s \<le> ?n * 30" using more [OF s'(1), of "?n * 30 + 3"] s(1) s'(2) by simp
  define t where "t = (if s = [] then ''0'' else rev s)"
  have "radix_digit (CHR ''0'') = 0" "CHR ''0'' \<in> set radix_digits"
    by (simp_all add: radix_digit_def radix_digits_def)
  then have tp: "radix_val radix t = mag_val (limbs v)" "t \<noteq> []"
      "\<forall>c \<in> set t. radix_digit c < radix \<and> c \<in> set radix_digits"
    using s assms(2) by (auto simp: t_def radix_val_def)
  have l0: "negative v \<Longrightarrow> s \<noteq> []"
    using s(2) assms(1) mag_val_0_iff [of "limbs v"] by (auto simp: view_ok_def wf_mag_def)
  have "diamond_bignum_to_radix_string env v radix =
      Done ((if negative v then ''-'' else []) @ t)"
    if "malloc_ok env B_reversed (?n * 30 + 3)" "malloc_ok env B_scratch ((if ?n = 0 then 1 else ?n) * 4)"
    using that s(1) t len l0 by (auto simp: diamond_bignum_to_radix_string_def Let_def t_def)
  moreover have "diamond_bignum_to_radix_string env v radix = No_memory"
    if "\<not> (malloc_ok env B_reversed (?n * 30 + 3) \<and> malloc_ok env B_scratch ((if ?n = 0 then 1 else ?n) * 4))"
    using that by (simp add: diamond_bignum_to_radix_string_def Let_def)
  ultimately show ?thesis using tp malloc_fails by metis
qed

lemma from_radix_loop_props:
  assumes "2 \<le> radix" "radix \<le> 36" "\<forall>c \<in> set s. radix_digit c < radix" "wf_mag ls"
    "(mag_val ls + 1) * 64 ^ length s \<le> BASE ^ cap"
  shows "\<exists>r. from_radix_loop cap radix s ls = Done r \<and> wf_mag r \<and>
    mag_val r = foldl (\<lambda>n c. n * radix + radix_digit c) (mag_val ls) s"
  using assms(3-5)
proof (induction s arbitrary: ls)
  case (Cons c s)
  let ?v = "mag_val ls * radix + radix_digit c"
  have d: "radix_digit c < radix" using Cons.prems(1) by simp
  have "?v + 1 \<le> (mag_val ls + 1) * radix" using d by (simp add: algebra_simps)
  also have "\<dots> \<le> (mag_val ls + 1) * 64" using assms(2) by (intro mult_le_mono2) simp
  finally have step: "?v + 1 \<le> (mag_val ls + 1) * 64" .
  then have "(?v + 1) * 64 ^ length s \<le> (mag_val ls + 1) * 64 * 64 ^ length s" by (rule mult_le_mono1)
  also have "\<dots> = (mag_val ls + 1) * 64 ^ length (c # s)" by (simp add: algebra_simps)
  finally have b: "(?v + 1) * 64 ^ length s \<le> BASE ^ cap" using Cons.prems(3) by (rule order_trans)
  have "(?v + 1) * 1 \<le> (?v + 1) * 64 ^ length s" by (rule mult_le_mono2) simp
  then have "(?v + 1) * 1 \<le> BASE ^ cap" using b by (rule order_trans)
  then have "?v < BASE ^ cap" by simp
  then obtain r where r: "magnitude_multiply_add cap ls radix (radix_digit c) = Done r" "wf_mag r"
    "mag_val r = ?v"
    using multiply_add_done [OF Cons.prems(2), of radix "radix_digit c" cap] assms d by auto
  have "\<exists>x. from_radix_loop cap radix s r = Done x \<and> wf_mag x \<and>
      mag_val x = foldl (\<lambda>n c. n * radix + radix_digit c) (mag_val r) s"
    using Cons.IH [of r] Cons.prems(1) r b by simp
  then show ?case using r by auto
qed simp

lemma from_radix_returns:
  assumes "2 \<le> radix" "radix \<le> 36" "\<forall>c \<in> set s. radix_digit c < radix"
  shows "returns env vm (diamond_bignum_from_radix_digits env vm s radix neg)
    (signed neg (radix_val radix s))"
proof -
  let ?cap = "length s * 6 div 29 + 3"
  have "(64 :: nat) ^ length s = 2 ^ (6 * length s)" by (simp add: power_mult)
  also have "\<dots> \<le> 2 ^ (29 * ?cap)" by (intro power_increasing) auto
  also have "\<dots> = (2 ^ 29) ^ ?cap" by (simp only: power_mult)
  also have "\<dots> \<le> BASE ^ ?cap" by (intro power_mono) (auto simp: BASE_def)
  finally have "(mag_val [] + 1) * 64 ^ length s \<le> BASE ^ ?cap" by simp
  from from_radix_loop_props [OF assms wf_mag_Nil this]
  obtain r where r: "from_radix_loop ?cap radix s [] = Done r" "wf_mag r"
    "mag_val r = radix_val radix s" by (auto simp: radix_val_def)
  have "magnitude_trim r = r" using wf_mag_inject [OF wf_mag_trim r(2)] r(2) by (simp add: wf_mag_def)
  then show ?thesis
    using r canonicalize_result [OF r(2), of env vm neg]
    by (cases "bignum_canonicalize env vm neg r")
      (auto simp: diamond_bignum_from_radix_digits_def Let_def returns_def yields_nil dest: malloc_fails)
qed

section \<open>Properties\<close>

text \<open>
  C6: The bitwise operators have infinite two's-complement semantics: on canonical operands
  \<open>&\<close>, \<open>|\<close> and \<open>^\<close> return the canonical value of the corresponding operation on unbounded integers,
  no scratch buffer is written out of bounds, and at most one object is allocated.
\<close>

theorem bignum_bitwise_exact:
  assumes "canonical a" "canonical b"
  shows "returns env vm (diamond_bignum_bitwise env vm BITWISE_AND (diamond_int_view a) (diamond_int_view b))
      (int_val a AND int_val b) \<and>
    returns env vm (diamond_bignum_bitwise env vm BITWISE_OR (diamond_int_view a) (diamond_int_view b))
      (int_val a OR int_val b) \<and>
    returns env vm (diamond_bignum_bitwise env vm BITWISE_XOR (diamond_int_view a) (diamond_int_view b))
      (int_val a XOR int_val b)"
  using bitwise_returns int_view_ok [OF assms(1)] int_view_ok [OF assms(2)]
  by (metis int_op.simps view_ok_def)

theorem bignum_bitwise_exact_witness:
  "canonical (V_INT (-1)) \<and> canonical (V_BIGNUM False [5, 0, 12]) \<and>
   (\<exists>vm'. diamond_bignum_bitwise env_ok vm_empty BITWISE_AND (diamond_int_view (V_INT (-1)))
      (diamond_int_view (V_BIGNUM False [5, 0, 12])) = Done (int_result 12000000000000000005, vm'))"
proof -
  have c: "canonical (V_INT (-1))" "canonical (V_BIGNUM False [5, 0, 12])"
    by (simp_all add: wf_mag_def trimmed_def BASE_def fits_int64_def int64_min_def int64_max_def)
  have "int_val (V_INT (-1)) AND int_val (V_BIGNUM False [5, 0, 12]) = 12000000000000000005"
    by (simp add: BASE_def)
  with bignum_bitwise_exact [OF c, of env_ok vm_empty] env_ok_succeeds
  have "\<exists>vm'. diamond_bignum_bitwise env_ok vm_empty BITWISE_AND (diamond_int_view (V_INT (-1)))
      (diamond_int_view (V_BIGNUM False [5, 0, 12])) = Done (int_result 12000000000000000005, vm')"
    unfolding returns_def yields_def by (metis prod.collapse)
  with c show ?thesis by blast
qed

text \<open>
  C7: The shifts are exact for every canonical operand and every shift amount: a left shift
  multiplies by the power of two and a right shift divides by it rounding towards minus infinity,
  within the bounds of every buffer.
\<close>

theorem bignum_shift_exact:
  assumes "canonical a"
  shows "returns env vm (diamond_bignum_shift_left env vm (diamond_int_view a) bits) (int_val a * 2 ^ bits) \<and>
    returns env vm (diamond_bignum_shift_right env vm (diamond_int_view a) bits) (int_val a div 2 ^ bits)"
  using shift_left_returns shift_right_returns int_view_ok [OF assms] by (metis view_ok_def)

theorem bignum_shift_exact_witness:
  "canonical (V_INT (-5)) \<and>
   (\<exists>vm'. diamond_bignum_shift_left env_ok vm_empty (diamond_int_view (V_INT (-5))) 64 =
      Done (int_result (- 92233720368547758080), vm')) \<and>
   (\<exists>vm'. diamond_bignum_shift_right env_ok vm_empty (diamond_int_view (V_INT (-5))) 1 =
      Done (int_result (-3), vm'))"
proof -
  have c: "canonical (V_INT (-5))" by (simp add: fits_int64_def int64_min_def int64_max_def)
  have "alloc_succeeds env_ok" by (rule env_ok_succeeds)
  with c bignum_shift_exact [OF c, of env_ok vm_empty 64]
    bignum_shift_exact [OF c, of env_ok vm_empty 1] show ?thesis
    by (auto simp: returns_def yields_def)
qed

text \<open>
  C8: Radix round trip: in every radix from 2 to 36 the text of a canonical Int is an optional minus
  sign and digits of that radix, produced within its buffer, and parsing the digits back under that
  sign returns the same value.
\<close>

theorem bignum_radix_round_trip:
  assumes "canonical a" "2 \<le> radix" "radix \<le> 36"
  shows "diamond_bignum_to_radix_string env (diamond_int_view a) radix \<noteq> Out_of_bounds \<and>
    (\<forall>out. diamond_bignum_to_radix_string env (diamond_int_view a) radix = Done out \<longrightarrow>
     (\<exists>s. out = (if int_val a < 0 then ''-'' else []) @ s \<and> s \<noteq> [] \<and>
       set s \<subseteq> set radix_digits \<and>
       returns env vm (diamond_bignum_from_radix_digits env vm s radix (int_val a < 0)) (int_val a)))"
proof -
  let ?v = "diamond_int_view a"
  have ok: "view_ok ?v" and val: "view_val ?v = int_val a" using int_view_ok [OF assms(1)] .
  have pos: "negative ?v \<Longrightarrow> 0 < mag_val (limbs ?v)"
    using ok mag_val_0_iff [of "limbs ?v"] by (auto simp: view_ok_def wf_mag_def)
  have neg: "negative ?v \<longleftrightarrow> int_val a < 0"
    using val pos by (auto simp: view_val_def split: if_splits)
  note props = to_radix_string_props [OF ok assms(2,3), of env]
  have "diamond_bignum_to_radix_string env ?v radix \<noteq> Out_of_bounds" using props by auto
  moreover have "\<exists>s. out = (if int_val a < 0 then ''-'' else []) @ s \<and> s \<noteq> [] \<and>
       set s \<subseteq> set radix_digits \<and>
       returns env vm (diamond_bignum_from_radix_digits env vm s radix (int_val a < 0)) (int_val a)"
    if res: "diamond_bignum_to_radix_string env ?v radix = Done out" for out
  proof -
    from res props obtain s where s: "out = (if negative ?v then ''-'' else []) @ s" "s \<noteq> []"
      "radix_val radix s = mag_val (limbs ?v)"
      "\<forall>c \<in> set s. radix_digit c < radix \<and> c \<in> set radix_digits"
      by auto
    have "signed (negative ?v) (radix_val radix s) = int_val a"
      using val s(3) by (simp add: view_val_signed)
    with from_radix_returns [OF assms(2,3), of s env vm "negative ?v"] s(4)
    have "returns env vm (diamond_bignum_from_radix_digits env vm s radix (int_val a < 0)) (int_val a)"
      by (simp add: neg)
    with s show ?thesis unfolding neg by blast
  qed
  ultimately show ?thesis by blast
qed

theorem bignum_radix_round_trip_witness:
  "canonical (V_BIGNUM True [5, 0, 12]) \<and>
   diamond_bignum_to_radix_string env_ok (diamond_int_view (V_BIGNUM True [5, 0, 12])) 16 \<noteq> Out_of_bounds"
proof -
  have c: "canonical (V_BIGNUM True [5, 0, 12])"
    by (simp add: wf_mag_def trimmed_def BASE_def fits_int64_def int64_min_def int64_max_def)
  from c bignum_radix_round_trip [OF c, of 16 env_ok] show ?thesis by simp
qed

end
