(* ===== verification/Semver.thy ===== *)
theory Semver
  imports C_Text
begin

text \<open>
  Semantic versions and version ranges (\<open>src/src/semver.c\<close>): parsing, formatting, precedence, range
  constraints and their intersection. A cursor into a NUL-terminated text is the rest of the text;
  a parse that fails is \<open>None\<close>. The numeric fields are \<open>unsigned long\<close> (64 bits): \<open>strtoul\<close>
  saturates and the increments of the upper bounds wrap, as in the source.
\<close>

section \<open>Definitions\<close>

record Semver =
  major :: nat
  minor :: nat
  patch :: nat
  prerelease :: string
  build :: string

definition SEMVER_MAX_IDENTIFIERS :: nat where
  "SEMVER_MAX_IDENTIFIERS = 256"

subsection \<open>Parsing\<close>

definition is_identifier_char :: "char \<Rightarrow> bool" where
  "is_identifier_char c \<longleftrightarrow> is_alnum c \<or> c = CHR ''-''"

definition is_all_digits :: "string \<Rightarrow> bool" where
  "is_all_digits s \<longleftrightarrow> length s \<noteq> 0 \<and> list_all is_digit s"

definition parse_numeric_field :: "string \<Rightarrow> (nat \<times> string) option" where
  "parse_numeric_field cursor =
     (if \<not> is_digit (byte_at cursor 0) then None
      else if byte_at cursor 0 = CHR ''0'' \<and> is_digit (byte_at cursor 1) then None
      else Some (strtoul cursor))"

text \<open>An identifier the prerelease rule rejects: all digits with a leading zero.\<close>

definition has_leading_zero :: "string \<Rightarrow> bool" where
  "has_leading_zero ident \<longleftrightarrow>
     is_all_digits ident \<and> length ident > 1 \<and> byte_at ident 0 = CHR ''0''"

fun identifier_loop ::
    "char \<Rightarrow> bool \<Rightarrow> string \<Rightarrow> string \<Rightarrow> string \<Rightarrow> (string \<times> string \<times> string) option" where
  "identifier_loop stop check_leading_zero ident run [] = Some (ident, run, [])"
| "identifier_loop stop check_leading_zero ident run (c # cursor) =
     (if c = stop then Some (ident, run, c # cursor)
      else if c = CHR ''.'' then
        (if length ident = 0 then None
         else if check_leading_zero \<and> has_leading_zero ident then None
         else identifier_loop stop check_leading_zero [] (run @ [c]) cursor)
      else if \<not> is_identifier_char c then None
      else identifier_loop stop check_leading_zero (ident @ [c]) (run @ [c]) cursor)"

definition copy_identifier_run :: "char \<Rightarrow> bool \<Rightarrow> nat \<Rightarrow> string \<Rightarrow> (string \<times> string) option" where
  "copy_identifier_run stop check_leading_zero buffer_size cursor =
     (case identifier_loop stop check_leading_zero [] [] cursor of
        None \<Rightarrow> None
      | Some (ident, run, rest) \<Rightarrow>
          (if length ident = 0 then None
           else if check_leading_zero \<and> has_leading_zero ident then None
           else if length run = 0 \<or> length run \<ge> buffer_size then None
           else Some (run, rest)))"

definition expect_dot :: "string \<Rightarrow> string option" where
  "expect_dot cursor = (if byte_at cursor 0 \<noteq> CHR ''.'' then None else Some (drop 1 cursor))"

definition parse_core :: "string \<Rightarrow> (nat \<times> nat \<times> nat \<times> string) option" where
  "parse_core cursor =
     (case parse_numeric_field cursor of None \<Rightarrow> None | Some (ma, cursor) \<Rightarrow>
     (case expect_dot cursor of None \<Rightarrow> None | Some cursor \<Rightarrow>
     (case parse_numeric_field cursor of None \<Rightarrow> None | Some (mi, cursor) \<Rightarrow>
     (case expect_dot cursor of None \<Rightarrow> None | Some cursor \<Rightarrow>
     (case parse_numeric_field cursor of None \<Rightarrow> None | Some (pa, cursor) \<Rightarrow>
       Some (ma, mi, pa, cursor))))))"

definition parse_suffix :: "char \<Rightarrow> char \<Rightarrow> bool \<Rightarrow> string \<Rightarrow> (string \<times> string) option" where
  "parse_suffix mark stop check_leading_zero cursor =
     (if byte_at cursor 0 = mark
      then copy_identifier_run stop check_leading_zero SEMVER_MAX_IDENTIFIERS (drop 1 cursor)
      else Some ([], cursor))"

definition semver_parse :: "string \<Rightarrow> Semver option" where
  "semver_parse s =
     (let cursor = (if byte_at s 0 = CHR ''v'' \<or> byte_at s 0 = CHR ''V'' then drop 1 s else s)
      in case parse_core cursor of None \<Rightarrow> None | Some (ma, mi, pa, cursor) \<Rightarrow>
        (case parse_suffix (CHR ''-'') (CHR ''+'') True cursor of None \<Rightarrow> None | Some (pre, cursor) \<Rightarrow>
        (case parse_suffix (CHR ''+'') NUL False cursor of None \<Rightarrow> None | Some (bld, cursor) \<Rightarrow>
          (if cursor = []
           then Some \<lparr>major = ma, minor = mi, patch = pa, prerelease = pre, build = bld\<rparr>
           else None))))"

text \<open>The text \<open>snprintf\<close> builds, and \<open>None\<close> when it does not fit.\<close>

definition semver_text :: "Semver \<Rightarrow> string" where
  "semver_text v =
     format_u (major v) @ ''.'' @ format_u (minor v) @ ''.'' @ format_u (patch v) @
     (if prerelease v \<noteq> [] then ''-'' else []) @ prerelease v @
     (if build v \<noteq> [] then ''+'' else []) @ build v"

definition semver_format :: "Semver \<Rightarrow> nat \<Rightarrow> string option" where
  "semver_format v buffer_size =
     (if length (semver_text v) < buffer_size then Some (semver_text v) else None)"

subsection \<open>Precedence\<close>

definition compare_unsigned_long :: "nat \<Rightarrow> nat \<Rightarrow> int" where
  "compare_unsigned_long a b = (if a < b then -1 else if a > b then 1 else 0)"

definition compare_prerelease_identifier :: "string \<Rightarrow> string \<Rightarrow> int" where
  "compare_prerelease_identifier a b =
     (if is_all_digits a \<and> is_all_digits b
      then compare_unsigned_long (fst (strtoul (take 31 a))) (fst (strtoul (take 31 b)))
      else if is_all_digits a \<noteq> is_all_digits b then (if is_all_digits a then -1 else 1)
      else (let cmp = memcmp a b
            in if cmp \<noteq> 0 then (if cmp < 0 then -1 else 1)
               else compare_unsigned_long (length a) (length b)))"

definition identifier_at :: "string \<Rightarrow> string" where
  "identifier_at cursor = takeWhile (\<lambda>c. c \<noteq> CHR ''.'') cursor"

definition past_identifier :: "string \<Rightarrow> string" where
  "past_identifier cursor = drop 1 (dropWhile (\<lambda>c. c \<noteq> CHR ''.'') cursor)"

lemma past_identifier_shorter: "s \<noteq> [] \<Longrightarrow> length (past_identifier s) < length s"
  by (cases s) (auto simp: past_identifier_def intro: le_less_trans [OF diff_le_self]
      le_imp_less_Suc [OF order_trans [OF diff_le_self length_dropWhile_le]])

function compare_prerelease :: "string \<Rightarrow> string \<Rightarrow> int" where
  "compare_prerelease a b =
     (if a = [] \<and> b = [] then 0
      else if a = [] then -1
      else if b = [] then 1
      else (let cmp = compare_prerelease_identifier (identifier_at a) (identifier_at b)
            in if cmp \<noteq> 0 then cmp
               else compare_prerelease (past_identifier a) (past_identifier b)))"
  by pat_completeness auto
termination
  by (relation "measure (\<lambda>(a, b). length a)") (auto intro: past_identifier_shorter)

declare compare_prerelease.simps [simp del]

definition semver_compare :: "Semver \<Rightarrow> Semver \<Rightarrow> int" where
  "semver_compare a b =
     (let cmp = compare_unsigned_long (major a) (major b) in if cmp \<noteq> 0 then cmp else
      let cmp = compare_unsigned_long (minor a) (minor b) in if cmp \<noteq> 0 then cmp else
      let cmp = compare_unsigned_long (patch a) (patch b) in if cmp \<noteq> 0 then cmp else
      let a_has_prerelease = prerelease a \<noteq> []; b_has_prerelease = prerelease b \<noteq> []
      in if a_has_prerelease \<noteq> b_has_prerelease then (if a_has_prerelease then -1 else 1)
         else if \<not> a_has_prerelease then 0
         else compare_prerelease (prerelease a) (prerelease b))"

subsection \<open>Constraints\<close>

record SemverConstraint =
  has_min :: bool
  min_version :: Semver
  min_inclusive :: bool
  has_max :: bool
  max_version :: Semver
  max_inclusive :: bool

definition zero_version :: Semver where
  "zero_version = \<lparr>major = 0, minor = 0, patch = 0, prerelease = [], build = []\<rparr>"

definition unconstrained :: SemverConstraint where
  "unconstrained = \<lparr>has_min = False, min_version = zero_version, min_inclusive = False,
     has_max = False, max_version = zero_version, max_inclusive = False\<rparr>"

definition caret_upper_bound :: "Semver \<Rightarrow> Semver" where
  "caret_upper_bound v =
     (let v = v\<lparr>prerelease := [], build := []\<rparr>
      in if major v > 0 then v\<lparr>major := u64 (major v + 1), minor := 0, patch := 0\<rparr>
         else if minor v > 0 then v\<lparr>minor := u64 (minor v + 1), patch := 0\<rparr>
         else v\<lparr>patch := u64 (patch v + 1)\<rparr>)"

definition tilde_upper_bound :: "Semver \<Rightarrow> Semver" where
  "tilde_upper_bound v =
     v\<lparr>prerelease := [], build := [], minor := u64 (minor v + 1), patch := 0\<rparr>"

datatype CompareOp =
  COMPARE_OP_EXACT | COMPARE_OP_GTE | COMPARE_OP_LTE | COMPARE_OP_GT | COMPARE_OP_LT

definition comparator_operator :: "string \<Rightarrow> CompareOp \<times> string" where
  "comparator_operator s =
     (if take 2 s = ''>='' then (COMPARE_OP_GTE, drop 2 s)
      else if take 2 s = ''<='' then (COMPARE_OP_LTE, drop 2 s)
      else if byte_at s 0 = CHR ''>'' then (COMPARE_OP_GT, drop 1 s)
      else if byte_at s 0 = CHR ''<'' then (COMPARE_OP_LT, drop 1 s)
      else if byte_at s 0 = CHR ''='' then (COMPARE_OP_EXACT, drop 1 s)
      else (COMPARE_OP_EXACT, s))"

definition parse_comparator_term :: "string \<Rightarrow> (CompareOp \<times> Semver) option" where
  "parse_comparator_term s =
     (case comparator_operator s of
        (oper, rest) \<Rightarrow> map_option (\<lambda>version. (oper, version)) (semver_parse rest))"

fun apply_comparator :: "SemverConstraint \<Rightarrow> CompareOp \<Rightarrow> Semver \<Rightarrow> SemverConstraint option" where
  "apply_comparator out COMPARE_OP_EXACT version =
     (if has_min out \<or> has_max out then None
      else Some (out\<lparr>has_min := True, has_max := True, min_version := version,
                    max_version := version, min_inclusive := True, max_inclusive := True\<rparr>))"
| "apply_comparator out COMPARE_OP_GTE version =
     (if has_min out then None
      else Some (out\<lparr>has_min := True, min_version := version, min_inclusive := True\<rparr>))"
| "apply_comparator out COMPARE_OP_GT version =
     (if has_min out then None
      else Some (out\<lparr>has_min := True, min_version := version, min_inclusive := False\<rparr>))"
| "apply_comparator out COMPARE_OP_LTE version =
     (if has_max out then None
      else Some (out\<lparr>has_max := True, max_version := version, max_inclusive := True\<rparr>))"
| "apply_comparator out COMPARE_OP_LT version =
     (if has_max out then None
      else Some (out\<lparr>has_max := True, max_version := version, max_inclusive := False\<rparr>))"

definition MAX_TERMS :: nat where
  "MAX_TERMS = 4"

lemma constraint_terms_shorter:
  assumes "dropWhile is_space cursor \<noteq> []"
  shows "length (drop 1 (dropWhile (\<lambda>c. \<not> is_space c) (dropWhile is_space cursor))) < length cursor"
proof -
  let ?s = "dropWhile is_space cursor"
  have "\<not> is_space (hd ?s)" using assms hd_dropWhile by blast
  then have "length (dropWhile (\<lambda>c. \<not> is_space c) ?s) < length ?s"
    using assms by (cases ?s) (auto intro: le_imp_less_Suc length_dropWhile_le)
  also have "\<dots> \<le> length cursor" by (rule length_dropWhile_le)
  finally show ?thesis by simp
qed

function constraint_terms ::
    "SemverConstraint \<Rightarrow> nat \<Rightarrow> string \<Rightarrow> (SemverConstraint \<times> nat) option" where
  "constraint_terms out term_count cursor =
     (let cursor = dropWhile is_space cursor
      in if cursor = [] then Some (out, term_count)
         else let word = takeWhile (\<lambda>c. \<not> is_space c) cursor;
                  cursor = dropWhile (\<lambda>c. \<not> is_space c) cursor
              in if term_count = MAX_TERMS then None
                 else (case parse_comparator_term word of
                         None \<Rightarrow> None
                       | Some (oper, version) \<Rightarrow>
                           (case apply_comparator out oper version of
                              None \<Rightarrow> None
                            | Some out \<Rightarrow>
                                constraint_terms out (Suc term_count) (drop 1 cursor))))"
  by pat_completeness auto
termination
  by (relation "measure (\<lambda>(out, term_count, cursor). length cursor)")
    (use constraint_terms_shorter in auto)

declare constraint_terms.simps [simp del]

definition semver_constraint_parse :: "string \<Rightarrow> SemverConstraint option" where
  "semver_constraint_parse s =
     (let s = dropWhile is_space s
      in if s = [] then None
         else if byte_at s 0 = CHR ''^'' \<or> byte_at s 0 = CHR ''~'' then
           (let caret = (byte_at s 0 = CHR ''^'')
            in case semver_parse (drop 1 s) of
                 None \<Rightarrow> None
               | Some version \<Rightarrow>
                   Some \<lparr>has_min = True, min_version = version, min_inclusive = True,
                     has_max = True,
                     max_version = (if caret then caret_upper_bound version
                                    else tilde_upper_bound version),
                     max_inclusive = False\<rparr>)
         else if length s \<ge> 256 then None
         else (case constraint_terms unconstrained 0 s of
                 None \<Rightarrow> None
               | Some (out, term_count) \<Rightarrow> (if term_count > 0 then Some out else None)))"

definition semver_satisfies :: "Semver \<Rightarrow> SemverConstraint \<Rightarrow> bool" where
  "semver_satisfies version constraint \<longleftrightarrow>
     (if prerelease version \<noteq> [] then False
      else if has_min constraint \<and>
        (let cmp = semver_compare version (min_version constraint)
         in cmp < 0 \<or> cmp = 0 \<and> \<not> min_inclusive constraint) then False
      else if has_max constraint \<and>
        (let cmp = semver_compare version (max_version constraint)
         in cmp > 0 \<or> cmp = 0 \<and> \<not> max_inclusive constraint) then False
      else True)"

definition intersect_min :: "SemverConstraint \<Rightarrow> SemverConstraint \<Rightarrow> SemverConstraint \<Rightarrow> SemverConstraint" where
  "intersect_min a b result =
     (if has_min a \<and> has_min b then
        (let cmp = semver_compare (min_version a) (min_version b)
         in if cmp > 0 then result\<lparr>has_min := True, min_version := min_version a,
                              min_inclusive := min_inclusive a\<rparr>
            else if cmp < 0 then result\<lparr>has_min := True, min_version := min_version b,
                              min_inclusive := min_inclusive b\<rparr>
            else result\<lparr>has_min := True, min_version := min_version a,
                              min_inclusive := min_inclusive a \<and> min_inclusive b\<rparr>)
      else if has_min a then result\<lparr>has_min := True, min_version := min_version a,
                              min_inclusive := min_inclusive a\<rparr>
      else if has_min b then result\<lparr>has_min := True, min_version := min_version b,
                              min_inclusive := min_inclusive b\<rparr>
      else result)"

definition intersect_max :: "SemverConstraint \<Rightarrow> SemverConstraint \<Rightarrow> SemverConstraint \<Rightarrow> SemverConstraint" where
  "intersect_max a b result =
     (if has_max a \<and> has_max b then
        (let cmp = semver_compare (max_version a) (max_version b)
         in if cmp < 0 then result\<lparr>has_max := True, max_version := max_version a,
                              max_inclusive := max_inclusive a\<rparr>
            else if cmp > 0 then result\<lparr>has_max := True, max_version := max_version b,
                              max_inclusive := max_inclusive b\<rparr>
            else result\<lparr>has_max := True, max_version := max_version a,
                              max_inclusive := max_inclusive a \<and> max_inclusive b\<rparr>)
      else if has_max a then result\<lparr>has_max := True, max_version := max_version a,
                              max_inclusive := max_inclusive a\<rparr>
      else if has_max b then result\<lparr>has_max := True, max_version := max_version b,
                              max_inclusive := max_inclusive b\<rparr>
      else result)"

definition semver_constraint_intersect ::
    "SemverConstraint \<Rightarrow> SemverConstraint \<Rightarrow> SemverConstraint option" where
  "semver_constraint_intersect a b =
     (let result = intersect_max a b (intersect_min a b unconstrained)
      in if has_min result \<and> has_max result \<and>
           (let cmp = semver_compare (min_version result) (max_version result)
            in cmp > 0 \<or> cmp = 0 \<and> \<not> (min_inclusive result \<and> max_inclusive result))
         then None else Some result)"

definition constraint_text :: "SemverConstraint \<Rightarrow> string \<Rightarrow> string \<Rightarrow> string" where
  "constraint_text c min_text max_text =
     (let lower = (if min_inclusive c then ''>='' else ''>'') @ min_text;
          upper = (if max_inclusive c then ''<='' else ''<'') @ max_text
      in if has_min c \<and> has_max c then lower @ '' '' @ upper
         else if has_min c then lower else upper)"

definition semver_constraint_format :: "SemverConstraint \<Rightarrow> nat \<Rightarrow> string option" where
  "semver_constraint_format c buffer_size =
     (if \<not> has_min c \<and> \<not> has_max c then (if buffer_size < 2 then None else Some ''*'')
      else if has_min c \<and> has_max c \<and> min_inclusive c \<and> max_inclusive c \<and>
        semver_compare (min_version c) (max_version c) = 0
      then semver_format (min_version c) buffer_size
      else (case (if has_min c then semver_format (min_version c) (SEMVER_MAX_IDENTIFIERS * 2)
                  else Some []) of
              None \<Rightarrow> None
            | Some min_text \<Rightarrow>
                (case (if has_max c then semver_format (max_version c) (SEMVER_MAX_IDENTIFIERS * 2)
                       else Some []) of
                   None \<Rightarrow> None
                 | Some max_text \<Rightarrow>
                     (let s = constraint_text c min_text max_text
                      in if length s < buffer_size then Some s else None))))"

section \<open>Specification\<close>

definition byte_cmp :: "char \<Rightarrow> char \<Rightarrow> int" where
  "byte_cmp a b = sgn (int (byte a) - int (byte b))"

text \<open>The rank of an identifier: numeric ones precede all others.\<close>

definition identifier_rank :: "string \<Rightarrow> int" where
  "identifier_rank a = (if is_all_digits a then 0 else 1)"

definition same_rank_cmp :: "string \<Rightarrow> string \<Rightarrow> int" where
  "same_rank_cmp a b =
     (if is_all_digits a then sgn (int (fst (strtoul (take 31 a))) - int (fst (strtoul (take 31 b))))
      else list_cmp byte_cmp a b)"

definition core_cmp :: "Semver \<Rightarrow> Semver \<Rightarrow> int" where
  "core_cmp a b = list_cmp (\<lambda>x y. sgn (x - y))
      [int (major a), int (minor a), int (patch a), if prerelease a = [] then 1 else 0]
      [int (major b), int (minor b), int (patch b), if prerelease b = [] then 1 else 0]"

text \<open>
  The grammar of semver.org, over the characters of a text and without the scanner's helpers: a
  numeric field, one identifier, and a run of identifiers separated by dots. In a prerelease
  (\<open>strict\<close>) an identifier of digits only has no leading zero.
\<close>

definition grammar_digits :: string where
  "grammar_digits = ''0123456789''"

definition grammar_letters :: string where
  "grammar_letters = ''ABCDEFGHIJKLMNOPQRSTUVWXYZabcdefghijklmnopqrstuvwxyz-''"

definition numeric_field :: "string \<Rightarrow> bool" where
  "numeric_field ds \<longleftrightarrow>
     ds \<noteq> [] \<and> set ds \<subseteq> set grammar_digits \<and> (ds = ''0'' \<or> hd ds \<noteq> CHR ''0'')"

definition valid_identifier :: "bool \<Rightarrow> string \<Rightarrow> bool" where
  "valid_identifier strict i \<longleftrightarrow>
     i \<noteq> [] \<and> set i \<subseteq> set grammar_digits \<union> set grammar_letters \<and>
     (strict \<and> set i \<subseteq> set grammar_digits \<longrightarrow> i = ''0'' \<or> hd i \<noteq> CHR ''0'')"

fun split_dots :: "string \<Rightarrow> string list" where
  "split_dots [] = [[]]"
| "split_dots (c # s) =
     (if c = CHR ''.'' then [] # split_dots s else (c # hd (split_dots s)) # tl (split_dots s))"

definition valid_run :: "bool \<Rightarrow> string \<Rightarrow> bool" where
  "valid_run strict s \<longleftrightarrow> length s < 256 \<and> list_all (valid_identifier strict) (split_dots s)"

definition wf_semver :: "Semver \<Rightarrow> bool" where
  "wf_semver v \<longleftrightarrow> major v \<le> ULONG_MAX \<and> minor v \<le> ULONG_MAX \<and> patch v \<le> ULONG_MAX \<and>
     (prerelease v = [] \<or> valid_run True (prerelease v)) \<and> (build v = [] \<or> valid_run False (build v))"

definition suffix_text :: "char \<Rightarrow> string \<Rightarrow> string" where
  "suffix_text mark s = (if s \<noteq> [] then mark # s else [])"

text \<open>
  The version a text denotes: an optional \<open>v\<close> or \<open>V\<close>, three numeric fields, and the two optional
  runs. A field beyond \<open>unsigned long\<close> denotes the largest one.
\<close>

definition denotes_version :: "string \<Rightarrow> Semver \<Rightarrow> bool" where
  "denotes_version s v \<longleftrightarrow>
     (\<exists>lead da db dc. lead \<in> {[], ''v'', ''V''} \<and>
        s = lead @ da @ ''.'' @ db @ ''.'' @ dc @
          suffix_text (CHR ''-'') (prerelease v) @ suffix_text (CHR ''+'') (build v) \<and>
        list_all numeric_field [da, db, dc] \<and>
        major v = min ULONG_MAX (decimal_val da) \<and> minor v = min ULONG_MAX (decimal_val db) \<and>
        patch v = min ULONG_MAX (decimal_val dc) \<and>
        (prerelease v = [] \<or> valid_run True (prerelease v)) \<and>
        (build v = [] \<or> valid_run False (build v)))"

text \<open>The two halves of a range, as the code's guards read them.\<close>

definition above_min :: "Semver \<Rightarrow> SemverConstraint \<Rightarrow> bool" where
  "above_min v c \<longleftrightarrow> (has_min c \<longrightarrow>
     (if min_inclusive c then semver_compare v (min_version c) \<ge> 0
      else semver_compare v (min_version c) > 0))"

definition below_max :: "Semver \<Rightarrow> SemverConstraint \<Rightarrow> bool" where
  "below_max v c \<longleftrightarrow> (has_max c \<longrightarrow>
     (if max_inclusive c then semver_compare v (max_version c) \<le> 0
      else semver_compare v (max_version c) < 0))"

definition same_leading :: "Semver \<Rightarrow> Semver \<Rightarrow> bool" where
  "same_leading v b \<longleftrightarrow>
     (if major b > 0 then major v = major b
      else if minor b > 0 then major v = 0 \<and> minor v = minor b
      else major v = 0 \<and> minor v = 0 \<and> patch v = patch b)"

fun operator_text :: "CompareOp \<Rightarrow> string" where
  "operator_text COMPARE_OP_EXACT = []"
| "operator_text COMPARE_OP_GTE = ''>=''"
| "operator_text COMPARE_OP_LTE = ''<=''"
| "operator_text COMPARE_OP_GT = ''>''"
| "operator_text COMPARE_OP_LT = ''<''"

definition range_word :: "string \<Rightarrow> bool" where
  "range_word w \<longleftrightarrow> w \<noteq> [] \<and> (\<forall>c \<in> set w. \<not> is_space c)"

definition wf_constraint :: "SemverConstraint \<Rightarrow> bool" where
  "wf_constraint c \<longleftrightarrow> (has_min c \<longrightarrow> wf_semver (min_version c)) \<and>
     (has_max c \<longrightarrow> wf_semver (max_version c)) \<and> (has_min c \<or> has_max c)"

section \<open>Precedence is a total preorder\<close>

lemma compare_ulong_sgn: "compare_unsigned_long a b = sgn (int a - int b)"
  by (simp add: compare_unsigned_long_def)

interpretation byte_cmp: three_way byte_cmp "\<lambda>_. True"
  unfolding byte_cmp_def by (rule three_way_sgn)

lemma byte_cmp_simps:
  "byte x < byte y \<Longrightarrow> byte_cmp x y = - 1" "byte y < byte x \<Longrightarrow> byte_cmp x y = 1" "byte_cmp x x = 0"
  by (simp_all add: byte_cmp_def)

lemma memcmp_list_cmp:
  "(if memcmp a b \<noteq> 0 then if memcmp a b < 0 then - 1 else 1
    else compare_unsigned_long (length a) (length b)) = list_cmp byte_cmp a b"
proof (induction a arbitrary: b)
  case Nil
  then show ?case by (cases b) (auto simp: compare_ulong_sgn)
next
  case (Cons x a)
  note ih = Cons.IH
  show ?case
  proof (cases b)
    case b: (Cons y b')
    consider "byte x < byte y" | "byte x > byte y" | "x = y"
      using byte_inject linorder_less_linear by metis
    then show ?thesis
    proof cases
      case 3
      then have "compare_unsigned_long (length (x # a)) (length (y # b')) =
          compare_unsigned_long (length a) (length b')" by (simp add: compare_unsigned_long_def)
      then show ?thesis using ih [of b'] 3 by (auto simp: b byte_cmp_simps split: if_splits)
    qed (simp_all add: b byte_cmp_simps)
  qed (simp add: compare_ulong_sgn)
qed

lemma compare_identifier_lex:
  "compare_prerelease_identifier a b =
    (if sgn (identifier_rank a - identifier_rank b) \<noteq> 0 then sgn (identifier_rank a - identifier_rank b)
     else same_rank_cmp a b)"
  unfolding compare_prerelease_identifier_def Let_def memcmp_list_cmp
  by (auto simp: identifier_rank_def same_rank_cmp_def compare_ulong_sgn)

interpretation bytes_cmp: three_way "list_cmp byte_cmp" "\<lambda>_. True"
  using three_way_key [OF three_way_list [OF byte_cmp.three_way_axioms], of "\<lambda>_. True" id]
  by (simp add: list.pred_True)

lemma same_rank_flip: "is_all_digits a = is_all_digits b \<Longrightarrow> same_rank_cmp b a = - same_rank_cmp a b"
  using bytes_cmp.cmp_flip [of a b] by (auto simp: same_rank_cmp_def sgn_if)

lemma same_rank_trans:
  assumes "is_all_digits a = is_all_digits b" "is_all_digits b = is_all_digits c"
    "same_rank_cmp a b \<le> 0" "same_rank_cmp b c \<le> 0"
  shows "same_rank_cmp a c \<le> 0"
  using assms bytes_cmp.cmp_le_trans [of a b c]
  by (auto simp: same_rank_cmp_def sgn_if split: if_splits)

lemma identifier_rank_eq: "sgn (identifier_rank a - identifier_rank b) = 0 \<longleftrightarrow> is_all_digits a = is_all_digits b"
  by (simp add: identifier_rank_def)

interpretation identifier_cmp: three_way compare_prerelease_identifier "\<lambda>_. True"
proof -
  have "three_way (\<lambda>a b. if sgn (identifier_rank a - identifier_rank b) \<noteq> 0
      then sgn (identifier_rank a - identifier_rank b) else same_rank_cmp a b) (\<lambda>_. True)"
    by (rule three_way_lex [OF three_way_sgn])
      (unfold identifier_rank_eq, (blast intro: same_rank_flip same_rank_trans)+)
  then show "three_way compare_prerelease_identifier (\<lambda>_. True)"
    by (simp only: compare_identifier_lex [abs_def])
qed

text \<open>The fields of a prerelease, and the field-wise comparison the loop computes.\<close>

function prerelease_fields :: "string \<Rightarrow> string list" where
  "prerelease_fields s = (if s = [] then [] else identifier_at s # prerelease_fields (past_identifier s))"
  by pat_completeness auto
termination
  by (relation "measure length") (auto intro: past_identifier_shorter)

declare prerelease_fields.simps [simp del]

lemma compare_prerelease_fields:
  "compare_prerelease a b = list_cmp compare_prerelease_identifier (prerelease_fields a) (prerelease_fields b)"
proof (induction a b rule: compare_prerelease.induct)
  case (1 a b)
  then show ?case
    by (subst compare_prerelease.simps, subst prerelease_fields.simps [of a],
        subst prerelease_fields.simps [of b]) (auto simp: Let_def)
qed

interpretation prerelease_cmp: three_way compare_prerelease "\<lambda>_. True"
  using three_way_key [OF three_way_list [OF identifier_cmp.three_way_axioms], of "\<lambda>_. True" prerelease_fields]
  by (simp add: compare_prerelease_fields [abs_def] list.pred_True)

lemma semver_compare_core:
  "semver_compare a b =
    (if core_cmp a b \<noteq> 0 then core_cmp a b else compare_prerelease (prerelease a) (prerelease b))"
  by (auto simp: semver_compare_def core_cmp_def Let_def compare_ulong_sgn compare_prerelease.simps)

interpretation core_cmp: three_way core_cmp "\<lambda>_. True"
  unfolding core_cmp_def
  by (rule three_way_key [OF three_way_list [OF three_way_sgn [where f = id and d = "\<lambda>_. True", simplified]]])
    simp

interpretation version_cmp: three_way semver_compare "\<lambda>_. True"
proof -
  have "three_way (\<lambda>a b. if core_cmp a b \<noteq> 0 then core_cmp a b
      else compare_prerelease (prerelease a) (prerelease b)) (\<lambda>_. True)"
    by (rule three_way_lex [OF core_cmp.three_way_axioms])
      (use prerelease_cmp.cmp_flip prerelease_cmp.cmp_le_trans in blast)+
  then show "three_way semver_compare (\<lambda>_. True)"
    by (simp only: semver_compare_core [abs_def])
qed

section \<open>Parsing inverts formatting\<close>

lemma format_u_decimal:
  assumes "\<forall>c \<in> set ds. is_digit c" "ds \<noteq> []" "hd ds = CHR ''0'' \<Longrightarrow> ds = ''0''"
  shows "format_u (decimal_val ds) = ds"
  using assms
proof (induction ds rule: rev_induct)
  case (snoc d ds)
  have d: "digit_char (of_char d - 48) = d" "of_char d - (48 :: nat) < 10"
    using snoc.prems(1) by (auto simp: is_digit_def digit_char_def)
  show ?case
  proof (cases "ds = []")
    case True
    then show ?thesis using d by (simp add: decimal_val_single format_u.simps)
  next
    case False
    have hd: "hd ds \<noteq> CHR ''0''" using snoc.prems(3) False by auto
    then have ih: "format_u (decimal_val ds) = ds" using snoc.IH snoc.prems(1) False by auto
    have "decimal_val ds \<noteq> 0"
    proof
      assume "decimal_val ds = 0"
      moreover have "format_u 0 = ''0''" by code_simp
      ultimately have "ds = ''0''" using ih by simp
      then show False using hd by simp
    qed
    then show ?thesis
      using ih d by (subst format_u.simps) (simp add: decimal_val_append decimal_val_single)
  qed
qed simp

text \<open>The character classes of the grammar are those of the code.\<close>

lemma char_table: "c \<in> set (map char_of [m..<n]) \<longleftrightarrow> m \<le> byte c \<and> byte c < n" if "n \<le> 256" for m n :: nat
proof
  assume "m \<le> byte c \<and> byte c < n"
  moreover have "c = char_of (byte c)" by (simp add: byte_def)
  ultimately show "c \<in> set (map char_of [m..<n])" by (simp only: set_map set_upt) (blast intro: atLeastLessThan_iff [THEN iffD2])
next
  assume "c \<in> set (map char_of [m..<n])"
  then show "m \<le> byte c \<and> byte c < n" using that by (auto simp: byte_def)
qed

lemma digits_iff: "c \<in> set grammar_digits \<longleftrightarrow> is_digit c"
proof -
  have e: "grammar_digits = map char_of [48..<58::nat]" by code_simp
  have "c \<in> set grammar_digits \<longleftrightarrow> 48 \<le> byte c \<and> byte c < 58"
    unfolding e by (rule char_table) simp
  then show ?thesis by (auto simp: is_digit_def byte_def)
qed

lemma letters_iff: "c \<in> set grammar_letters \<longleftrightarrow> is_alpha c \<or> c = CHR ''-''"
proof -
  have e: "grammar_letters = map char_of [65..<91::nat] @ map char_of [97..<123::nat] @ ''-''" by code_simp
  have "c \<in> set grammar_letters \<longleftrightarrow>
      (65 \<le> byte c \<and> byte c < 91) \<or> (97 \<le> byte c \<and> byte c < 123) \<or> c = CHR ''-''"
    unfolding e set_append Un_iff
    using char_table [of 91 c 65] char_table [of 123 c 97] by (simp del: set_map set_upt upt_Suc upt_conv_Cons_Cons upt_rec_numeral list.map)
  then show ?thesis by (auto simp: is_alpha_def)
qed

lemma identifier_char_iff:
  "c \<in> set grammar_digits \<union> set grammar_letters \<longleftrightarrow> is_identifier_char c"
  unfolding Un_iff digits_iff letters_iff is_identifier_char_def is_alnum_def by blast

lemma parse_numeric_field_SomeD:
  assumes "parse_numeric_field s = Some (n, rest)"
  obtains ds where "s = ds @ rest" "\<forall>c \<in> set ds. is_digit c" "ds \<noteq> []"
    "hd ds = CHR ''0'' \<Longrightarrow> ds = ''0''" "n = min ULONG_MAX (decimal_val ds)"
    "rest = [] \<or> \<not> is_digit (hd rest)" "numeric_field ds"
proof
  let ?ds = "takeWhile is_digit s"
  have b: "is_digit (byte_at s 0)" "\<not> (byte_at s 0 = CHR ''0'' \<and> is_digit (byte_at s 1))"
    and n: "n = min ULONG_MAX (decimal_val ?ds)" "rest = dropWhile is_digit s"
    using assms by (auto simp: parse_numeric_field_def strtoul_def split: if_splits)
  have ne: "s \<noteq> []" using b(1) by (auto simp: byte_at_def is_digit_def)
  then obtain c s' where s: "s = c # s'" by (cases s) auto
  show "s = ?ds @ rest" "n = min ULONG_MAX (decimal_val ?ds)" using n by simp_all
  show "\<forall>c \<in> set ?ds. is_digit c" by (meson set_takeWhileD)
  show "?ds \<noteq> []" using b s by simp
  show zero: "?ds = ''0''" if "hd ?ds = CHR ''0''"
    using that b s by (cases s') (auto simp: byte_at_def split: if_splits)
  show "numeric_field ?ds"
    using zero b s by (auto simp: numeric_field_def digits_iff [symmetric] dest: set_takeWhileD)
  show "rest = [] \<or> \<not> is_digit (hd rest)" using n(2) hd_dropWhile by blast
qed

lemma parse_numeric_field_digits:
  assumes "numeric_field ds" "rest = [] \<or> \<not> is_digit (hd rest)"
  shows "parse_numeric_field (ds @ rest) = Some (min ULONG_MAX (decimal_val ds), rest)"
proof -
  have f: "\<forall>c \<in> set ds. is_digit c" "ds \<noteq> []" "ds = ''0'' \<or> hd ds \<noteq> CHR ''0''"
    using assms(1) by (auto simp: numeric_field_def digits_iff)
  have td: "takeWhile is_digit (ds @ rest) = ds" "dropWhile is_digit (ds @ rest) = rest"
    using takeWhile_digits_append [OF f(1) assms(2)] by auto
  have st: "strtoul (ds @ rest) = (min ULONG_MAX (decimal_val ds), rest)"
    unfolding strtoul_def td by simp
  obtain c s where cs: "ds = c # s" using f(2) by (cases ds) auto
  have "c = CHR ''0'' \<Longrightarrow> s = []" using f(3) cs by simp
  moreover have "is_digit c" using f(1) cs by simp
  moreover have "\<not> is_digit (byte_at rest 0)"
    using assms(2) by (cases rest) (auto simp: byte_at_def is_digit_def)
  ultimately show ?thesis using cs st by (auto simp: parse_numeric_field_def)
qed

lemma format_u_numeric_field: "numeric_field (format_u n)" "decimal_val (format_u n) = n"
  using format_u_props(1,2,4) [of n] format_u_no_leading_zero [of n]
  by (auto simp: numeric_field_def digits_iff)

text \<open>Identifier runs: the scan is independent of the stop character it does not meet.\<close>

lemma identifier_loop_SomeD:
  assumes "identifier_loop st chk ident run cur = Some (i, r, rest)"
  obtains s where "cur = s @ rest" "r = run @ s" "rest = [] \<or> hd rest = st"
    "c_string s \<Longrightarrow> identifier_loop NUL chk ident run s = Some (i, r, [])"
proof -
  have "\<exists>s. cur = s @ rest \<and> r = run @ s \<and> (rest = [] \<or> hd rest = st) \<and>
    (c_string s \<longrightarrow> identifier_loop NUL chk ident run s = Some (i, r, []))"
    using assms
  proof (induction st chk ident run cur rule: identifier_loop.induct)
    case (2 st chk ident run c cur)
    show ?case
    proof (cases "c = st")
      case True
      then show ?thesis using 2 by (intro exI [of _ "[]"]) auto
    next
      case False
      then obtain s where "cur = s @ rest" "r = run @ [c] @ s" "rest = [] \<or> hd rest = st"
        "c_string s \<longrightarrow> identifier_loop NUL chk (if c = CHR ''.'' then [] else ident @ [c])
           (run @ [c]) s = Some (i, r, [])"
        "c = CHR ''.'' \<longrightarrow> ident \<noteq> [] \<and> \<not> (chk \<and> has_leading_zero ident)"
        "c \<noteq> CHR ''.'' \<longrightarrow> is_identifier_char c"
        using 2 by (auto split: if_splits)
      then show ?thesis by (intro exI [of _ "c # s"]) auto
    qed
  qed simp
  then show ?thesis using that by blast
qed

lemma identifier_loop_extend:
  assumes "identifier_loop NUL chk ident run s = Some (i, r, [])" "c_string s" "st \<notin> set s"
    "rest = [] \<or> hd rest = st"
  shows "identifier_loop st chk ident run (s @ rest) = Some (i, r, rest)"
  using assms
proof (induction s arbitrary: ident run)
  case Nil
  then show ?case by (cases rest) auto
qed (auto split: if_splits)

lemma identifier_loop_chars:
  assumes "identifier_loop NUL chk ident run s = Some (i, r, [])" "c_string s" "c \<in> set s"
  shows "c = CHR ''.'' \<or> is_identifier_char c"
  using assms by (induction s arbitrary: ident run) (auto split: if_splits)

lemma split_dots_not_Nil [simp]: "split_dots s \<noteq> []"
  by (cases s) auto

lemma valid_identifier_code:
  "valid_identifier chk i \<longleftrightarrow>
     i \<noteq> [] \<and> list_all is_identifier_char i \<and> \<not> (chk \<and> has_leading_zero i)"
proof (cases i)
  case (Cons c i')
  have "i = ''0'' \<or> hd i \<noteq> CHR ''0'' \<longleftrightarrow> \<not> (length i > 1 \<and> byte_at i 0 = CHR ''0'')"
    using Cons by auto
  then show ?thesis
    using identifier_char_iff digits_iff Cons
    by (auto simp: valid_identifier_def has_leading_zero_def is_all_digits_def list_all_iff subset_iff)
qed (simp add: valid_identifier_def)

text \<open>The scan, with the identifier read so far as the start of the first field.\<close>

lemma identifier_loop_fields:
  assumes "c_string s"
  shows "identifier_loop NUL chk ident run s =
    (let fs = (ident @ hd (split_dots s)) # tl (split_dots s)
     in if list_all (list_all is_identifier_char) (split_dots s) \<and>
           list_all (\<lambda>i. i \<noteq> [] \<and> \<not> (chk \<and> has_leading_zero i)) (butlast fs)
        then Some (last fs, run @ s, []) else None)"
  using assms
proof (induction s arbitrary: ident run)
  case (Cons c s)
  obtain f fs where fs: "split_dots s = f # fs" by (cases "split_dots s") auto
  have c: "c \<noteq> NUL" "c_string s" using Cons.prems by (auto simp: c_string_def)
  show ?case using c Cons.IH [OF c(2)] fs by (auto simp: Let_def)
qed simp

lemma valid_run_copied:
  "valid_run chk s \<longleftrightarrow> c_string s \<and> copy_identifier_run NUL chk SEMVER_MAX_IDENTIFIERS s = Some (s, [])"
proof -
  let ?ok = "\<lambda>i. i \<noteq> [] \<and> \<not> (chk \<and> has_leading_zero i)"
  have split: "list_all P xs \<longleftrightarrow> list_all P (butlast xs) \<and> P (last xs)" if "xs \<noteq> []" for P and xs :: "string list"
    using that by (induction xs) auto
  have chars: "c_string s" if "list_all (list_all is_identifier_char) (split_dots s)" for s
    using that
  proof (induction s)
    case (Cons c s)
    obtain f fs where "split_dots s = f # fs" by (cases "split_dots s") auto
    then show ?case
      using Cons by (auto simp: c_string_def is_identifier_char_def ctype_eval split: if_splits)
  qed simp
  have all: "valid_run chk s \<longleftrightarrow> length s < 256 \<and> list_all (list_all is_identifier_char) (split_dots s) \<and>
      list_all ?ok (split_dots s)"
    by (auto simp: valid_run_def list_all_iff valid_identifier_code)
  have ne: "list_all ?ok (split_dots s) \<Longrightarrow> s \<noteq> []" by auto
  have hd_tl: "hd (split_dots s) # tl (split_dots s) = split_dots s" by simp
  show ?thesis
    using all chars ne split [OF split_dots_not_Nil, of ?ok s]
    by (auto simp: copy_identifier_run_def identifier_loop_fields Let_def hd_tl SEMVER_MAX_IDENTIFIERS_def
        split: if_splits)
qed

lemma copy_identifier_run_SomeD:
  assumes "copy_identifier_run st chk SEMVER_MAX_IDENTIFIERS cur = Some (run, rest)" "c_string cur"
  shows "cur = run @ rest" "valid_run chk run" "rest = [] \<or> hd rest = st"
proof -
  obtain i where i: "identifier_loop st chk [] [] cur = Some (i, run, rest)"
    "length i \<noteq> 0" "\<not> (chk \<and> has_leading_zero i)" "length run \<noteq> 0" "length run < SEMVER_MAX_IDENTIFIERS"
    using assms(1) by (auto simp: copy_identifier_run_def split: option.splits if_splits)
  from identifier_loop_SomeD [OF i(1)] obtain s where s: "cur = s @ rest" "run = s"
    "rest = [] \<or> hd rest = st" "c_string s \<Longrightarrow> identifier_loop NUL chk [] [] s = Some (i, run, [])"
    by (metis append_Nil)
  then show "cur = run @ rest" "rest = [] \<or> hd rest = st" by auto
  show "valid_run chk run"
    using s i assms(2) by (auto simp: valid_run_copied copy_identifier_run_def)
qed

lemma valid_run_copy:
  assumes "valid_run chk s" "st \<in> {CHR ''+'', NUL}" "rest = [] \<or> hd rest = st"
  shows "copy_identifier_run st chk SEMVER_MAX_IDENTIFIERS (s @ rest) = Some (s, rest)" "s \<noteq> []"
    "CHR ''+'' \<notin> set s"
proof -
  obtain i where i: "identifier_loop NUL chk [] [] s = Some (i, s, [])" "c_string s"
    "length i \<noteq> 0" "\<not> (chk \<and> has_leading_zero i)" "length s \<noteq> 0" "length s < SEMVER_MAX_IDENTIFIERS"
    using assms(1) by (auto simp: valid_run_copied copy_identifier_run_def split: option.splits if_splits)
  show plus: "CHR ''+'' \<notin> set s"
    using identifier_loop_chars [OF i(1,2), of "CHR ''+''"]
    by (auto simp: is_identifier_char_def is_alnum_def is_alpha_def is_digit_def byte_def)
  have "st \<notin> set s" using plus i(2) assms(2) by (auto simp: c_string_def)
  from identifier_loop_extend [OF i(1,2) this assms(3)]
  show "copy_identifier_run st chk SEMVER_MAX_IDENTIFIERS (s @ rest) = Some (s, rest)"
    using i by (simp add: copy_identifier_run_def)
  show "s \<noteq> []" using i by auto
qed

lemma parse_suffix_SomeD:
  assumes "parse_suffix mark st chk cur = Some (s, rest)" "c_string cur" "mark \<noteq> NUL"
  shows "cur = suffix_text mark s @ rest" "s = [] \<or> valid_run chk s" "s \<noteq> [] \<Longrightarrow> rest = [] \<or> hd rest = st"
proof -
  have "cur = suffix_text mark s @ rest \<and> (s = [] \<or> valid_run chk s) \<and> (s \<noteq> [] \<longrightarrow> rest = [] \<or> hd rest = st)"
  proof (cases "byte_at cur 0 = mark")
    case True
    then obtain cur' where cur: "cur = mark # cur'"
      using assms(3) by (cases cur) (auto simp: byte_at_def)
    then have "copy_identifier_run st chk SEMVER_MAX_IDENTIFIERS cur' = Some (s, rest)"
      using assms(1) by (simp add: parse_suffix_def)
    from copy_identifier_run_SomeD [OF this] show ?thesis
      using cur assms(2) valid_run_copy(2) [of chk s NUL "[]"] by (auto simp: suffix_text_def)
  next
    case False
    then show ?thesis using assms(1) by (simp add: parse_suffix_def suffix_text_def)
  qed
  then show "cur = suffix_text mark s @ rest" "s = [] \<or> valid_run chk s"
    "s \<noteq> [] \<Longrightarrow> rest = [] \<or> hd rest = st" by blast+
qed

lemma parse_suffix_text:
  assumes "s = [] \<or> valid_run chk s" "st \<in> {CHR ''+'', NUL}" "rest = [] \<or> hd rest = st"
    "byte_at rest 0 = mark \<Longrightarrow> s \<noteq> []"
  shows "parse_suffix mark st chk (suffix_text mark s @ rest) = Some (s, rest)"
  using assms valid_run_copy(1) [of chk s st rest]
  by (cases "s = []") (auto simp: parse_suffix_def suffix_text_def)

lemma semver_text_suffixes:
  "semver_text v = format_u (major v) @ ''.'' @ format_u (minor v) @ ''.'' @ format_u (patch v) @
     suffix_text (CHR ''-'') (prerelease v) @ suffix_text (CHR ''+'') (build v)"
  by (simp add: semver_text_def suffix_text_def)

lemma parse_core_digits:
  assumes "list_all numeric_field [da, db, dc]" "rest = [] \<or> \<not> is_digit (hd rest)"
  shows "parse_core (da @ ''.'' @ db @ ''.'' @ dc @ rest) =
    Some (min ULONG_MAX (decimal_val da), min ULONG_MAX (decimal_val db), min ULONG_MAX (decimal_val dc), rest)"
proof -
  have "\<not> is_digit (CHR ''.'')" by (simp add: is_digit_def)
  then show ?thesis
    using assms by (simp add: parse_core_def parse_numeric_field_digits expect_dot_def)
qed

lemma suffix_text_not_digit:
  "suffix_text (CHR ''-'') a @ suffix_text (CHR ''+'') b = [] \<or>
   \<not> is_digit (hd (suffix_text (CHR ''-'') a @ suffix_text (CHR ''+'') b))"
  by (auto simp: suffix_text_def is_digit_def)

lemma format_u_hd: "\<exists>c s. format_u n = c # s \<and> is_digit c"
  using format_u_props(2,4) [of n] by (cases "format_u n") auto

lemma denotes_version_parse:
  assumes "denotes_version s v"
  shows "semver_parse s = Some v"
proof -
  let ?pre = "suffix_text (CHR ''-'') (prerelease v)" and ?bld = "suffix_text (CHR ''+'') (build v)"
  obtain lead da db dc where d: "lead \<in> {[], ''v'', ''V''}"
    "s = lead @ da @ ''.'' @ db @ ''.'' @ dc @ ?pre @ ?bld" "list_all numeric_field [da, db, dc]"
    "major v = min ULONG_MAX (decimal_val da)" "minor v = min ULONG_MAX (decimal_val db)"
    "patch v = min ULONG_MAX (decimal_val dc)"
    and runs: "prerelease v = [] \<or> valid_run True (prerelease v)" "build v = [] \<or> valid_run False (build v)"
    using assms unfolding denotes_version_def by blast
  have pre: "parse_suffix (CHR ''-'') (CHR ''+'') True (?pre @ ?bld) = Some (prerelease v, ?bld)"
    using runs by (intro parse_suffix_text) (auto simp: suffix_text_def byte_at_def split: if_splits)
  have bld: "parse_suffix (CHR ''+'') NUL False ?bld = Some (build v, [])"
    using parse_suffix_text [of "build v" False NUL "[]" "CHR ''+''"] runs by (simp add: byte_at_def)
  obtain c s' where c: "da = c # s'" "is_digit c"
    using d(3) by (cases da) (auto simp: numeric_field_def digits_iff)
  then have "c \<noteq> CHR ''v''" "c \<noteq> CHR ''V''" by (auto simp: is_digit_def)
  then have lead: "(if byte_at s 0 = CHR ''v'' \<or> byte_at s 0 = CHR ''V'' then drop 1 s else s) =
      da @ ''.'' @ db @ ''.'' @ dc @ ?pre @ ?bld"
    using d(1,2) c by auto
  show ?thesis
    unfolding semver_parse_def lead Let_def parse_core_digits [OF d(3) suffix_text_not_digit]
    using d(4-6) by (simp add: pre bld)
qed

lemma text_denotes_version:
  assumes "wf_semver v" "lead \<in> {[], ''v'', ''V''}"
  shows "denotes_version (lead @ semver_text v) v"
  unfolding denotes_version_def
  using assms
  by (intro exI [of _ lead] exI [of _ "format_u (major v)"] exI [of _ "format_u (minor v)"]
      exI [of _ "format_u (patch v)"])
    (simp add: semver_text_suffixes format_u_numeric_field wf_semver_def)

lemma semver_parse_texts:
  assumes "wf_semver v"
  shows "semver_parse (semver_text v) = Some v" "semver_parse (CHR ''v'' # semver_text v) = Some v"
    "semver_parse (CHR ''V'' # semver_text v) = Some v"
  using text_denotes_version [OF assms, THEN denotes_version_parse, of "[]"]
    text_denotes_version [OF assms, THEN denotes_version_parse, of "''v''"]
    text_denotes_version [OF assms, THEN denotes_version_parse, of "''V''"] by simp_all

lemma parse_core_SomeD:
  assumes "parse_core s = Some (a, b, c, rest)"
  obtains da db dc where "s = da @ ''.'' @ db @ ''.'' @ dc @ rest"
    "a = min ULONG_MAX (decimal_val da)" "b = min ULONG_MAX (decimal_val db)"
    "c = min ULONG_MAX (decimal_val dc)"
    "a < ULONG_MAX \<Longrightarrow> format_u a = da" "b < ULONG_MAX \<Longrightarrow> format_u b = db"
    "c < ULONG_MAX \<Longrightarrow> format_u c = dc" "list_all numeric_field [da, db, dc]"
proof -
  have dot: "expect_dot x = Some y \<Longrightarrow> x = ''.'' @ y" for x y
    by (cases x) (auto simp: expect_dot_def byte_at_def split: if_splits)
  obtain r1 r2 r3 r4 where p: "parse_numeric_field s = Some (a, r1)" "r1 = ''.'' @ r2"
    "parse_numeric_field r2 = Some (b, r3)" "r3 = ''.'' @ r4" "parse_numeric_field r4 = Some (c, rest)"
    using assms by (auto simp: parse_core_def split: option.splits dest!: dot)
  have fmt: "n < ULONG_MAX \<Longrightarrow> n = min ULONG_MAX (decimal_val ds) \<Longrightarrow> \<forall>c \<in> set ds. is_digit c \<Longrightarrow>
      ds \<noteq> [] \<Longrightarrow> (hd ds = CHR ''0'' \<Longrightarrow> ds = ''0'') \<Longrightarrow> format_u n = ds" for n ds
    using format_u_decimal [of ds] by (auto simp: min_def split: if_splits)
  from p(1) obtain da where da: "s = da @ r1" "a = min ULONG_MAX (decimal_val da)"
    "a < ULONG_MAX \<Longrightarrow> format_u a = da" "numeric_field da" using fmt by (elim parse_numeric_field_SomeD) blast
  from p(3) obtain db where db: "r2 = db @ r3" "b = min ULONG_MAX (decimal_val db)"
    "b < ULONG_MAX \<Longrightarrow> format_u b = db" "numeric_field db" using fmt by (elim parse_numeric_field_SomeD) blast
  from p(5) obtain dc where dc: "r4 = dc @ rest" "c = min ULONG_MAX (decimal_val dc)"
    "c < ULONG_MAX \<Longrightarrow> format_u c = dc" "numeric_field dc" using fmt by (elim parse_numeric_field_SomeD) blast
  show ?thesis using that [of da db dc] da db dc p by simp
qed

lemma semver_parse_SomeD:
  assumes "semver_parse s = Some v" "c_string s"
  shows "wf_semver v" "denotes_version s v"
    "major v < ULONG_MAX \<Longrightarrow> minor v < ULONG_MAX \<Longrightarrow> patch v < ULONG_MAX \<Longrightarrow>
     s \<in> {semver_text v, CHR ''v'' # semver_text v, CHR ''V'' # semver_text v}"
proof -
  define cur where "cur = (if byte_at s 0 = CHR ''v'' \<or> byte_at s 0 = CHR ''V'' then drop 1 s else s)"
  have s: "s \<in> {cur, CHR ''v'' # cur, CHR ''V'' # cur}"
    by (cases s) (auto simp: cur_def byte_at_def split: if_splits)
  have cs: "c_string cur" using assms(2) s by auto
  obtain r1 r2 where p: "parse_core cur = Some (major v, minor v, patch v, r1)"
    "parse_suffix (CHR ''-'') (CHR ''+'') True r1 = Some (prerelease v, r2)"
    "parse_suffix (CHR ''+'') NUL False r2 = Some (build v, [])"
    using assms(1) unfolding semver_parse_def Let_def cur_def [symmetric]
    by (auto split: option.splits if_splits)
  from p(1) obtain da db dc where d: "cur = da @ ''.'' @ db @ ''.'' @ dc @ r1"
    "major v = min ULONG_MAX (decimal_val da)" "minor v = min ULONG_MAX (decimal_val db)"
    "patch v = min ULONG_MAX (decimal_val dc)"
    "major v < ULONG_MAX \<Longrightarrow> format_u (major v) = da" "minor v < ULONG_MAX \<Longrightarrow> format_u (minor v) = db"
    "patch v < ULONG_MAX \<Longrightarrow> format_u (patch v) = dc" "list_all numeric_field [da, db, dc]"
    by (rule parse_core_SomeD) blast
  have c1: "c_string r1" using cs d(1) by simp
  note q1 = parse_suffix_SomeD [OF p(2) c1, simplified]
  have c2: "c_string r2" using c1 q1(1) by simp
  note q2 = parse_suffix_SomeD [OF p(3) c2, simplified]
  show "wf_semver v" using d q1 q2 by (simp add: wf_semver_def)
  have "\<exists>lead \<in> {[], ''v'', ''V''}. s = lead @ cur" using s by simp
  then obtain lead where lead: "lead \<in> {[], ''v'', ''V''}" "s = lead @ cur" by blast
  have "s = lead @ da @ ''.'' @ db @ ''.'' @ dc @
      suffix_text (CHR ''-'') (prerelease v) @ suffix_text (CHR ''+'') (build v)"
    using lead(2) d(1) q1(1) q2(1) by (simp only: append_Nil2)
  then show "denotes_version s v"
    unfolding denotes_version_def using lead(1) d(2-4,8) q1(2) q2(2) by blast
  assume "major v < ULONG_MAX" "minor v < ULONG_MAX" "patch v < ULONG_MAX"
  then have "cur = semver_text v"
    using d q1(1) q2(1) by (simp add: semver_text_suffixes)
  then show "s \<in> {semver_text v, CHR ''v'' # semver_text v, CHR ''V'' # semver_text v}" using s by simp
qed

section \<open>Ranges\<close>

lemma satisfies_range:
  "semver_satisfies v c \<longleftrightarrow> prerelease v = [] \<and> above_min v c \<and> below_max v c"
  by (auto simp: semver_satisfies_def above_min_def below_max_def Let_def)

lemma above_min_intersect:
  "above_min v (intersect_min a b unconstrained) \<longleftrightarrow> above_min v a \<and> above_min v b"
proof -
  consider "\<not> has_min a" | "\<not> has_min b" | (both) "has_min a" "has_min b" by blast
  then show ?thesis
  proof cases
    case both
    let ?a = "min_version a" and ?b = "min_version b"
    have f: "semver_compare ?b ?a = - semver_compare ?a ?b" "semver_compare ?a v = - semver_compare v ?a"
      "semver_compare ?b v = - semver_compare v ?b"
      using version_cmp.cmp_flip by blast+
    consider "semver_compare ?a ?b > 0" | "semver_compare ?a ?b < 0" | "semver_compare ?a ?b = 0"
      by linarith
    then show ?thesis
    proof cases
      case 1
      then have "semver_compare ?a v \<le> 0 \<Longrightarrow> semver_compare ?b v < 0"
        using f version_cmp.cmp_less_le_trans [of ?b ?a v] by simp
      then show ?thesis using both 1 f by (auto simp: above_min_def intersect_min_def Let_def)
    next
      case 2
      then have "semver_compare ?b v \<le> 0 \<Longrightarrow> semver_compare ?a v < 0"
        using f version_cmp.cmp_less_le_trans [of ?a ?b v] by simp
      then show ?thesis using both 2 f by (auto simp: above_min_def intersect_min_def Let_def)
    next
      case 3
      then have "semver_compare ?a v \<le> 0 \<longleftrightarrow> semver_compare ?b v \<le> 0"
        "semver_compare ?a v < 0 \<longleftrightarrow> semver_compare ?b v < 0"
        using version_cmp.cmp_eq_left [of ?a ?b v] by simp_all
      then show ?thesis using both 3 f by (auto simp: above_min_def intersect_min_def Let_def)
    qed
  qed (auto simp: above_min_def intersect_min_def unconstrained_def Let_def)
qed

lemma below_max_intersect:
  "below_max v (intersect_max a b r) \<longleftrightarrow> below_max v a \<and> below_max v b" if "\<not> has_max r"
proof -
  consider "\<not> has_max a" | "\<not> has_max b" | (both) "has_max a" "has_max b" by blast
  then show ?thesis
  proof cases
    case both
    let ?a = "max_version a" and ?b = "max_version b"
    have f: "semver_compare ?b ?a = - semver_compare ?a ?b" "semver_compare ?a v = - semver_compare v ?a"
      "semver_compare ?b v = - semver_compare v ?b"
      using version_cmp.cmp_flip by blast+
    consider "semver_compare ?a ?b < 0" | "semver_compare ?a ?b > 0" | "semver_compare ?a ?b = 0"
      by linarith
    then show ?thesis
    proof cases
      case 1
      then have "semver_compare v ?a \<le> 0 \<Longrightarrow> semver_compare v ?b < 0"
        using version_cmp.cmp_le_less_trans [of v ?a ?b] by simp
      then show ?thesis using both 1 by (auto simp: below_max_def intersect_max_def Let_def)
    next
      case 2
      then have "semver_compare v ?b \<le> 0 \<Longrightarrow> semver_compare v ?a < 0"
        using f version_cmp.cmp_le_less_trans [of v ?b ?a] by simp
      then show ?thesis using both 2 by (auto simp: below_max_def intersect_max_def Let_def)
    next
      case 3
      then have "semver_compare ?a v \<le> 0 \<longleftrightarrow> semver_compare ?b v \<le> 0"
        "semver_compare ?a v < 0 \<longleftrightarrow> semver_compare ?b v < 0"
        using version_cmp.cmp_eq_left [of ?a ?b v] by simp_all
      then show ?thesis using both 3 f by (auto simp: below_max_def intersect_max_def Let_def)
    qed
  qed (use that in \<open>auto simp: below_max_def intersect_max_def Let_def\<close>)
qed

lemma intersect_fields:
  "above_min v (intersect_max a b r) = above_min v r" "has_max (intersect_min a b r) = has_max r"
  by (auto simp: above_min_def intersect_max_def intersect_min_def Let_def)

lemma intersect_satisfies:
  "semver_satisfies v (intersect_max a b (intersect_min a b unconstrained)) \<longleftrightarrow>
   semver_satisfies v a \<and> semver_satisfies v b"
  using above_min_intersect [of v a b] below_max_intersect [of "intersect_min a b unconstrained" v a b]
  by (auto simp: satisfies_range intersect_fields unconstrained_def)

text \<open>A range whose bounds cross contains nothing.\<close>

lemma crossed_empty:
  assumes "has_min c" "has_max c" "semver_compare (min_version c) (max_version c) > 0 \<or>
    semver_compare (min_version c) (max_version c) = 0 \<and> \<not> (min_inclusive c \<and> max_inclusive c)"
  shows "\<not> semver_satisfies v c"
proof
  assume "semver_satisfies v c"
  then have ab: "above_min v c" "below_max v c" by (auto simp: satisfies_range)
  let ?a = "min_version c" and ?b = "max_version c"
  have f: "semver_compare ?a v = - semver_compare v ?a" using version_cmp.cmp_flip by blast
  have le: "semver_compare ?a v \<le> 0" "semver_compare v ?b \<le> 0"
    using ab assms f by (auto simp: above_min_def below_max_def split: if_splits)
  then have z: "semver_compare ?a ?b \<le> 0" using version_cmp.cmp_le_trans by blast
  then have nb: "\<not> (min_inclusive c \<and> max_inclusive c)" using assms by linarith
  then have "semver_compare ?a v < 0 \<or> semver_compare v ?b < 0"
    using ab assms f by (auto simp: above_min_def below_max_def)
  then have "semver_compare ?a ?b < 0"
    using le version_cmp.cmp_less_le_trans [of ?a v ?b] version_cmp.cmp_le_less_trans [of ?a v ?b] by blast
  then show False using assms by linarith
qed

subsection \<open>Caret and tilde\<close>

lemma compare_release_less:
  assumes "prerelease v = []" "prerelease w = []"
  shows "semver_compare v w < 0 \<longleftrightarrow> major v < major w \<or> major v = major w \<and>
    (minor v < minor w \<or> minor v = minor w \<and> patch v < patch w)"
  using assms by (auto simp: semver_compare_def Let_def compare_unsigned_long_def)

lemma compare_ge_fields:
  assumes "semver_compare v w \<ge> 0"
  shows "major v > major w \<or> major v = major w \<and>
    (minor v > minor w \<or> minor v = minor w \<and> patch v \<ge> patch w)"
  using assms by (auto simp: semver_compare_def Let_def compare_unsigned_long_def split: if_splits)

lemma u64_succ: "n < ULONG_MAX \<Longrightarrow> u64 (n + 1) = n + 1"
  by (simp add: u64_def ULONG_MAX_def)

lemma caret_bound:
  assumes "prerelease v = []" "semver_compare v b \<ge> 0"
    "major b < ULONG_MAX" "minor b < ULONG_MAX" "patch b < ULONG_MAX"
  shows "semver_compare v (caret_upper_bound b) < 0 \<longleftrightarrow> same_leading v b"
proof -
  have "prerelease (caret_upper_bound b) = []" by (simp add: caret_upper_bound_def Let_def)
  from compare_release_less [OF assms(1) this] show ?thesis
    using compare_ge_fields [OF assms(2)] assms(3-5)
    by (auto simp: caret_upper_bound_def Let_def u64_succ [simplified] same_leading_def)
qed

lemma tilde_bound:
  assumes "prerelease v = []" "semver_compare v b \<ge> 0" "minor b < ULONG_MAX"
  shows "semver_compare v (tilde_upper_bound b) < 0 \<longleftrightarrow> major v = major b \<and> minor v = minor b"
proof -
  have "prerelease (tilde_upper_bound b) = []" by (simp add: tilde_upper_bound_def)
  from compare_release_less [OF assms(1) this] show ?thesis
    using compare_ge_fields [OF assms(2)] assms(3)
    by (auto simp: tilde_upper_bound_def u64_succ [simplified])
qed

subsection \<open>The text of a range\<close>

lemma semver_text_chars:
  assumes "wf_semver v" "c \<in> set (semver_text v)"
  shows "\<not> is_space c"
proof -
  have run: "valid_run chk s \<Longrightarrow> c \<in> set s \<Longrightarrow> c = CHR ''.'' \<or> is_identifier_char c" for chk s
    by (auto simp: valid_run_copied copy_identifier_run_def split: option.splits if_splits
        dest: identifier_loop_chars)
  have "is_digit c \<or> c = CHR ''.'' \<or> c = CHR ''-'' \<or> c = CHR ''+'' \<or> is_identifier_char c"
    using assms format_u_props(2) run by (auto simp: wf_semver_def semver_text_def split: if_splits)
  then show ?thesis
    by (auto simp: is_digit_def is_identifier_char_def is_alnum_def is_alpha_def is_space_def byte_def)
qed

lemma semver_text_first: "\<exists>c s. semver_text v = c # s \<and> is_digit c"
  using format_u_hd [of "major v"] by (auto simp: semver_text_def)

lemma parse_comparator_text:
  assumes "wf_semver v"
  shows "parse_comparator_term (operator_text oper @ semver_text v) = Some (oper, v)"
proof -
  obtain c s where t: "semver_text v = c # s" "is_digit c" using semver_text_first by blast
  have "c \<noteq> CHR ''>''" "c \<noteq> CHR ''<''" "c \<noteq> CHR ''=''" using t(2) by (auto simp: is_digit_def)
  then have "comparator_operator (operator_text oper @ semver_text v) = (oper, semver_text v)"
    using t by (cases oper) (auto simp: comparator_operator_def)
  then show ?thesis
    using semver_parse_texts(1) [OF assms] by (simp add: parse_comparator_term_def)
qed

lemma range_word_text: "wf_semver v \<Longrightarrow> range_word (operator_text oper @ semver_text v)"
  using semver_text_chars [of v] semver_text_first [of v]
  by (cases oper) (auto simp: range_word_def is_space_def byte_def)

lemma constraint_terms_word:
  assumes "range_word w" "n < MAX_TERMS" "parse_comparator_term w = Some (oper, v)"
    "apply_comparator out oper v = Some out'"
  shows "constraint_terms out n w = Some (out', Suc n)"
    "constraint_terms out n (w @ '' '' @ rest) = constraint_terms out' (Suc n) rest"
proof -
  have nil: "constraint_terms x k [] = Some (x, k)" for x k by (subst constraint_terms.simps) simp
  obtain c s where w: "w = c # s" "\<not> is_space c" using assms(1) by (cases w) (auto simp: range_word_def)
  have ne: "w \<noteq> []" using assms(1) by (simp add: range_word_def)
  have t: "takeWhile (\<lambda>c. \<not> is_space c) w = w" "dropWhile (\<lambda>c. \<not> is_space c) w = []"
    using assms(1) by (simp_all add: range_word_def)
  have "is_space (CHR '' '')" by (simp add: is_space_def byte_def)
  then have t2: "takeWhile (\<lambda>c. \<not> is_space c) (w @ '' '' @ rest) = w"
    "dropWhile (\<lambda>c. \<not> is_space c) (w @ '' '' @ rest) = '' '' @ rest"
    using assms(1) by (simp_all add: range_word_def takeWhile_append dropWhile_append)
  have d: "dropWhile is_space w = w" "dropWhile is_space (w @ '' '' @ rest) = w @ '' '' @ rest"
    using w by simp_all
  show "constraint_terms out n w = Some (out', Suc n)"
    using assms(2-4) ne by (subst constraint_terms.simps) (simp only: d t Let_def, simp add: nil)
  show "constraint_terms out n (w @ '' '' @ rest) = constraint_terms out' (Suc n) rest"
    using assms(2-4) ne by (subst constraint_terms.simps) (simp only: d t2 Let_def, simp)
qed

lemma wf_upper_bounds:
  assumes "wf_semver v"
  shows "wf_semver (caret_upper_bound v)" "wf_semver (tilde_upper_bound v)"
proof -
  have "u64 n \<le> ULONG_MAX" for n using u64_less [of n] unfolding ULONG_MAX_def by linarith
  then show "wf_semver (caret_upper_bound v)" "wf_semver (tilde_upper_bound v)"
    using assms by (auto simp: wf_semver_def caret_upper_bound_def tilde_upper_bound_def Let_def)
qed

lemma constraint_terms_wf:
  assumes "constraint_terms out n s = Some (c, k)" "c_string s"
    "has_min out \<Longrightarrow> wf_semver (min_version out)" "has_max out \<Longrightarrow> wf_semver (max_version out)"
  shows "(has_min c \<longrightarrow> wf_semver (min_version c)) \<and> (has_max c \<longrightarrow> wf_semver (max_version c)) \<and>
    n \<le> k \<and> (n < k \<longrightarrow> has_min c \<or> has_max c) \<and> (has_min out \<or> has_max out \<longrightarrow> has_min c \<or> has_max c)"
  using assms
proof (induction out n s rule: constraint_terms.induct)
  case (1 out n s)
  let ?s = "dropWhile is_space s"
  let ?w = "takeWhile (\<lambda>c. \<not> is_space c) ?s" and ?r = "dropWhile (\<lambda>c. \<not> is_space c) ?s"
  show ?case
  proof (cases "?s = []")
    case True
    then show ?thesis using 1 by (subst (asm) constraint_terms.simps) simp
  next
    case False
    then obtain oper v out' where p: "parse_comparator_term ?w = Some (oper, v)"
      "apply_comparator out oper v = Some out'" "n \<noteq> MAX_TERMS"
      "constraint_terms out' (Suc n) (drop 1 ?r) = Some (c, k)"
      using 1(2) by (subst (asm) constraint_terms.simps)
        (auto simp: Let_def split: option.splits if_splits prod.splits)
    have sub: "c_string x" if "set x \<subseteq> set s" for x using that 1(3) by (auto simp: c_string_def)
    have "set (snd (comparator_operator ?w)) \<subseteq> set ?w"
      by (auto simp: comparator_operator_def dest: in_set_dropD)
    moreover have "set ?w \<subseteq> set s" by (meson set_dropWhileD set_takeWhileD subsetI)
    ultimately have "c_string (snd (comparator_operator ?w))" using sub by blast
    moreover obtain rest where "comparator_operator ?w = (oper, rest)" "semver_parse rest = Some v"
      using p(1) by (auto simp: parse_comparator_term_def split: prod.splits)
    ultimately have wf: "wf_semver v" using semver_parse_SomeD(1) by simp
    have "c_string (drop 1 ?r)" by (rule sub) (meson in_set_dropD set_dropWhileD subsetI)
    moreover have "has_min out' \<or> has_max out'" "has_min out' \<Longrightarrow> wf_semver (min_version out')"
      "has_max out' \<Longrightarrow> wf_semver (max_version out')"
      using p(2) wf 1(4,5) by (cases oper; auto split: if_splits)+
    ultimately show ?thesis using 1(1) [OF refl False refl refl p(3) p(1) refl p(2) p(4)] by auto
  qed
qed

lemma constraint_parse_wf:
  assumes "semver_constraint_parse s = Some c" "c_string s"
  shows "wf_constraint c"
proof -
  let ?s = "dropWhile is_space s"
  have cs: "c_string ?s" "c_string (drop 1 ?s)"
    using assms(2) by (auto simp: c_string_def dest: set_dropWhileD in_set_dropD)
  show ?thesis
  proof (cases "byte_at ?s 0 = CHR ''^'' \<or> byte_at ?s 0 = CHR ''~''")
    case True
    then obtain v where "semver_parse (drop 1 ?s) = Some v" "has_min c" "has_max c" "min_version c = v"
      "max_version c = caret_upper_bound v \<or> max_version c = tilde_upper_bound v"
      using assms(1) by (auto simp: semver_constraint_parse_def Let_def split: option.splits if_splits)
    then show ?thesis
      using semver_parse_SomeD(1) [OF _ cs(2)] wf_upper_bounds [of v] by (auto simp: wf_constraint_def)
  next
    case False
    then obtain k where "constraint_terms unconstrained 0 ?s = Some (c, k)" "0 < k"
      using assms(1) by (auto simp: semver_constraint_parse_def Let_def split: option.splits if_splits prod.splits)
    from constraint_terms_wf [OF this(1) cs(1)] this(2) show ?thesis
      by (auto simp: wf_constraint_def unconstrained_def)
  qed
qed

lemma satisfies_equal_bounds:
  assumes "semver_compare a b = 0"
  shows "semver_compare v a \<le> 0 \<longleftrightarrow> semver_compare v b \<le> 0"
  using version_cmp.cmp_eq_left(2) [of a b v] version_cmp.cmp_flip [of a v] version_cmp.cmp_flip [of b v] assms
  by auto

lemma parse_words:
  assumes "dropWhile is_space s = s" "length s < 256" "s \<noteq> []" "hd s \<noteq> CHR ''^''" "hd s \<noteq> CHR ''~''"
    "constraint_terms unconstrained 0 s = Some (c, Suc k)"
  shows "semver_constraint_parse s = Some c"
  using assms by (cases s) (simp_all add: semver_constraint_parse_def Let_def)

lemma constraint_format_parse:
  assumes "wf_constraint c" "semver_constraint_format c n = Some s" "length s < 256"
  shows "\<exists>c'. semver_constraint_parse s = Some c' \<and>
    (\<forall>v. semver_satisfies v c' \<longleftrightarrow> semver_satisfies v c)"
proof -
  have word_start: "dropWhile is_space (w @ x) = w @ x" "w @ x \<noteq> []" if "range_word w" for w x
    using that by (cases w; simp add: range_word_def)+
  have hd: "hd (operator_text oper @ semver_text v @ x) \<noteq> CHR ''^''"
    "hd (operator_text oper @ semver_text v @ x) \<noteq> CHR ''~''" for oper v x
    using semver_text_first [of v] by (cases oper; auto simp: is_digit_def)+
  define lo where "lo = (if min_inclusive c then COMPARE_OP_GTE else COMPARE_OP_GT)"
  define hi where "hi = (if max_inclusive c then COMPARE_OP_LTE else COMPARE_OP_LT)"
  let ?a = "min_version c" and ?b = "max_version c"
  let ?lo = "operator_text lo @ semver_text ?a" and ?hi = "operator_text hi @ semver_text ?b"
  consider (exact) "has_min c" "has_max c" "min_inclusive c" "max_inclusive c" "semver_compare ?a ?b = 0"
      "s = semver_text ?a"
    | (both) "has_min c" "has_max c" "s = ?lo @ '' '' @ ?hi"
    | (lower) "has_min c" "\<not> has_max c" "s = ?lo"
    | (upper) "\<not> has_min c" "has_max c" "s = ?hi"
    using assms(1,2) unfolding semver_constraint_format_def wf_constraint_def constraint_text_def
      semver_format_def Let_def lo_def hi_def
    by (auto split: if_splits)
  then show ?thesis
  proof cases
    case exact
    define c' where "c' = unconstrained\<lparr>has_min := True, has_max := True, min_version := ?a,
      max_version := ?a, min_inclusive := True, max_inclusive := True\<rparr>"
    have w: "wf_semver ?a" using assms(1) exact by (simp add: wf_constraint_def)
    note rw = range_word_text [OF w, of COMPARE_OP_EXACT, simplified]
    have "constraint_terms unconstrained 0 s = Some (c', Suc 0)"
      unfolding exact(6) using parse_comparator_text [OF w, of COMPARE_OP_EXACT]
      by (intro constraint_terms_word [OF rw]) (auto simp: MAX_TERMS_def c'_def unconstrained_def)
    then have "semver_constraint_parse s = Some c'"
      using assms(3) hd [of COMPARE_OP_EXACT ?a "[]"] word_start [OF rw, of "[]"] exact(6)
      by (intro parse_words) auto
    moreover have "semver_satisfies v c' \<longleftrightarrow> semver_satisfies v c" for v
      using exact satisfies_equal_bounds [OF exact(5), of v]
      by (simp add: satisfies_range above_min_def below_max_def c'_def)
    ultimately show ?thesis by blast
  next
    case both
    have w: "wf_semver ?a" "wf_semver ?b" using assms(1) both by (auto simp: wf_constraint_def)
    let ?c1 = "unconstrained\<lparr>has_min := True, min_version := ?a, min_inclusive := min_inclusive c\<rparr>"
    let ?c2 = "?c1\<lparr>has_max := True, max_version := ?b, max_inclusive := max_inclusive c\<rparr>"
    have "constraint_terms unconstrained 0 s = constraint_terms ?c1 (Suc 0) ?hi"
      unfolding both(3)
      by (rule constraint_terms_word(2) [OF range_word_text [OF w(1)] _ parse_comparator_text [OF w(1)]])
        (auto simp: MAX_TERMS_def unconstrained_def lo_def)
    also have "\<dots> = Some (?c2, Suc (Suc 0))"
      by (rule constraint_terms_word(1) [OF range_word_text [OF w(2)] _ parse_comparator_text [OF w(2)]])
        (auto simp: MAX_TERMS_def unconstrained_def hi_def)
    finally have "semver_constraint_parse s = Some ?c2"
      using assms(3) hd [of lo ?a "'' '' @ ?hi"] word_start [OF range_word_text [OF w(1), of lo], of "'' '' @ ?hi"] both(3)
      by (intro parse_words) auto
    moreover have "semver_satisfies v ?c2 \<longleftrightarrow> semver_satisfies v c" for v
      using both by (simp add: satisfies_range above_min_def below_max_def)
    ultimately show ?thesis by blast
  next
    case lower
    have w: "wf_semver ?a" using assms(1) lower by (auto simp: wf_constraint_def)
    let ?c1 = "unconstrained\<lparr>has_min := True, min_version := ?a, min_inclusive := min_inclusive c\<rparr>"
    have "constraint_terms unconstrained 0 s = Some (?c1, Suc 0)"
      unfolding lower(3)
      by (rule constraint_terms_word(1) [OF range_word_text [OF w] _ parse_comparator_text [OF w]])
        (auto simp: MAX_TERMS_def unconstrained_def lo_def)
    then have "semver_constraint_parse s = Some ?c1"
      using assms(3) hd [of lo ?a "[]"] word_start [OF range_word_text [OF w, of lo], of "[]"] lower(3)
      by (intro parse_words) auto
    moreover have "semver_satisfies v ?c1 \<longleftrightarrow> semver_satisfies v c" for v
      using lower by (simp add: satisfies_range above_min_def below_max_def unconstrained_def)
    ultimately show ?thesis by blast
  next
    case upper
    have w: "wf_semver ?b" using assms(1) upper by (auto simp: wf_constraint_def)
    let ?c1 = "unconstrained\<lparr>has_max := True, max_version := ?b, max_inclusive := max_inclusive c\<rparr>"
    have "constraint_terms unconstrained 0 s = Some (?c1, Suc 0)"
      unfolding upper(3)
      by (rule constraint_terms_word(1) [OF range_word_text [OF w] _ parse_comparator_text [OF w]])
        (auto simp: MAX_TERMS_def unconstrained_def hi_def)
    then have "semver_constraint_parse s = Some ?c1"
      using assms(3) hd [of hi ?b "[]"] word_start [OF range_word_text [OF w, of hi], of "[]"] upper(3)
      by (intro parse_words) auto
    moreover have "semver_satisfies v ?c1 \<longleftrightarrow> semver_satisfies v c" for v
      using upper by (simp add: satisfies_range above_min_def below_max_def unconstrained_def)
    ultimately show ?thesis by blast
  qed
qed

section \<open>Properties\<close>

lemma constraint_format_first:
  assumes "wf_constraint c" "semver_constraint_format c n = Some s"
  shows "dropWhile is_space s = s" "s \<noteq> []" "byte_at s 0 \<noteq> CHR ''^''" "byte_at s 0 \<noteq> CHR ''~''"
proof -
  have "\<exists>oper v x. s = operator_text oper @ semver_text v @ x"
  proof -
    have "s = operator_text COMPARE_OP_EXACT @ semver_text (min_version c) @ [] \<or>
      (\<exists>x. s = operator_text (if min_inclusive c then COMPARE_OP_GTE else COMPARE_OP_GT) @
         semver_text (min_version c) @ x) \<or>
      s = operator_text (if max_inclusive c then COMPARE_OP_LTE else COMPARE_OP_LT) @
         semver_text (max_version c) @ []"
      using assms unfolding semver_constraint_format_def wf_constraint_def constraint_text_def
        semver_format_def Let_def
      by (auto split: if_splits)
    then show ?thesis by blast
  qed
  then obtain oper v x where s: "s = operator_text oper @ semver_text v @ x" by blast
  obtain d y where "semver_text v = d # y" "is_digit d" using semver_text_first by blast
  then have "\<exists>d y. s = d # y \<and> (is_digit d \<or> d = CHR ''<'' \<or> d = CHR ''>'')"
    using s by (cases oper) auto
  then show "dropWhile is_space s = s" "s \<noteq> []" "byte_at s 0 \<noteq> CHR ''^''" "byte_at s 0 \<noteq> CHR ''~''"
    by (auto simp: ctype_eval)
qed

lemma unconstrained_text:
  "semver_constraint_format unconstrained 2 = Some ''*''" "semver_constraint_parse ''*'' = None"
proof -
  show "semver_constraint_format unconstrained 2 = Some ''*''"
    by (simp add: semver_constraint_format_def unconstrained_def)
  have "parse_comparator_term ''*'' = None"
    by (simp add: parse_comparator_term_def comparator_operator_def semver_parse_def parse_core_def
        parse_numeric_field_def ctype_eval)
  then show "semver_constraint_parse ''*'' = None"
    by (simp add: semver_constraint_parse_def constraint_terms.simps MAX_TERMS_def ctype_eval)
qed

lemmas parse_eval = semver_parse_def parse_core_def parse_numeric_field_def expect_dot_def
  parse_suffix_def copy_identifier_run_def has_leading_zero_def is_all_digits_def
  is_identifier_char_def strtoul_def decimal_val_def ULONG_MAX_def SEMVER_MAX_IDENTIFIERS_def ctype_eval

lemmas compare_eval = semver_compare_def compare_prerelease.simps compare_prerelease_identifier_def
  identifier_at_def past_identifier_def compare_unsigned_long_def

lemmas constraint_eval = semver_constraint_parse_def semver_constraint_format_def constraint_text_def
  caret_upper_bound_def semver_format_def semver_text_def u64_def

text \<open>
  C9: Exact parsing: a text is accepted as a given version exactly when the grammar of semver.org
  reads it as that version: an optional \<open>v\<close> or \<open>V\<close>, three decimal fields without leading zeros
  (one beyond \<open>unsigned long\<close> denotes the largest), and the optional prerelease and build runs of at
  most 255 characters, made of non-empty identifiers of letters, digits and hyphens, of which a
  numeric prerelease identifier has no leading zero. Formatting an accepted version and parsing it
  again gives it back; and without a saturated field the text is that formatted text.
\<close>

theorem semver_parse_exact:
  assumes "c_string s"
  shows "(semver_parse s = Some v \<longleftrightarrow> denotes_version s v) \<and>
    (semver_parse s = Some v \<and> semver_format v n = Some t \<longrightarrow> semver_parse t = Some v) \<and>
    (semver_parse s = Some v \<and> major v < ULONG_MAX \<and> minor v < ULONG_MAX \<and> patch v < ULONG_MAX \<longrightarrow>
       s \<in> {semver_text v, CHR ''v'' # semver_text v, CHR ''V'' # semver_text v})"
proof -
  have "t = semver_text v" if "semver_format v n = Some t"
    using that by (simp add: semver_format_def split: if_splits)
  then show ?thesis
    using semver_parse_SomeD [OF _ assms, of v] semver_parse_texts(1) [of v] denotes_version_parse [of s v]
    by blast
qed

theorem semver_parse_exact_witness:
  "denotes_version ''v1.20.3-rc.1'' \<lparr>major = 1, minor = 20, patch = 3, prerelease = ''rc.1'', build = []\<rparr> \<and>
   semver_parse ''1.20.3-rc.01'' = None \<and>
   \<not> denotes_version ''1.20.3-rc.01''
     \<lparr>major = 1, minor = 20, patch = 3, prerelease = ''rc.01'', build = []\<rparr>"
proof -
  let ?v = "\<lparr>major = 1, minor = 20, patch = 3, prerelease = ''rc.1'', build = []\<rparr>"
  have p: "semver_parse ''v1.20.3-rc.1'' = Some ?v" "semver_parse ''1.20.3-rc.01'' = None"
    by (simp_all add: parse_eval)
  show ?thesis
    using semver_parse_exact [of "''v1.20.3-rc.1''" ?v] semver_parse_exact [of "''1.20.3-rc.01''"] p by simp
qed

text \<open>
  C10: Precedence is a total preorder: the comparison is antisymmetric in sign, reflexive and
  transitive over all versions, so sorting and picking a maximum by it are well defined.
\<close>

theorem semver_compare_preorder:
  "semver_compare b a = - semver_compare a b \<and> semver_compare a a = 0 \<and>
   (semver_compare a b \<le> 0 \<and> semver_compare b c \<le> 0 \<longrightarrow> semver_compare a c \<le> 0)"
  using version_cmp.cmp_flip version_cmp.cmp_refl version_cmp.cmp_le_trans by blast

theorem semver_compare_preorder_witness:
  "semver_compare \<lparr>major = 1, minor = 0, patch = 0, prerelease = ''rc.2'', build = []\<rparr>
     \<lparr>major = 1, minor = 0, patch = 0, prerelease = [], build = []\<rparr> \<le> 0"
proof -
  let ?a = "\<lparr>major = 1, minor = 0, patch = 0, prerelease = ''rc.2'', build = []\<rparr>"
  let ?b = "\<lparr>major = 1, minor = 0, patch = 0, prerelease = ''rc.10'', build = []\<rparr>"
  let ?c = "\<lparr>major = 1, minor = 0, patch = 0, prerelease = [], build = []\<rparr>"
  have "semver_compare ?a ?b \<le> 0" "semver_compare ?b ?c \<le> 0"
    by (simp_all add: compare_eval parse_eval)
  then show ?thesis using semver_compare_preorder [of ?b ?a ?c] by blast
qed

text \<open>
  C11: Intersection is conjunction: when it returns a range, a version satisfies that range exactly
  when it satisfies both arguments; when it reports a conflict, no version satisfies both.
\<close>

theorem semver_intersect_conjunction:
  "(\<forall>r v. semver_constraint_intersect a b = Some r \<longrightarrow>
      (semver_satisfies v r \<longleftrightarrow> semver_satisfies v a \<and> semver_satisfies v b)) \<and>
   (semver_constraint_intersect a b = None \<longrightarrow>
      (\<forall>v. \<not> (semver_satisfies v a \<and> semver_satisfies v b)))"
proof -
  let ?r = "intersect_max a b (intersect_min a b unconstrained)"
  have "\<not> (semver_satisfies v a \<and> semver_satisfies v b)" if "semver_constraint_intersect a b = None" for v
    using that crossed_empty [of ?r v] intersect_satisfies [of v a b]
    by (auto simp: semver_constraint_intersect_def Let_def split: if_splits)
  moreover have "r = ?r" if "semver_constraint_intersect a b = Some r" for r
    using that by (auto simp: semver_constraint_intersect_def Let_def split: if_splits)
  ultimately show ?thesis using intersect_satisfies by metis
qed

theorem semver_intersect_conjunction_witness:
  "\<not> (semver_satisfies zero_version (unconstrained\<lparr>has_max := True, max_version := zero_version\<rparr>) \<and>
      semver_satisfies zero_version (unconstrained\<lparr>has_min := True, min_version := zero_version,
        min_inclusive := True\<rparr>))"
proof -
  let ?a = "unconstrained\<lparr>has_max := True, max_version := zero_version\<rparr>"
  let ?b = "unconstrained\<lparr>has_min := True, min_version := zero_version, min_inclusive := True\<rparr>"
  have "semver_constraint_intersect ?a ?b = None"
    by (simp add: semver_constraint_intersect_def intersect_min_def intersect_max_def unconstrained_def
        zero_version_def compare_eval)
  then show ?thesis using semver_intersect_conjunction [of ?a ?b] by blast
qed

text \<open>
  C12: Caret and tilde ranges: a caret range accepts exactly the releases at or above the base that
  keep its left-most non-zero field, and a tilde range exactly those that keep major and minor,
  as long as no field of the base is the maximal \<open>unsigned long\<close>.
\<close>

theorem semver_caret_tilde_ranges:
  assumes "semver_parse s = Some b"
    "major b < ULONG_MAX" "minor b < ULONG_MAX" "patch b < ULONG_MAX"
  shows "\<exists>caret tilde. semver_constraint_parse (CHR ''^'' # s) = Some caret \<and>
    semver_constraint_parse (CHR ''~'' # s) = Some tilde \<and>
    (\<forall>v. semver_satisfies v caret \<longleftrightarrow>
       prerelease v = [] \<and> semver_compare v b \<ge> 0 \<and> same_leading v b) \<and>
    (\<forall>v. semver_satisfies v tilde \<longleftrightarrow>
       prerelease v = [] \<and> semver_compare v b \<ge> 0 \<and> major v = major b \<and> minor v = minor b)"
proof -
  have sp: "\<not> is_space (CHR ''^'')" "\<not> is_space (CHR ''~'')" by (simp_all add: is_space_def byte_def)
  then show ?thesis
    using assms caret_bound [OF _ _ assms(2-4)] tilde_bound [OF _ _ assms(3)]
    by (auto simp: semver_constraint_parse_def Let_def satisfies_range above_min_def below_max_def)
qed

theorem semver_caret_tilde_ranges_witness:
  "\<exists>caret. semver_constraint_parse ''^0.2.3'' = Some caret \<and>
     (\<forall>v. semver_satisfies v caret \<longleftrightarrow> prerelease v = [] \<and>
        semver_compare v \<lparr>major = 0, minor = 2, patch = 3, prerelease = [], build = []\<rparr> \<ge> 0 \<and>
        major v = 0 \<and> minor v = 2)"
proof -
  have "semver_parse ''0.2.3'' = Some \<lparr>major = 0, minor = 2, patch = 3, prerelease = [], build = []\<rparr>"
    by (simp add: parse_eval)
  from semver_caret_tilde_ranges [OF this] show ?thesis
    by (auto simp: ULONG_MAX_def same_leading_def)
qed

text \<open>
  C13: Range text round trip: the formatted text of a constraint that the parser produced, when it
  is shorter than the 256 characters the parser takes, parses to a constraint that accepts exactly
  the same versions; from 256 characters on it is refused. The unconstrained range is outside the
  round trip: it formats to \<open>*\<close>, which is not a constraint text.
\<close>

theorem semver_constraint_round_trip:
  assumes "c_string s" "semver_constraint_parse s = Some c" "semver_constraint_format c n = Some t"
  shows "(length t < 256 \<longrightarrow> (\<exists>c'. semver_constraint_parse t = Some c' \<and>
      (\<forall>v. semver_satisfies v c' \<longleftrightarrow> semver_satisfies v c))) \<and>
    (256 \<le> length t \<longrightarrow> semver_constraint_parse t = None) \<and>
    semver_constraint_format unconstrained 2 = Some ''*'' \<and> semver_constraint_parse ''*'' = None"
proof -
  have wf: "wf_constraint c" by (rule constraint_parse_wf [OF assms(2,1)])
  have "semver_constraint_parse t = None" if "256 \<le> length t"
    using constraint_format_first [OF wf assms(3)] that by (auto simp: semver_constraint_parse_def)
  then show ?thesis
    using constraint_format_parse [OF wf assms(3)] unconstrained_text by blast
qed

theorem semver_constraint_round_trip_witness:
  "\<exists>c c'. semver_constraint_parse ''^1.2.3'' = Some c \<and>
     semver_constraint_format c 64 = Some ''>=1.2.3 <2.0.0'' \<and>
     semver_constraint_parse ''>=1.2.3 <2.0.0'' = Some c' \<and>
     (\<forall>v. semver_satisfies v c' \<longleftrightarrow> semver_satisfies v c)"
proof -
  let ?c = "\<lparr>has_min = True,
    min_version = \<lparr>major = 1, minor = 2, patch = 3, prerelease = [], build = []\<rparr>, min_inclusive = True,
    has_max = True, max_version = \<lparr>major = 2, minor = 0, patch = 0, prerelease = [], build = []\<rparr>,
    max_inclusive = False\<rparr>"
  have p: "semver_constraint_parse ''^1.2.3'' = Some ?c"
    by (simp add: constraint_eval parse_eval)
  have f: "semver_constraint_format ?c 64 = Some ''>=1.2.3 <2.0.0''"
    by (simp add: constraint_eval SEMVER_MAX_IDENTIFIERS_def format_eval compare_unsigned_long_def semver_compare_def)
  show ?thesis using semver_constraint_round_trip [OF _ p f] p f by auto
qed

end
