(* ===== verification/Facet.thy ===== *)
theory Facet
  imports Semver
begin

text \<open>
  Version selection of the package tool (\<open>src/tools/facet.c\<close>): which lines of
  \<open>git ls-remote --tags --refs\<close> are versions, and which tag a constraint selects. The output of the
  \<open>git\<close> subprocess is an argument. A bounded copy by \<open>snprintf\<close> into a buffer of \<open>n\<close> bytes keeps
  the first \<open>n - 1\<close> characters.
\<close>

section \<open>Definitions\<close>

definition FACET_MAX_REF :: nat where
  "FACET_MAX_REF = 128"

definition bounded_copy :: "nat \<Rightarrow> string \<Rightarrow> string" where
  "bounded_copy n s = take (n - 1) s"

definition canonical_registry_version :: "string \<Rightarrow> bool" where
  "canonical_registry_version s =
     (if byte_at s 0 = CHR ''v'' \<or> byte_at s 0 = CHR ''V'' \<or> CHR ''+'' \<in> set s then False
      else (case semver_parse s of
              None \<Rightarrow> False
            | Some parsed \<Rightarrow>
                (case semver_format parsed FACET_MAX_REF of
                   None \<Rightarrow> False
                 | Some formatted \<Rightarrow> s = formatted)))"

definition tags_prefix :: string where
  "tags_prefix = ''refs/tags/''"

text \<open>One line of the listing: the tag name behind the tab and the prefix, if it is a version.\<close>

definition line_tag :: "string \<Rightarrow> string option" where
  "line_tag line =
     (let after = dropWhile (\<lambda>c. c \<noteq> CHR 0x09) line
      in if after = [] then None
         else let ref_name = drop 1 after
              in if take (length tags_prefix) ref_name \<noteq> tags_prefix then None
                 else let tag_name = drop (length tags_prefix) ref_name
                      in if semver_parse tag_name = None then None else Some tag_name)"

function tag_lines :: "nat \<Rightarrow> string \<Rightarrow> string list \<Rightarrow> string list" where
  "tag_lines capacity listing tags =
     (if listing = [] then tags
      else let line = takeWhile (\<lambda>c. c \<noteq> CHR 0x0A) listing;
               after = dropWhile (\<lambda>c. c \<noteq> CHR 0x0A) listing;
               tags = (case line_tag line of
                         None \<Rightarrow> tags
                       | Some tag_name \<Rightarrow>
                           (if length tags < capacity
                            then tags @ [bounded_copy FACET_MAX_REF tag_name] else tags))
           in if after = [] then tags else tag_lines capacity (drop 1 after) tags)"
  by pat_completeness auto
termination
proof (relation "measure (\<lambda>(capacity, listing, tags). length listing)", goal_cases)
  case (2 capacity listing tags line after tags')
  have "length (drop 1 after) < length after" using 2 by (cases after) auto
  also have "\<dots> \<le> length listing" unfolding 2(3) by (rule length_dropWhile_le)
  finally show ?case by simp
qed simp

declare tag_lines.simps [simp del]

definition git_list_semver_tags :: "string option \<Rightarrow> nat \<Rightarrow> string list option" where
  "git_list_semver_tags captured capacity =
     (case captured of None \<Rightarrow> None | Some listing \<Rightarrow> Some (tag_lines capacity listing []))"

text \<open>The loop over the tags: the best version so far and its tag.\<close>

fun pick_loop :: "SemverConstraint \<Rightarrow> string list \<Rightarrow> (Semver \<times> string) option \<Rightarrow> (Semver \<times> string) option" where
  "pick_loop constraint [] best = best"
| "pick_loop constraint (tag # tags) best =
     (case semver_parse tag of
        None \<Rightarrow> pick_loop constraint tags best
      | Some candidate \<Rightarrow>
          (if \<not> semver_satisfies candidate constraint then pick_loop constraint tags best
           else (case best of
                   None \<Rightarrow> pick_loop constraint tags (Some (candidate, tag))
                 | Some (best_version, best_tag) \<Rightarrow>
                     (if semver_compare candidate best_version > 0
                      then pick_loop constraint tags (Some (candidate, tag))
                      else pick_loop constraint tags best))))"

definition pick_best_matching_tag :: "string list \<Rightarrow> SemverConstraint \<Rightarrow> nat \<Rightarrow> string option" where
  "pick_best_matching_tag tags constraint out_tag_size =
     (case pick_loop constraint tags None of
        None \<Rightarrow> None
      | Some (best_version, best_tag) \<Rightarrow> Some (bounded_copy out_tag_size best_tag))"

section \<open>Specification\<close>

text \<open>A tag a constraint accepts, with the version it names.\<close>

definition candidate :: "SemverConstraint \<Rightarrow> string \<Rightarrow> Semver \<Rightarrow> bool" where
  "candidate constraint tag v \<longleftrightarrow> semver_parse tag = Some v \<and> semver_satisfies v constraint"

definition picked :: "SemverConstraint \<Rightarrow> string list \<Rightarrow> (Semver \<times> string) option \<Rightarrow> bool" where
  "picked constraint tags best \<longleftrightarrow>
     (case best of
        None \<Rightarrow> \<forall>t \<in> set tags. \<forall>v. \<not> candidate constraint t v
      | Some (v, t) \<Rightarrow> candidate constraint t v \<and> t \<in> set tags \<and>
          (\<forall>t' \<in> set tags. \<forall>v'. candidate constraint t' v' \<longrightarrow> semver_compare v' v \<le> 0))"

section \<open>Selection\<close>

lemma picked_skip:
  "\<lbrakk>picked constraint seen best; \<forall>v. \<not> candidate constraint tag v\<rbrakk> \<Longrightarrow> picked constraint (seen @ [tag]) best"
  by (auto simp: picked_def split: option.splits)

lemma picked_keep:
  "\<lbrakk>picked constraint seen (Some (bv, bt)); semver_parse tag = Some v; semver_compare v bv \<le> 0\<rbrakk> \<Longrightarrow>
   picked constraint (seen @ [tag]) (Some (bv, bt))"
  by (auto simp: picked_def candidate_def)

lemma picked_better:
  assumes "picked constraint seen best" "candidate constraint tag v"
    "\<And>bv bt. best = Some (bv, bt) \<Longrightarrow> semver_compare v bv > 0"
  shows "picked constraint (seen @ [tag]) (Some (v, tag))"
proof -
  have "semver_compare v' v \<le> 0" if "semver_compare v' bv \<le> 0" "semver_compare v bv > 0" for v' bv
    using version_cmp.cmp_le_trans [of v' bv v] version_cmp.cmp_flip [of v bv] that by simp
  then have "\<forall>t' \<in> set seen. \<forall>v'. candidate constraint t' v' \<longrightarrow> semver_compare v' v \<le> 0"
    using assms(1,3) by (cases best) (auto simp: picked_def, blast)
  then show ?thesis using assms(2) version_cmp.cmp_refl [of v] by (auto simp: picked_def candidate_def)
qed

lemma pick_loop_picked:
  "picked constraint seen best \<Longrightarrow> picked constraint (seen @ tags) (pick_loop constraint tags best)"
proof (induction tags arbitrary: seen best)
  case (Cons tag tags)
  have step: "seen @ tag # tags = (seen @ [tag]) @ tags" by simp
  note better = Cons.IH [OF picked_better [OF Cons.prems]]
  show ?case
  proof (cases "\<exists>v. candidate constraint tag v")
    case False
    then have "pick_loop constraint (tag # tags) best = pick_loop constraint tags best"
      by (auto simp: candidate_def split: option.splits)
    then show ?thesis unfolding step using Cons.IH [OF picked_skip [OF Cons.prems]] False by simp
  next
    case True
    then obtain v where c: "candidate constraint tag v" by blast
    then have v: "semver_parse tag = Some v" "semver_satisfies v constraint" by (auto simp: candidate_def)
    show ?thesis
    proof (cases best)
      case None
      then show ?thesis unfolding step using better [OF c] v by simp
    next
      case (Some p)
      obtain bv bt where b: "best = Some (bv, bt)" using Some by (cases p) auto
      show ?thesis
      proof (cases "semver_compare v bv > 0")
        case True
        then show ?thesis unfolding step using better [OF c] v b by simp
      next
        case False
        then show ?thesis
          unfolding step using Cons.IH [OF picked_keep [OF Cons.prems [unfolded b] v(1)]] v b by simp
      qed
    qed
  qed
qed simp

lemma tag_lines_parse:
  assumes "\<forall>t \<in> set tags. length t < FACET_MAX_REF" "length tags \<le> capacity"
  shows "length (tag_lines capacity listing tags) \<le> capacity \<and>
    (\<forall>t \<in> set (tag_lines capacity listing tags). length t < FACET_MAX_REF)"
  using assms
proof (induction capacity listing tags rule: tag_lines.induct)
  case (1 capacity listing tags)
  let ?after = "dropWhile (\<lambda>c. c \<noteq> CHR 0x0A) listing"
  define tags' where "tags' = (case line_tag (takeWhile (\<lambda>c. c \<noteq> CHR 0x0A) listing) of
      None \<Rightarrow> tags
    | Some tag_name \<Rightarrow> (if length tags < capacity
         then tags @ [bounded_copy FACET_MAX_REF tag_name] else tags))"
  have t': "\<forall>t \<in> set tags'. length t < FACET_MAX_REF" "length tags' \<le> capacity"
    using 1(2,3) by (auto simp: tags'_def bounded_copy_def FACET_MAX_REF_def split: option.splits if_splits)
  show ?case
  proof (cases "listing = [] \<or> ?after = []")
    case True
    then have "tag_lines capacity listing tags = (if listing = [] then tags else tags')"
      by (subst tag_lines.simps) (auto simp: Let_def tags'_def)
    then show ?thesis using 1(2,3) t' by simp
  next
    case False
    then have "tag_lines capacity listing tags = tag_lines capacity (drop 1 ?after) tags'"
      by (subst tag_lines.simps) (simp only: Let_def tags'_def de_Morgan_disj if_False)
    then show ?thesis using 1(1) [OF _ refl refl tags'_def] False t' by simp
  qed
qed

section \<open>Properties\<close>

text \<open>
  C14: The selected tag is the best one: it is a tag of the list whose version satisfies the constraint
  and no satisfying tag has higher precedence; selection fails exactly when no tag satisfies it.
\<close>

theorem pick_best_is_maximal:
  "(pick_best_matching_tag tags constraint n = None \<longleftrightarrow>
      \<not> (\<exists>t \<in> set tags. \<exists>v. candidate constraint t v)) \<and>
   (\<forall>out. pick_best_matching_tag tags constraint n = Some out \<longrightarrow>
      (\<exists>t \<in> set tags. \<exists>v. out = bounded_copy n t \<and> candidate constraint t v \<and>
         (\<forall>t' \<in> set tags. \<forall>v'. candidate constraint t' v' \<longrightarrow> semver_compare v' v \<le> 0)))"
proof -
  have "picked constraint tags (pick_loop constraint tags None)"
    using pick_loop_picked [of constraint "[]" None tags] by (simp add: picked_def)
  then show ?thesis
    by (cases "pick_loop constraint tags None")
      (auto simp: pick_best_matching_tag_def picked_def)
qed

theorem pick_best_is_maximal_witness:
  "\<exists>c. semver_constraint_parse ''^1.0.0'' = Some c \<and>
     pick_best_matching_tag [''v1.0.0'', ''nightly'', ''v1.10.0'', ''v1.9.0'', ''v2.0.0''] c 128 = Some ''v1.10.0'' \<and>
     \<not> (pick_best_matching_tag [''nightly''] c 128 \<noteq> None)"
proof -
  let ?c = "\<lparr>has_min = True,
    min_version = \<lparr>major = 1, minor = 0, patch = 0, prerelease = [], build = []\<rparr>, min_inclusive = True,
    has_max = True, max_version = \<lparr>major = 2, minor = 0, patch = 0, prerelease = [], build = []\<rparr>,
    max_inclusive = False\<rparr>"
  have p: "semver_constraint_parse ''^1.0.0'' = Some ?c"
    by (simp add: constraint_eval parse_eval)
  have none: "pick_best_matching_tag [''nightly''] ?c 128 = None"
    using pick_best_is_maximal [of "[''nightly'']" ?c 128] by (simp add: candidate_def parse_eval)
  have "pick_best_matching_tag [''v1.0.0'', ''nightly'', ''v1.10.0'', ''v1.9.0'', ''v2.0.0''] ?c 128 = Some ''v1.10.0''"
    by (simp add: pick_best_matching_tag_def bounded_copy_def parse_eval semver_satisfies_def compare_eval)
  with p none show ?thesis by auto
qed

end
