(* ===== verification/Lexer.thy ===== *)
theory Lexer
  imports C_Text
begin

text \<open>
  The lexer (\<open>src/src/lexer.c\<close>, \<open>src/src/lexer.h\<close>): the whole scanner, one definition per function of
  the source. The source text is a NUL-terminated string (\<open>byte_at\<close> reads NUL at its end); the state
  is the record \<open>DiamondLexer\<close>, passed and returned. A loop of the source that advances while a
  condition on the current character holds is a recursion whose measure is the text left.
\<close>

section \<open>Definitions\<close>

record DiamondSpan =
  span_start :: nat
  span_length :: nat
  span_line :: nat
  span_column :: nat

text \<open>
  The token kinds of \<open>DiamondTokenKind\<close>, in the order of the source and with its names; the long
  enumeration is grouped so that each group is a small datatype, and the abbreviations give back the
  flat names.
\<close>

datatype DelimiterKind =
    D_LEFT_PAREN | D_RIGHT_PAREN | D_LEFT_BRACKET | D_RIGHT_BRACKET | D_LEFT_BRACE | D_RIGHT_BRACE
  | D_COMMA | D_DOT | D_DOT_DOT | D_DOT_DOT_DOT | D_COLON | D_DOUBLE_COLON
  | D_QUESTION

datatype OperatorKind =
    O_PIPE | O_AMPERSAND | O_BANG | O_NOT | O_AND_AND | O_OR_OR
  | O_AND | O_OR | O_PLUS | O_MINUS | O_ARROW | O_FAT_ARROW
  | O_STAR | O_SLASH | O_PERCENT | O_CARET

datatype AssignCompareKind =
    O_PLUS_EQUAL | O_MINUS_EQUAL | O_STAR_EQUAL | O_SLASH_EQUAL | O_PERCENT_EQUAL | O_OR_OR_EQUAL
  | O_AND_AND_EQUAL | O_EQUAL | O_EQUAL_EQUAL | O_BANG_EQUAL | O_LESS | O_LESS_EQUAL
  | O_LESS_LESS | O_SPACESHIP | O_GREATER | O_GREATER_EQUAL | O_GREATER_GREATER

datatype ControlKeyword =
    K_IF | K_UNLESS | K_THEN | K_ELSE | K_ELSIF | K_CASE
  | K_WHEN | K_END | K_WHILE | K_UNTIL | K_DO | K_LOOP
  | K_TRUE | K_FALSE | K_NIL

datatype DeclarationKeyword =
    K_DEF | K_CLOSURE | K_CLASS | K_SEALED | K_STRUCT | K_INTERFACE
  | K_MODULE | K_INCLUDE | K_PRIVATE | K_PROTECTED | K_PUBLIC | K_ATTR_READER
  | K_ATTR_WRITER | K_ATTR_ACCESSOR | K_ATTR_PREDICATE | K_ATTR | K_MODULE_FUNCTION | K_ALIAS_METHOD
  | K_DELEGATE

datatype StatementKeyword =
    K_SELF | K_SUPER | K_RETURN | K_BREAK | K_NEXT | K_REDO
  | K_RAISE | K_RETRY | K_YIELD | K_BEGIN | K_RESCUE | K_ENSURE
  | K_IS

datatype DiamondTokenKind =
    T_EOF | T_ERROR | T_INTEGER | T_FLOAT | T_STRING | T_SYMBOL
  | T_IDENTIFIER | T_INSTANCE_VARIABLE | T_CLASS_VARIABLE | T_NEWLINE | T_REGEX | T_DELIMITER DelimiterKind
  | T_OPERATOR OperatorKind | T_ASSIGN_COMPARE AssignCompareKind | T_CONTROL ControlKeyword | T_DECLARATION DeclarationKeyword | T_STATEMENT StatementKeyword

abbreviation T_LEFT_PAREN :: DiamondTokenKind where
  "T_LEFT_PAREN \<equiv> T_DELIMITER D_LEFT_PAREN"
abbreviation T_RIGHT_PAREN :: DiamondTokenKind where
  "T_RIGHT_PAREN \<equiv> T_DELIMITER D_RIGHT_PAREN"
abbreviation T_LEFT_BRACKET :: DiamondTokenKind where
  "T_LEFT_BRACKET \<equiv> T_DELIMITER D_LEFT_BRACKET"
abbreviation T_RIGHT_BRACKET :: DiamondTokenKind where
  "T_RIGHT_BRACKET \<equiv> T_DELIMITER D_RIGHT_BRACKET"
abbreviation T_LEFT_BRACE :: DiamondTokenKind where
  "T_LEFT_BRACE \<equiv> T_DELIMITER D_LEFT_BRACE"
abbreviation T_RIGHT_BRACE :: DiamondTokenKind where
  "T_RIGHT_BRACE \<equiv> T_DELIMITER D_RIGHT_BRACE"
abbreviation T_COMMA :: DiamondTokenKind where
  "T_COMMA \<equiv> T_DELIMITER D_COMMA"
abbreviation T_DOT :: DiamondTokenKind where
  "T_DOT \<equiv> T_DELIMITER D_DOT"
abbreviation T_DOT_DOT :: DiamondTokenKind where
  "T_DOT_DOT \<equiv> T_DELIMITER D_DOT_DOT"
abbreviation T_DOT_DOT_DOT :: DiamondTokenKind where
  "T_DOT_DOT_DOT \<equiv> T_DELIMITER D_DOT_DOT_DOT"
abbreviation T_COLON :: DiamondTokenKind where
  "T_COLON \<equiv> T_DELIMITER D_COLON"
abbreviation T_DOUBLE_COLON :: DiamondTokenKind where
  "T_DOUBLE_COLON \<equiv> T_DELIMITER D_DOUBLE_COLON"
abbreviation T_QUESTION :: DiamondTokenKind where
  "T_QUESTION \<equiv> T_DELIMITER D_QUESTION"
abbreviation T_PIPE :: DiamondTokenKind where
  "T_PIPE \<equiv> T_OPERATOR O_PIPE"
abbreviation T_AMPERSAND :: DiamondTokenKind where
  "T_AMPERSAND \<equiv> T_OPERATOR O_AMPERSAND"
abbreviation T_BANG :: DiamondTokenKind where
  "T_BANG \<equiv> T_OPERATOR O_BANG"
abbreviation T_NOT :: DiamondTokenKind where
  "T_NOT \<equiv> T_OPERATOR O_NOT"
abbreviation T_AND_AND :: DiamondTokenKind where
  "T_AND_AND \<equiv> T_OPERATOR O_AND_AND"
abbreviation T_OR_OR :: DiamondTokenKind where
  "T_OR_OR \<equiv> T_OPERATOR O_OR_OR"
abbreviation T_AND :: DiamondTokenKind where
  "T_AND \<equiv> T_OPERATOR O_AND"
abbreviation T_OR :: DiamondTokenKind where
  "T_OR \<equiv> T_OPERATOR O_OR"
abbreviation T_PLUS :: DiamondTokenKind where
  "T_PLUS \<equiv> T_OPERATOR O_PLUS"
abbreviation T_MINUS :: DiamondTokenKind where
  "T_MINUS \<equiv> T_OPERATOR O_MINUS"
abbreviation T_ARROW :: DiamondTokenKind where
  "T_ARROW \<equiv> T_OPERATOR O_ARROW"
abbreviation T_FAT_ARROW :: DiamondTokenKind where
  "T_FAT_ARROW \<equiv> T_OPERATOR O_FAT_ARROW"
abbreviation T_STAR :: DiamondTokenKind where
  "T_STAR \<equiv> T_OPERATOR O_STAR"
abbreviation T_SLASH :: DiamondTokenKind where
  "T_SLASH \<equiv> T_OPERATOR O_SLASH"
abbreviation T_PERCENT :: DiamondTokenKind where
  "T_PERCENT \<equiv> T_OPERATOR O_PERCENT"
abbreviation T_CARET :: DiamondTokenKind where
  "T_CARET \<equiv> T_OPERATOR O_CARET"
abbreviation T_PLUS_EQUAL :: DiamondTokenKind where
  "T_PLUS_EQUAL \<equiv> T_ASSIGN_COMPARE O_PLUS_EQUAL"
abbreviation T_MINUS_EQUAL :: DiamondTokenKind where
  "T_MINUS_EQUAL \<equiv> T_ASSIGN_COMPARE O_MINUS_EQUAL"
abbreviation T_STAR_EQUAL :: DiamondTokenKind where
  "T_STAR_EQUAL \<equiv> T_ASSIGN_COMPARE O_STAR_EQUAL"
abbreviation T_SLASH_EQUAL :: DiamondTokenKind where
  "T_SLASH_EQUAL \<equiv> T_ASSIGN_COMPARE O_SLASH_EQUAL"
abbreviation T_PERCENT_EQUAL :: DiamondTokenKind where
  "T_PERCENT_EQUAL \<equiv> T_ASSIGN_COMPARE O_PERCENT_EQUAL"
abbreviation T_OR_OR_EQUAL :: DiamondTokenKind where
  "T_OR_OR_EQUAL \<equiv> T_ASSIGN_COMPARE O_OR_OR_EQUAL"
abbreviation T_AND_AND_EQUAL :: DiamondTokenKind where
  "T_AND_AND_EQUAL \<equiv> T_ASSIGN_COMPARE O_AND_AND_EQUAL"
abbreviation T_EQUAL :: DiamondTokenKind where
  "T_EQUAL \<equiv> T_ASSIGN_COMPARE O_EQUAL"
abbreviation T_EQUAL_EQUAL :: DiamondTokenKind where
  "T_EQUAL_EQUAL \<equiv> T_ASSIGN_COMPARE O_EQUAL_EQUAL"
abbreviation T_BANG_EQUAL :: DiamondTokenKind where
  "T_BANG_EQUAL \<equiv> T_ASSIGN_COMPARE O_BANG_EQUAL"
abbreviation T_LESS :: DiamondTokenKind where
  "T_LESS \<equiv> T_ASSIGN_COMPARE O_LESS"
abbreviation T_LESS_EQUAL :: DiamondTokenKind where
  "T_LESS_EQUAL \<equiv> T_ASSIGN_COMPARE O_LESS_EQUAL"
abbreviation T_LESS_LESS :: DiamondTokenKind where
  "T_LESS_LESS \<equiv> T_ASSIGN_COMPARE O_LESS_LESS"
abbreviation T_SPACESHIP :: DiamondTokenKind where
  "T_SPACESHIP \<equiv> T_ASSIGN_COMPARE O_SPACESHIP"
abbreviation T_GREATER :: DiamondTokenKind where
  "T_GREATER \<equiv> T_ASSIGN_COMPARE O_GREATER"
abbreviation T_GREATER_EQUAL :: DiamondTokenKind where
  "T_GREATER_EQUAL \<equiv> T_ASSIGN_COMPARE O_GREATER_EQUAL"
abbreviation T_GREATER_GREATER :: DiamondTokenKind where
  "T_GREATER_GREATER \<equiv> T_ASSIGN_COMPARE O_GREATER_GREATER"
abbreviation T_IF :: DiamondTokenKind where
  "T_IF \<equiv> T_CONTROL K_IF"
abbreviation T_UNLESS :: DiamondTokenKind where
  "T_UNLESS \<equiv> T_CONTROL K_UNLESS"
abbreviation T_THEN :: DiamondTokenKind where
  "T_THEN \<equiv> T_CONTROL K_THEN"
abbreviation T_ELSE :: DiamondTokenKind where
  "T_ELSE \<equiv> T_CONTROL K_ELSE"
abbreviation T_ELSIF :: DiamondTokenKind where
  "T_ELSIF \<equiv> T_CONTROL K_ELSIF"
abbreviation T_CASE :: DiamondTokenKind where
  "T_CASE \<equiv> T_CONTROL K_CASE"
abbreviation T_WHEN :: DiamondTokenKind where
  "T_WHEN \<equiv> T_CONTROL K_WHEN"
abbreviation T_END :: DiamondTokenKind where
  "T_END \<equiv> T_CONTROL K_END"
abbreviation T_WHILE :: DiamondTokenKind where
  "T_WHILE \<equiv> T_CONTROL K_WHILE"
abbreviation T_UNTIL :: DiamondTokenKind where
  "T_UNTIL \<equiv> T_CONTROL K_UNTIL"
abbreviation T_DO :: DiamondTokenKind where
  "T_DO \<equiv> T_CONTROL K_DO"
abbreviation T_LOOP :: DiamondTokenKind where
  "T_LOOP \<equiv> T_CONTROL K_LOOP"
abbreviation T_TRUE :: DiamondTokenKind where
  "T_TRUE \<equiv> T_CONTROL K_TRUE"
abbreviation T_FALSE :: DiamondTokenKind where
  "T_FALSE \<equiv> T_CONTROL K_FALSE"
abbreviation T_NIL :: DiamondTokenKind where
  "T_NIL \<equiv> T_CONTROL K_NIL"
abbreviation T_DEF :: DiamondTokenKind where
  "T_DEF \<equiv> T_DECLARATION K_DEF"
abbreviation T_CLOSURE :: DiamondTokenKind where
  "T_CLOSURE \<equiv> T_DECLARATION K_CLOSURE"
abbreviation T_CLASS :: DiamondTokenKind where
  "T_CLASS \<equiv> T_DECLARATION K_CLASS"
abbreviation T_SEALED :: DiamondTokenKind where
  "T_SEALED \<equiv> T_DECLARATION K_SEALED"
abbreviation T_STRUCT :: DiamondTokenKind where
  "T_STRUCT \<equiv> T_DECLARATION K_STRUCT"
abbreviation T_INTERFACE :: DiamondTokenKind where
  "T_INTERFACE \<equiv> T_DECLARATION K_INTERFACE"
abbreviation T_MODULE :: DiamondTokenKind where
  "T_MODULE \<equiv> T_DECLARATION K_MODULE"
abbreviation T_INCLUDE :: DiamondTokenKind where
  "T_INCLUDE \<equiv> T_DECLARATION K_INCLUDE"
abbreviation T_PRIVATE :: DiamondTokenKind where
  "T_PRIVATE \<equiv> T_DECLARATION K_PRIVATE"
abbreviation T_PROTECTED :: DiamondTokenKind where
  "T_PROTECTED \<equiv> T_DECLARATION K_PROTECTED"
abbreviation T_PUBLIC :: DiamondTokenKind where
  "T_PUBLIC \<equiv> T_DECLARATION K_PUBLIC"
abbreviation T_ATTR_READER :: DiamondTokenKind where
  "T_ATTR_READER \<equiv> T_DECLARATION K_ATTR_READER"
abbreviation T_ATTR_WRITER :: DiamondTokenKind where
  "T_ATTR_WRITER \<equiv> T_DECLARATION K_ATTR_WRITER"
abbreviation T_ATTR_ACCESSOR :: DiamondTokenKind where
  "T_ATTR_ACCESSOR \<equiv> T_DECLARATION K_ATTR_ACCESSOR"
abbreviation T_ATTR_PREDICATE :: DiamondTokenKind where
  "T_ATTR_PREDICATE \<equiv> T_DECLARATION K_ATTR_PREDICATE"
abbreviation T_ATTR :: DiamondTokenKind where
  "T_ATTR \<equiv> T_DECLARATION K_ATTR"
abbreviation T_MODULE_FUNCTION :: DiamondTokenKind where
  "T_MODULE_FUNCTION \<equiv> T_DECLARATION K_MODULE_FUNCTION"
abbreviation T_ALIAS_METHOD :: DiamondTokenKind where
  "T_ALIAS_METHOD \<equiv> T_DECLARATION K_ALIAS_METHOD"
abbreviation T_DELEGATE :: DiamondTokenKind where
  "T_DELEGATE \<equiv> T_DECLARATION K_DELEGATE"
abbreviation T_SELF :: DiamondTokenKind where
  "T_SELF \<equiv> T_STATEMENT K_SELF"
abbreviation T_SUPER :: DiamondTokenKind where
  "T_SUPER \<equiv> T_STATEMENT K_SUPER"
abbreviation T_RETURN :: DiamondTokenKind where
  "T_RETURN \<equiv> T_STATEMENT K_RETURN"
abbreviation T_BREAK :: DiamondTokenKind where
  "T_BREAK \<equiv> T_STATEMENT K_BREAK"
abbreviation T_NEXT :: DiamondTokenKind where
  "T_NEXT \<equiv> T_STATEMENT K_NEXT"
abbreviation T_REDO :: DiamondTokenKind where
  "T_REDO \<equiv> T_STATEMENT K_REDO"
abbreviation T_RAISE :: DiamondTokenKind where
  "T_RAISE \<equiv> T_STATEMENT K_RAISE"
abbreviation T_RETRY :: DiamondTokenKind where
  "T_RETRY \<equiv> T_STATEMENT K_RETRY"
abbreviation T_YIELD :: DiamondTokenKind where
  "T_YIELD \<equiv> T_STATEMENT K_YIELD"
abbreviation T_BEGIN :: DiamondTokenKind where
  "T_BEGIN \<equiv> T_STATEMENT K_BEGIN"
abbreviation T_RESCUE :: DiamondTokenKind where
  "T_RESCUE \<equiv> T_STATEMENT K_RESCUE"
abbreviation T_ENSURE :: DiamondTokenKind where
  "T_ENSURE \<equiv> T_STATEMENT K_ENSURE"
abbreviation T_IS :: DiamondTokenKind where
  "T_IS \<equiv> T_STATEMENT K_IS"

record DiamondToken =
  token_kind :: DiamondTokenKind
  token_span :: DiamondSpan

record DiamondLexer =
  source :: string
  start :: nat
  current :: nat
  line :: nat
  column :: nat
  token_line :: nat
  token_column :: nat
  previous :: DiamondTokenKind

subsection \<open>Characters\<close>

definition peek :: "DiamondLexer \<Rightarrow> char" where
  "peek lx = byte_at (source lx) (current lx)"

definition peek1 :: "DiamondLexer \<Rightarrow> char" where
  "peek1 lx = byte_at (source lx) (current lx + 1)"

definition at_end :: "DiamondLexer \<Rightarrow> bool" where
  "at_end lx \<longleftrightarrow> peek lx = NUL"

definition advance :: "DiamondLexer \<Rightarrow> DiamondLexer" where
  "advance lx =
     (if peek lx = CHR 0x0A
      then lx\<lparr>current := current lx + 1, line := line lx + 1, column := 1\<rparr>
      else lx\<lparr>current := current lx + 1, column := column lx + 1\<rparr>)"

definition match :: "DiamondLexer \<Rightarrow> char \<Rightarrow> bool \<times> DiamondLexer" where
  "match lx expected = (if peek lx \<noteq> expected then (False, lx) else (True, advance lx))"

definition identifier_start :: "char \<Rightarrow> bool" where
  "identifier_start c \<longleftrightarrow> is_alpha c \<or> c = CHR ''_''"

definition identifier_part :: "char \<Rightarrow> bool" where
  "identifier_part c \<longleftrightarrow> identifier_start c \<or> is_digit c"

lemma advance_measure:
  "peek lx \<noteq> NUL \<Longrightarrow> length (source (advance lx)) - current (advance lx) < length (source lx) - current lx"
  using byte_at_inside [of "source lx" "current lx"] by (auto simp: peek_def advance_def)

text \<open>\<open>while (condition on the current character) advance\<close>, for a condition false at the end.\<close>

function advance_while :: "(char \<Rightarrow> bool) \<Rightarrow> DiamondLexer \<Rightarrow> DiamondLexer" where
  "advance_while P lx =
     (if peek lx \<noteq> NUL \<and> P (peek lx) then advance_while P (advance lx) else lx)"
  by pat_completeness auto
termination
  by (relation "measure (\<lambda>(P, lx). length (source lx) - current lx)") (use advance_measure in auto)

declare advance_while.simps [simp del]

subsection \<open>Identifiers and keywords\<close>

definition token_text :: "DiamondLexer \<Rightarrow> string" where
  "token_text lx = take (current lx - start lx) (drop (start lx) (source lx))"

definition text_equals :: "DiamondLexer \<Rightarrow> string \<Rightarrow> bool" where
  "text_equals lx s \<longleftrightarrow> current lx - start lx = length s \<and>
     list_all (\<lambda>index. byte_at (source lx) (start lx + index) = s ! index) [0..<length s]"

definition followed_by_class :: "DiamondLexer \<Rightarrow> bool" where
  "followed_by_class lx =
     (let rest = dropWhile (\<lambda>c. c = CHR '' '' \<or> c = CHR 0x09) (drop (current lx) (source lx))
      in if take 5 rest \<noteq> ''class'' then False else \<not> identifier_part (byte_at rest 5))"

definition identifier_kind :: "DiamondLexer \<Rightarrow> DiamondTokenKind" where
  "identifier_kind lx =
     (if text_equals lx ''if'' then T_IF
      else if text_equals lx ''unless'' then T_UNLESS
      else if text_equals lx ''then'' then T_THEN
      else if text_equals lx ''else'' then T_ELSE
      else if text_equals lx ''elsif'' then T_ELSIF
      else if text_equals lx ''case'' then T_CASE
      else if text_equals lx ''when'' then T_WHEN
      else if text_equals lx ''end'' then T_END
      else if text_equals lx ''while'' then T_WHILE
      else if text_equals lx ''until'' then T_UNTIL
      else if text_equals lx ''do'' then T_DO
      else if text_equals lx ''loop'' then T_LOOP
      else if text_equals lx ''true'' then T_TRUE
      else if text_equals lx ''false'' then T_FALSE
      else if text_equals lx ''nil'' then T_NIL
      else if text_equals lx ''not'' then T_NOT
      else if text_equals lx ''and'' then T_AND
      else if text_equals lx ''or'' then T_OR
      else if text_equals lx ''def'' then T_DEF
      else if text_equals lx ''closure'' then T_CLOSURE
      else if text_equals lx ''class'' then T_CLASS
      else if text_equals lx ''sealed'' \<and> followed_by_class lx then T_SEALED
      else if text_equals lx ''struct'' then T_STRUCT
      else if text_equals lx ''interface'' then T_INTERFACE
      else if text_equals lx ''module'' then T_MODULE
      else if text_equals lx ''include'' then T_INCLUDE
      else if text_equals lx ''private'' then T_PRIVATE
      else if text_equals lx ''protected'' then T_PROTECTED
      else if text_equals lx ''public'' then T_PUBLIC
      else if text_equals lx ''attr_reader'' then T_ATTR_READER
      else if text_equals lx ''attr_writer'' then T_ATTR_WRITER
      else if text_equals lx ''attr_accessor'' then T_ATTR_ACCESSOR
      else if text_equals lx ''attr_predicate'' then T_ATTR_PREDICATE
      else if text_equals lx ''attr'' then T_ATTR
      else if text_equals lx ''module_function'' then T_MODULE_FUNCTION
      else if text_equals lx ''alias_method'' then T_ALIAS_METHOD
      else if text_equals lx ''delegate'' then T_DELEGATE
      else if text_equals lx ''self'' then T_SELF
      else if text_equals lx ''super'' then T_SUPER
      else if text_equals lx ''return'' then T_RETURN
      else if text_equals lx ''break'' then T_BREAK
      else if text_equals lx ''next'' then T_NEXT
      else if text_equals lx ''redo'' then T_REDO
      else if text_equals lx ''raise'' then T_RAISE
      else if text_equals lx ''retry'' then T_RETRY
      else if text_equals lx ''yield'' then T_YIELD
      else if text_equals lx ''begin'' then T_BEGIN
      else if text_equals lx ''rescue'' then T_RESCUE
      else if text_equals lx ''ensure'' then T_ENSURE
      else if text_equals lx ''is'' then T_IS
      else T_IDENTIFIER)"

definition token :: "DiamondLexer \<Rightarrow> DiamondTokenKind \<Rightarrow> DiamondToken" where
  "token lx kind =
     \<lparr>token_kind = kind,
      token_span = \<lparr>span_start = start lx, span_length = current lx - start lx,
                    span_line = token_line lx, span_column = token_column lx\<rparr>\<rparr>"

definition diamond_lexer_init :: "string \<Rightarrow> DiamondLexer" where
  "diamond_lexer_init s =
     \<lparr>source = s, start = 0, current = 0, line = 1, column = 1, token_line = 1, token_column = 1,
      previous = T_EOF\<rparr>"

definition is_base_digit :: "char \<Rightarrow> nat \<Rightarrow> bool" where
  "is_base_digit c base =
     (if base = 16
      then is_digit c \<or> 97 \<le> byte c \<and> byte c \<le> 102 \<or> 65 \<le> byte c \<and> byte c \<le> 70
      else 48 \<le> byte c \<and> byte c < 48 + base)"

subsection \<open>Lookahead\<close>

function chain_ahead :: "string \<Rightarrow> bool" where
  "chain_ahead rest =
     (let c = byte_at rest 0
      in if rest = [] then False
         else if c = CHR '' '' \<or> c = CHR 0x09 \<or> c = CHR 0x0D \<or> c = CHR 0x0A then chain_ahead (drop 1 rest)
         else if c = CHR ''#'' then
           (if take 7 rest = ''#line 1'' then False
            else chain_ahead (dropWhile (\<lambda>c. c \<noteq> CHR 0x0A) rest))
         else if c \<noteq> CHR ''.'' then False
         else (let after = byte_at rest 1 in after \<noteq> CHR ''.'' \<and> \<not> is_digit after))"
  by pat_completeness auto
termination
proof (relation "measure length", goal_cases)
  case (3 rest c)
  then obtain r where "rest = CHR ''#'' # r" by (cases rest) auto
  then show ?case using length_dropWhile_le [of "\<lambda>c. c \<noteq> CHR 0x0A" r] by simp
qed auto

declare chain_ahead.simps [simp del]

definition newline_continues_chain :: "DiamondLexer \<Rightarrow> bool" where
  "newline_continues_chain lx = chain_ahead (drop (current lx) (source lx))"

definition regex_allowed :: "DiamondLexer \<Rightarrow> bool" where
  "regex_allowed lx \<longleftrightarrow> previous lx \<notin>
     {T_IDENTIFIER, T_INTEGER, T_FLOAT, T_STRING, T_SYMBOL, T_INSTANCE_VARIABLE, T_CLASS_VARIABLE,
      T_RIGHT_PAREN, T_RIGHT_BRACKET, T_RIGHT_BRACE, T_END, T_TRUE, T_FALSE, T_NIL, T_SELF, T_DEF,
      T_DOT, T_REGEX}"

text \<open>The index just past the closing slash, or \<open>None\<close> when the literal is not closed on its line.\<close>

function regex_close :: "string \<Rightarrow> nat \<Rightarrow> nat option" where
  "regex_close s index =
     (if byte_at s index = CHR ''/'' then Some (index + 1)
      else if byte_at s index = NUL \<or> byte_at s index = CHR 0x0A then None
      else regex_close s (index + (if byte_at s index = CHR 0x5C \<and> byte_at s (index + 1) \<noteq> NUL then 2 else 1)))"
  by pat_completeness auto
termination
  by (relation "measure (\<lambda>(s, index). length s - index)") (auto dest: byte_at_inside)

declare regex_close.simps [simp del]

function regex_flags :: "string \<Rightarrow> nat \<Rightarrow> nat" where
  "regex_flags s index =
     (if byte_at s index = CHR ''i'' \<or> byte_at s index = CHR ''m'' \<or> byte_at s index = CHR ''x''
      then regex_flags s (index + 1) else index)"
  by pat_completeness auto
termination
proof (relation "measure (\<lambda>(s, index). length s - index)", goal_cases)
  case (2 s index)
  then have "index < length s" by (intro byte_at_inside) auto
  then show ?case by simp
qed simp

declare regex_flags.simps [simp del]

fun advance_n :: "nat \<Rightarrow> DiamondLexer \<Rightarrow> DiamondLexer" where
  "advance_n 0 lx = lx"
| "advance_n (Suc n) lx = advance_n n (advance lx)"

definition scan_regex_literal :: "DiamondLexer \<Rightarrow> bool \<times> DiamondLexer" where
  "scan_regex_literal lx =
     (case regex_close (source lx) (current lx) of
        None \<Rightarrow> (False, lx)
      | Some index \<Rightarrow> (True, advance_n (regex_flags (source lx) index - current lx) lx))"

subsection \<open>Blank space and comments\<close>

definition line_reset :: string where
  "line_reset = ''#line 1''"

definition comment_reset :: "DiamondLexer \<Rightarrow> DiamondLexer" where
  "comment_reset lx =
     (let rest = drop (current lx) (source lx)
      in if take 7 rest = line_reset \<and> (byte_at rest 7 = CHR 0x0A \<or> byte_at rest 7 = NUL)
         then lx\<lparr>line := 0\<rparr> else lx)"

lemma advance_while_source [simp]: "source (advance_while P lx) = source lx"
proof (induction P lx rule: advance_while.induct)
  case (1 P lx)
  then show ?case by (subst advance_while.simps) (auto simp: advance_def)
qed

lemma advance_while_mono: "current lx \<le> current (advance_while P lx)"
proof (induction P lx rule: advance_while.induct)
  case (1 P lx)
  show ?case
  proof (cases "peek lx \<noteq> NUL \<and> P (peek lx)")
    case True
    then have "current lx \<le> current (advance lx)" by (simp add: advance_def)
    then show ?thesis using 1 True by (subst advance_while.simps) simp
  next
    case False
    then show ?thesis by (subst advance_while.simps) auto
  qed
qed

lemma advance_simps [simp]:
  "source (advance lx) = source lx" "current (advance lx) = Suc (current lx)" "start (advance lx) = start lx"
  "previous (advance lx) = previous lx" "token_line (advance lx) = token_line lx"
  "token_column (advance lx) = token_column lx"
  by (simp_all add: advance_def)

lemma comment_reset_simps [simp]:
  "source (comment_reset lx) = source lx" "current (comment_reset lx) = current lx"
  "start (comment_reset lx) = start lx" "column (comment_reset lx) = column lx"
  "previous (comment_reset lx) = previous lx" "peek (comment_reset lx) = peek lx"
  by (simp_all add: comment_reset_def Let_def peek_def)

lemma advance_while_strict:
  assumes "peek lx \<noteq> NUL" "P (peek lx)"
  shows "current lx < current (advance_while P lx)"
  using assms advance_while_mono [of "advance lx" P] by (subst advance_while.simps) simp

function skip_whitespace_and_comments :: "DiamondLexer \<Rightarrow> DiamondLexer" where
  "skip_whitespace_and_comments lx =
     (if at_end lx then lx
      else if peek lx = CHR '' '' \<or> peek lx = CHR 0x09 \<or> peek lx = CHR 0x0D
      then skip_whitespace_and_comments (advance lx)
      else if peek lx = CHR ''#''
      then skip_whitespace_and_comments (advance_while (\<lambda>c. c \<noteq> CHR 0x0A) (comment_reset lx))
      else lx)"
  by pat_completeness auto
termination
proof (relation "measure (\<lambda>lx. length (source lx) - current lx)", goal_cases)
  case (2 lx)
  then show ?case using advance_measure by (simp add: at_end_def)
next
  case (3 lx)
  then have "current lx < length (source lx)"
    using byte_at_inside [of "source lx" "current lx"] by (simp add: peek_def at_end_def)
  moreover have "current lx < current (advance_while (\<lambda>c. c \<noteq> CHR 0x0A) (comment_reset lx))"
    using advance_while_strict [of "comment_reset lx" "\<lambda>c. c \<noteq> CHR 0x0A"] 3 by (simp add: at_end_def)
  ultimately show ?case by simp
qed simp

declare skip_whitespace_and_comments.simps [simp del]

subsection \<open>Numbers\<close>

lemma peek_inside: "peek lx \<noteq> NUL \<Longrightarrow> current lx < length (source lx)"
  using byte_at_inside by (simp add: peek_def)

lemma digit_not_NUL: "is_digit c \<Longrightarrow> c \<noteq> NUL"
  by (auto simp: is_digit_def)

lemma base_digit_not_NUL: "is_base_digit c base \<Longrightarrow> c \<noteq> NUL"
  by (auto simp: is_base_digit_def is_digit_def byte_def split: if_splits)

function scan_decimal_digits :: "DiamondLexer \<Rightarrow> bool \<times> DiamondLexer" where
  "scan_decimal_digits lx =
     (if is_digit (peek lx) then scan_decimal_digits (advance lx)
      else if peek lx = CHR ''_'' then
        (if \<not> is_digit (peek1 lx) then (False, advance lx)
         else scan_decimal_digits (advance lx))
      else (True, lx))"
  by pat_completeness auto
termination
  by (relation "measure (\<lambda>lx. length (source lx) - current lx)")
    (use peek_inside digit_not_NUL in \<open>auto intro!: diff_less_mono2\<close>)

declare scan_decimal_digits.simps [simp del]

function prefixed_digits :: "nat \<Rightarrow> DiamondLexer \<Rightarrow> bool \<times> DiamondLexer" where
  "prefixed_digits base lx =
     (if is_base_digit (peek lx) base then prefixed_digits base (advance lx)
      else if peek lx = CHR ''_'' then
        (let lx = advance lx
         in if \<not> is_base_digit (peek lx) base then (False, lx) else prefixed_digits base lx)
      else (True, lx))"
  by pat_completeness auto
termination
  by (relation "measure (\<lambda>(base, lx). length (source lx) - current lx)")
    (use peek_inside base_digit_not_NUL in \<open>auto intro!: diff_less_mono2\<close>)

declare prefixed_digits.simps [simp del]

definition prefix_base :: "char \<Rightarrow> nat" where
  "prefix_base prefix =
     (if prefix = CHR ''x'' \<or> prefix = CHR ''X'' then 16
      else if prefix = CHR ''b'' \<or> prefix = CHR ''B'' then 2
      else if prefix = CHR ''o'' \<or> prefix = CHR ''O'' then 8 else 0)"

definition scan_prefixed_integer :: "DiamondLexer \<Rightarrow> (DiamondToken \<times> DiamondLexer) option" where
  "scan_prefixed_integer lx =
     (let base = prefix_base (peek lx)
      in if base \<noteq> 0 \<and> is_base_digit (peek1 lx) base
         then (case prefixed_digits base (advance lx) of
                 (ok, lx) \<Rightarrow> Some (token lx (if ok then T_INTEGER else T_ERROR), lx))
         else None)"

definition scan_fraction :: "DiamondLexer \<Rightarrow> (bool \<times> bool) \<times> DiamondLexer" where
  "scan_fraction lx =
     (if peek lx = CHR ''.'' \<and> is_digit (peek1 lx)
      then (case scan_decimal_digits (advance lx) of (ok, lx) \<Rightarrow> ((ok, True), lx))
      else ((True, False), lx))"

definition sign_char :: "char \<Rightarrow> bool" where
  "sign_char c \<longleftrightarrow> c = CHR ''+'' \<or> c = CHR ''-''"

definition scan_exponent :: "DiamondLexer \<Rightarrow> (bool \<times> bool) \<times> DiamondLexer" where
  "scan_exponent lx =
     (if peek lx = CHR ''e'' \<or> peek lx = CHR ''E'' then
        (let at = current lx + 1;
             at = (if sign_char (byte_at (source lx) at) then at + 1 else at)
         in if is_digit (byte_at (source lx) at) then
              (let lx = advance lx;
                   lx = (if sign_char (peek lx) then advance lx else lx)
               in case scan_decimal_digits lx of (ok, lx) \<Rightarrow> ((ok, True), lx))
            else ((True, False), lx))
      else ((True, False), lx))"

definition scan_number :: "DiamondLexer \<Rightarrow> DiamondToken \<times> DiamondLexer" where
  "scan_number lx =
     (case scan_decimal_digits lx of
        (False, lx) \<Rightarrow> (token lx T_ERROR, lx)
      | (True, lx) \<Rightarrow>
          (case scan_fraction lx of
             ((False, _), lx) \<Rightarrow> (token lx T_ERROR, lx)
           | ((True, has_fraction), lx) \<Rightarrow>
               (case scan_exponent lx of
                  ((False, _), lx) \<Rightarrow> (token lx T_ERROR, lx)
                | ((True, has_exponent), lx) \<Rightarrow>
                    (token lx (if has_fraction \<or> has_exponent then T_FLOAT else T_INTEGER), lx))))"

subsection \<open>Strings\<close>

text \<open>One character of a string body; a backslash takes the next character with it.\<close>

definition advance_escaped :: "DiamondLexer \<Rightarrow> DiamondLexer" where
  "advance_escaped lx =
     advance (if peek lx = CHR 0x5C \<and> peek1 lx \<noteq> NUL then advance lx else lx)"

lemma advance_escaped_simps [simp]:
  "source (advance_escaped lx) = source lx" "start (advance_escaped lx) = start lx"
  by (simp_all add: advance_escaped_def)

lemma advance_escaped_mono: "Suc (current lx) \<le> current (advance_escaped lx)"
  by (simp add: advance_escaped_def)

function embedded_string :: "DiamondLexer \<Rightarrow> DiamondLexer" where
  "embedded_string lx =
     (if \<not> at_end lx \<and> peek lx \<noteq> CHR ''\"'' then embedded_string (advance_escaped lx) else lx)"
  by pat_completeness auto
termination
  by (relation "measure (\<lambda>lx. length (source lx) - current lx)")
    (use peek_inside advance_escaped_mono in \<open>auto simp: at_end_def Suc_le_eq intro!: diff_less_mono2\<close>)

declare embedded_string.simps [simp del]

lemma embedded_string_mono [simp]:
  "source (embedded_string lx) = source lx \<and> current lx \<le> current (embedded_string lx)"
proof (induction lx rule: embedded_string.induct)
  case (1 lx)
  then show ?case
    using advance_escaped_mono [of lx] by (subst (1 2) embedded_string.simps) auto
qed

function interpolation :: "nat \<Rightarrow> DiamondLexer \<Rightarrow> nat \<times> DiamondLexer" where
  "interpolation depth lx =
     (if \<not> at_end lx \<and> depth > 0 then
        (let embedded = peek lx; lx = advance lx
         in if embedded = CHR ''\"'' then
              (let lx = embedded_string lx
               in interpolation depth (if \<not> at_end lx then advance lx else lx))
            else if embedded = CHR ''{'' then interpolation (depth + 1) lx
            else if embedded = CHR ''}'' then interpolation (depth - 1) lx
            else interpolation depth lx)
      else (depth, lx))"
  by pat_completeness auto

termination
proof (relation "measure (\<lambda>(depth, lx). length (source lx) - current lx)", goal_cases)
  case (2 depth lx c lx1 lx2)
  have "source lx2 = source lx" "Suc (current lx) \<le> current lx2"
    using embedded_string_mono [of lx1] 2 by auto
  then show ?case using 2(1) peek_inside [of lx] by (auto simp: at_end_def)
qed (use peek_inside in \<open>auto simp: at_end_def intro!: diff_less_mono2\<close>)

declare interpolation.simps [simp del]

lemma interpolation_mono [simp]:
  "source (snd (interpolation depth lx)) = source lx \<and> current lx \<le> current (snd (interpolation depth lx))"
proof (induction depth lx rule: interpolation.induct)
  case (1 depth lx)
  let ?e = "embedded_string (advance lx)"
  have e: "source ?e = source lx" "Suc (current lx) \<le> current ?e" using embedded_string_mono [of "advance lx"] by auto
  show ?case
  proof (cases "\<not> at_end lx \<and> depth > 0")
    case True
    note ih = "1.IH" [OF True refl refl]
    show ?thesis
      using True ih e by (subst (1 2) interpolation.simps) (auto simp: Let_def split: if_splits)
  next
    case False
    then show ?thesis by (subst (1 2) interpolation.simps) auto
  qed
qed

function string_body :: "DiamondLexer \<Rightarrow> bool \<times> DiamondLexer" where
  "string_body lx =
     (if \<not> at_end lx \<and> peek lx \<noteq> CHR ''\"'' then
        (if peek lx = CHR ''#'' \<and> peek1 lx = CHR ''{'' then
           (case interpolation 1 (advance (advance lx)) of
              (depth, lx') \<Rightarrow> if depth \<noteq> 0 then (False, lx') else string_body lx')
         else string_body (advance_escaped lx))
      else (\<not> at_end lx, lx))"
  by pat_completeness auto
termination
proof (relation "measure (\<lambda>lx. length (source lx) - current lx)", goal_cases)
  case (2 lx depth lx')
  then have "source lx' = source lx" "Suc (current lx) \<le> current lx'"
    using interpolation_mono [of 1 "advance (advance lx)"] by (metis advance_simps(1) snd_conv,
      metis Suc_leD advance_simps(2) snd_conv)
  then show ?case using 2(1) peek_inside [of lx] by (auto simp: at_end_def)
next
  case (3 lx)
  then show ?case using peek_inside [of lx] advance_escaped_mono [of lx] by (auto simp: at_end_def)
qed simp

declare string_body.simps [simp del]

definition scan_string :: "DiamondLexer \<Rightarrow> DiamondToken \<times> DiamondLexer" where
  "scan_string lx =
     (case string_body lx of
        (False, lx) \<Rightarrow> (token lx T_ERROR, lx)
      | (True, lx) \<Rightarrow> (let lx = advance lx in (token lx T_STRING, lx)))"

subsection \<open>Symbols and the scanner\<close>

definition glued :: "DiamondLexer \<Rightarrow> bool" where
  "glued lx \<longleftrightarrow> start lx > 0 \<and>
     (let before = byte_at (source lx) (start lx - 1)
      in identifier_part before \<or> before = CHR '')'' \<or> before = CHR '']'' \<or> before = CHR ''}'' \<or>
         before = CHR ''\"'')"

definition scan_colon :: "DiamondLexer \<Rightarrow> DiamondToken \<times> DiamondLexer" where
  "scan_colon lx =
     (case match lx (CHR '':'') of
        (True, lx) \<Rightarrow> (token lx T_DOUBLE_COLON, lx)
      | (False, lx) \<Rightarrow>
          (if \<not> glued lx \<and> identifier_start (peek lx) then
             (let lx = advance_while identifier_part lx;
                  lx = (if peek lx = CHR ''?'' \<or> peek lx = CHR ''!'' then advance lx
                        else if peek lx = CHR ''='' \<and> peek1 lx \<noteq> CHR ''='' \<and> peek1 lx \<noteq> CHR ''>'' \<and>
                          peek1 lx \<noteq> CHR ''~'' then advance lx
                        else lx)
              in (token lx T_SYMBOL, lx))
           else (token lx T_COLON, lx)))"

text \<open>A two-way choice on the next character, and its two-step form.\<close>

definition choose_kind ::
    "DiamondLexer \<Rightarrow> char \<Rightarrow> DiamondTokenKind \<Rightarrow> DiamondTokenKind \<Rightarrow> DiamondToken \<times> DiamondLexer" where
  "choose_kind lx expected yes no =
     (case match lx expected of (matched, lx) \<Rightarrow> (token lx (if matched then yes else no), lx))"

definition choose_then ::
    "DiamondLexer \<Rightarrow> char \<Rightarrow> (DiamondLexer \<Rightarrow> DiamondToken \<times> DiamondLexer) \<Rightarrow>
     (DiamondLexer \<Rightarrow> DiamondToken \<times> DiamondLexer) \<Rightarrow> DiamondToken \<times> DiamondLexer" where
  "choose_then lx expected yes no =
     (case match lx expected of (matched, lx) \<Rightarrow> if matched then yes lx else no lx)"

definition emit :: "DiamondTokenKind \<Rightarrow> DiamondLexer \<Rightarrow> DiamondToken \<times> DiamondLexer" where
  "emit kind lx = (token lx kind, lx)"

definition scan_identifier :: "DiamondLexer \<Rightarrow> DiamondToken \<times> DiamondLexer" where
  "scan_identifier lx =
     (let lx = advance_while identifier_part lx;
          lx = (if peek lx = CHR ''?'' \<or> peek lx = CHR ''!'' then advance lx else lx)
      in (token lx (identifier_kind lx), lx))"

definition scan_slash :: "DiamondLexer \<Rightarrow> DiamondToken \<times> DiamondLexer" where
  "scan_slash lx =
     (case (if regex_allowed lx then scan_regex_literal lx else (False, lx)) of
        (True, lx) \<Rightarrow> (token lx T_REGEX, lx)
      | (False, lx) \<Rightarrow> choose_kind lx (CHR ''='') T_SLASH_EQUAL T_SLASH)"

definition scan_punctuation :: "char \<Rightarrow> DiamondLexer \<Rightarrow> DiamondToken \<times> DiamondLexer" where
  "scan_punctuation c lx =
     (if c = CHR ''('' then emit T_LEFT_PAREN lx
      else if c = CHR '')'' then emit T_RIGHT_PAREN lx
      else if c = CHR ''['' then emit T_LEFT_BRACKET lx
      else if c = CHR '']'' then emit T_RIGHT_BRACKET lx
      else if c = CHR ''{'' then emit T_LEFT_BRACE lx
      else if c = CHR ''}'' then emit T_RIGHT_BRACE lx
      else if c = CHR '','' then emit T_COMMA lx
      else if c = CHR ''.'' then
        choose_then lx (CHR ''.'') (\<lambda>lx. choose_kind lx (CHR ''.'') T_DOT_DOT_DOT T_DOT_DOT) (emit T_DOT)
      else if c = CHR '':'' then scan_colon lx
      else if c = CHR ''?'' then emit T_QUESTION lx
      else if c = CHR ''|'' then
        choose_then lx (CHR ''|'') (\<lambda>lx. choose_kind lx (CHR ''='') T_OR_OR_EQUAL T_OR_OR) (emit T_PIPE)
      else if c = CHR ''&'' then
        choose_then lx (CHR ''&'') (\<lambda>lx. choose_kind lx (CHR ''='') T_AND_AND_EQUAL T_AND_AND) (emit T_AMPERSAND)
      else if c = CHR ''+'' then choose_kind lx (CHR ''='') T_PLUS_EQUAL T_PLUS
      else if c = CHR ''-'' then
        choose_then lx (CHR ''='') (emit T_MINUS_EQUAL) (\<lambda>lx. choose_kind lx (CHR ''>'') T_ARROW T_MINUS)
      else if c = CHR ''*'' then choose_kind lx (CHR ''='') T_STAR_EQUAL T_STAR
      else if c = CHR ''/'' then scan_slash lx
      else if c = CHR ''%'' then choose_kind lx (CHR ''='') T_PERCENT_EQUAL T_PERCENT
      else if c = CHR ''^'' then emit T_CARET lx
      else if c = CHR 0x0A then emit T_NEWLINE lx
      else if c = CHR '';'' then emit T_NEWLINE lx
      else if c = CHR ''='' then
        choose_then lx (CHR ''='') (emit T_EQUAL_EQUAL) (\<lambda>lx. choose_kind lx (CHR ''>'') T_FAT_ARROW T_EQUAL)
      else if c = CHR ''!'' then choose_kind lx (CHR ''='') T_BANG_EQUAL T_BANG
      else if c = CHR ''<'' then
        choose_then lx (CHR ''='') (\<lambda>lx. choose_kind lx (CHR ''>'') T_SPACESHIP T_LESS_EQUAL)
          (\<lambda>lx. choose_kind lx (CHR ''<'') T_LESS_LESS T_LESS)
      else if c = CHR ''>'' then
        choose_then lx (CHR ''='') (emit T_GREATER_EQUAL)
          (\<lambda>lx. choose_kind lx (CHR ''>'') T_GREATER_GREATER T_GREATER)
      else emit T_ERROR lx)"

definition scan_after :: "char \<Rightarrow> DiamondLexer \<Rightarrow> DiamondToken \<times> DiamondLexer" where
  "scan_after c lx =
     (case (if c = CHR ''0'' then scan_prefixed_integer lx else None) of
        Some r \<Rightarrow> r
      | None \<Rightarrow>
          (if is_digit c then scan_number lx
           else if c = CHR ''\"'' then scan_string lx
           else if identifier_start c then scan_identifier lx
           else if c = CHR ''@'' \<and> peek lx = CHR ''@'' \<and> identifier_start (peek1 lx) then
             (let lx = advance_while identifier_part (advance lx) in (token lx T_CLASS_VARIABLE, lx))
           else if c = CHR ''@'' \<and> identifier_start (peek lx) then
             (let lx = advance_while identifier_part lx in (token lx T_INSTANCE_VARIABLE, lx))
           else scan_punctuation c lx))"

definition begin_token :: "DiamondLexer \<Rightarrow> DiamondLexer" where
  "begin_token lx = lx\<lparr>start := current lx, token_line := line lx, token_column := column lx\<rparr>"

definition set_previous :: "DiamondToken \<times> DiamondLexer \<Rightarrow> DiamondToken \<times> DiamondLexer" where
  "set_previous r = (fst r, (snd r)\<lparr>previous := token_kind (fst r)\<rparr>)"

lemma skip_mono:
  "source (skip_whitespace_and_comments lx) = source lx \<and> current lx \<le> current (skip_whitespace_and_comments lx)"
proof (induction lx rule: skip_whitespace_and_comments.induct)
  case (1 lx)
  have "current lx \<le> current (advance_while (\<lambda>c. c \<noteq> CHR 0x0A) (comment_reset lx))"
    using advance_while_mono [of "comment_reset lx" "\<lambda>c. c \<noteq> CHR 0x0A"] by simp
  then show ?case
    using 1 by (subst (1 2) skip_whitespace_and_comments.simps) auto
qed

text \<open>A newline before a leading-dot line does not end the statement: the next token is scanned.\<close>

function lexer_scan :: "DiamondLexer \<Rightarrow> DiamondToken \<times> DiamondLexer" where
  "lexer_scan lx =
     (let lx = begin_token (skip_whitespace_and_comments lx)
      in if at_end lx then (token lx T_EOF, lx)
         else let c = peek lx; lx = advance lx
              in if c = CHR 0x0A \<and> newline_continues_chain lx then set_previous (lexer_scan lx)
                 else scan_after c lx)"
  by pat_completeness auto
termination
proof (relation "measure (\<lambda>lx. length (source lx) - current lx)", goal_cases)
  case (2 lx lx1 c lx2)
  let ?s = "skip_whitespace_and_comments lx"
  have lx1: "source lx1 = source lx" "current lx \<le> current lx1"
    using skip_mono [of lx] 2(1) by (simp_all add: begin_token_def)
  moreover have "current lx1 < length (source lx1)" using peek_inside [of lx1] 2(2) by (simp add: at_end_def)
  ultimately show ?case using 2(4) by simp
qed simp

declare lexer_scan.simps [simp del]

definition diamond_lexer_next :: "DiamondLexer \<Rightarrow> DiamondToken \<times> DiamondLexer" where
  "diamond_lexer_next lx = set_previous (lexer_scan lx)"

end
