(* ===== verification/Lexer_Tokens.thy ===== *)
theory Lexer_Tokens
  imports Lexer
begin

text \<open>The lexer's correctness: every scanner consumes characters of the text one at a time, positions
  agree with the text, and the stream of tokens covers the text and ends. The operations are those of
  the theory Lexer (src/src/lexer.c).\<close>

section \<open>Specification\<close>

text \<open>Reaching a state by consuming characters of the text, one at a time.\<close>

definition advances :: "DiamondLexer \<Rightarrow> DiamondLexer \<Rightarrow> bool" where
  "advances lx lx' \<longleftrightarrow> (\<exists>k. lx' = advance_n k lx \<and> (k = 0 \<or> current lx + k \<le> length (source lx)))"

text \<open>The column and line of a position, counted from the text alone.\<close>

primrec column_at :: "string \<Rightarrow> nat \<Rightarrow> nat" where
  "column_at s 0 = 1"
| "column_at s (Suc n) = (if s ! n = CHR 0x0A then 1 else column_at s n + 1)"

primrec line_at :: "string \<Rightarrow> nat \<Rightarrow> nat" where
  "line_at s 0 = 1"
| "line_at s (Suc n) = (if s ! n = CHR 0x0A then line_at s n + 1 else line_at s n)"

definition no_reset :: "string \<Rightarrow> bool" where
  "no_reset s \<longleftrightarrow> list_all (\<lambda>n. take 7 (drop n s) \<noteq> line_reset) [0..<length s]"

definition lexer_inv :: "DiamondLexer \<Rightarrow> bool" where
  "lexer_inv lx \<longleftrightarrow> c_string (source lx) \<and> current lx \<le> length (source lx) \<and>
     column lx = column_at (source lx) (current lx) \<and>
     (no_reset (source lx) \<longrightarrow> line lx = line_at (source lx) (current lx))"

text \<open>The text that separates tokens: blanks, newlines and comments up to the end of their line.\<close>

inductive blank_run :: "string \<Rightarrow> string \<Rightarrow> bool" where
  done_run: "blank_run r r"
| blank_char: "blank_run r r' \<Longrightarrow> c \<in> {CHR '' '', CHR 0x09, CHR 0x0D, CHR 0x0A} \<Longrightarrow> blank_run (c # r) r'"
| comment_run: "blank_run (dropWhile (\<lambda>c. c \<noteq> CHR 0x0A) r) r' \<Longrightarrow> blank_run (CHR ''#'' # r) r'"

section \<open>Consuming characters\<close>

lemma advance_n_add: "advance_n (a + b) lx = advance_n b (advance_n a lx)"
  by (induction a arbitrary: lx) simp_all

lemma advance_n_simps [simp]:
  "source (advance_n k lx) = source lx" "current (advance_n k lx) = current lx + k"
  "start (advance_n k lx) = start lx" "token_line (advance_n k lx) = token_line lx"
  "token_column (advance_n k lx) = token_column lx" "previous (advance_n k lx) = previous lx"
  by (induction k arbitrary: lx) simp_all

lemma advances_refl [simp, intro]: "advances lx lx"
  unfolding advances_def by (rule exI [of _ 0]) simp

lemma advances_trans [trans]: "advances a b \<Longrightarrow> advances b c \<Longrightarrow> advances a c"
proof -
  assume "advances a b" "advances b c"
  then obtain k l where "b = advance_n k a" "k = 0 \<or> current a + k \<le> length (source a)"
    "c = advance_n l b" "l = 0 \<or> current b + l \<le> length (source b)"
    unfolding advances_def by blast
  then show ?thesis unfolding advances_def by (intro exI [of _ "k + l"]) (auto simp: advance_n_add)
qed

lemma advances_step [intro]: "peek lx \<noteq> NUL \<Longrightarrow> advances lx (advance lx)"
  using peek_inside [of lx] unfolding advances_def by (intro exI [of _ 1]) simp

lemma advances_stepI: "advances a b \<Longrightarrow> peek b \<noteq> NUL \<Longrightarrow> advances a (advance b)"
  using advances_trans by blast

lemma advancesD:
  assumes "advances lx lx'"
  shows "source lx' = source lx" "current lx \<le> current lx'" "start lx' = start lx"
    "token_line lx' = token_line lx" "token_column lx' = token_column lx"
    "current lx \<le> length (source lx) \<Longrightarrow> current lx' \<le> length (source lx)"
  using assms by (auto simp: advances_def)

lemma advances_while [intro]: "advances lx (advance_while P lx)"
proof (induction P lx rule: advance_while.induct)
  case (1 P lx)
  then show ?case
    by (subst advance_while.simps) (auto intro: advances_trans [OF advances_step])
qed

lemma advances_decimal: "advances lx (snd (scan_decimal_digits lx))"
proof (induction lx rule: scan_decimal_digits.induct)
  case (1 lx)
  have "is_digit (peek lx) \<or> peek lx = CHR ''_'' \<Longrightarrow> advances lx (advance lx)"
    using digit_not_NUL by (intro advances_step) auto
  then show ?case
    using 1 advances_trans [of lx "advance lx"] by (subst scan_decimal_digits.simps) auto
qed

lemma advances_prefixed: "advances lx (snd (prefixed_digits base lx))"
proof (induction base lx rule: prefixed_digits.induct)
  case (1 base lx)
  have "is_base_digit (peek lx) base \<or> peek lx = CHR ''_'' \<Longrightarrow> advances lx (advance lx)"
    using base_digit_not_NUL by (intro advances_step) auto
  then show ?case
    using 1 advances_trans [of lx "advance lx"] by (subst prefixed_digits.simps) (auto simp: Let_def)
qed

lemma advances_escaped: "peek lx \<noteq> NUL \<Longrightarrow> advances lx (advance_escaped lx)"
  unfolding advance_escaped_def
  by (auto intro!: advances_stepI simp: peek1_def peek_def)

lemma advances_embedded: "advances lx (embedded_string lx)"
proof (induction lx rule: embedded_string.induct)
  case (1 lx)
  then show ?case
    by (subst embedded_string.simps) (auto simp: at_end_def intro: advances_trans [OF advances_escaped])
qed

lemma advances_interpolation: "advances lx (snd (interpolation depth lx))"
proof (induction depth lx rule: interpolation.induct)
  case (1 depth lx)
  show ?case
  proof (cases "\<not> at_end lx \<and> depth > 0")
    case True
    let ?a = "advance lx" and ?e = "embedded_string (advance lx)"
    have a: "advances lx ?a" using True by (auto simp: at_end_def)
    have e: "advances lx (if \<not> at_end ?e then advance ?e else ?e)"
      using advances_trans [OF a advances_embedded] by (auto simp: at_end_def intro: advances_stepI)
    note ih = "1.IH" [OF True refl refl]
    show ?thesis
      using True advances_trans [OF a] advances_trans [OF e] ih
      by (subst interpolation.simps) (auto simp: Let_def)
  next
    case False
    then show ?thesis by (subst interpolation.simps) auto
  qed
qed

lemma advances_string_body: "advances lx (snd (string_body lx))"
proof (induction lx rule: string_body.induct)
  case (1 lx)
  show ?case
  proof (cases "\<not> at_end lx \<and> peek lx \<noteq> CHR 0x22")
    case True
    then have ne: "peek lx \<noteq> NUL" by (simp add: at_end_def)
    show ?thesis
    proof (cases "peek lx = CHR ''#'' \<and> peek1 lx = CHR ''{''")
      case intro: True
      then have "advances lx (advance (advance lx))"
        using ne by (intro advances_stepI advances_step) (auto simp: peek_def peek1_def)
      then have i: "advances lx (snd (interpolation 1 (advance (advance lx))))"
        using advances_interpolation advances_trans by blast
      obtain depth lx' where il: "interpolation 1 (advance (advance lx)) = (depth, lx')" by fastforce
      have "depth = 0 \<Longrightarrow> advances lx' (snd (string_body lx'))"
        using 1(1) [OF True intro il [symmetric]] by simp
      then show ?thesis
        using True intro il i advances_trans [of lx lx'] by (subst string_body.simps) auto
    next
      case False
      then show ?thesis
        using 1(2) [OF True] True advances_trans [OF advances_escaped [OF ne]]
        by (subst string_body.simps) auto
    qed
  next
    case False
    then show ?thesis by (subst string_body.simps) auto
  qed
qed

lemma regex_close_bound:
  "regex_close s i = Some j \<Longrightarrow> i < j \<and> j \<le> length s"
proof (induction s i rule: regex_close.induct)
  case (1 s i)
  show ?case
  proof (cases "byte_at s i = CHR ''/''")
    case True
    then have "i < length s" by (intro byte_at_inside) simp
    then show ?thesis using 1(2) True by (subst (asm) regex_close.simps) auto
  next
    case False
    then show ?thesis
      using 1(2) 1(1) [OF False] by (subst (asm) regex_close.simps) (auto split: if_splits)
  qed
qed

lemma regex_flags_bound: "i \<le> length s \<Longrightarrow> i \<le> regex_flags s i \<and> regex_flags s i \<le> length s"
proof (induction s i rule: regex_flags.induct)
  case (1 s i)
  show ?case
  proof (cases "byte_at s i = CHR ''i'' \<or> byte_at s i = CHR ''m'' \<or> byte_at s i = CHR ''x''")
    case True
    then have "i < length s" by (intro byte_at_inside) auto
    then show ?thesis using 1(1) [OF True] True by (subst (1 2) regex_flags.simps) auto
  next
    case False
    then show ?thesis using 1(2) by (subst (1 2) regex_flags.simps) auto
  qed
qed

lemma advances_regex: "advances lx (snd (scan_regex_literal lx))"
proof (cases "regex_close (source lx) (current lx)")
  case None
  then show ?thesis by (simp add: scan_regex_literal_def)
next
  case (Some j)
  then have "current lx < j" "j \<le> length (source lx)" using regex_close_bound by auto
  then have "current lx < regex_flags (source lx) j" "regex_flags (source lx) j \<le> length (source lx)"
    using regex_flags_bound [of j "source lx"] by auto
  then show ?thesis using Some by (auto simp: scan_regex_literal_def advances_def)
qed

section \<open>Tokens\<close>

text \<open>A scanner's result: the text it consumed and a token for it that is not the end of the text.\<close>

definition scanned :: "DiamondLexer \<Rightarrow> DiamondToken \<times> DiamondLexer \<Rightarrow> bool" where
  "scanned lx r \<longleftrightarrow> advances lx (snd r) \<and> (\<exists>kind. kind \<noteq> T_EOF \<and> fst r = token (snd r) kind)"

lemma scanned_token [intro]: "advances lx lx' \<Longrightarrow> kind \<noteq> T_EOF \<Longrightarrow> scanned lx (token lx' kind, lx')"
  by (auto simp: scanned_def)

lemma scanned_trans: "advances lx lx' \<Longrightarrow> scanned lx' r \<Longrightarrow> scanned lx r"
  by (auto simp: scanned_def intro: advances_trans)

lemma scanned_emit: "kind \<noteq> T_EOF \<Longrightarrow> scanned lx (emit kind lx)"
  by (auto simp: emit_def)

lemma advances_match: "expected \<noteq> NUL \<Longrightarrow> advances lx (snd (match lx expected))"
  by (auto simp: match_def)

lemma scanned_choose_kind:
  "expected \<noteq> NUL \<Longrightarrow> yes \<noteq> T_EOF \<Longrightarrow> no \<noteq> T_EOF \<Longrightarrow> scanned lx (choose_kind lx expected yes no)"
  using advances_match [of expected lx] by (auto simp: choose_kind_def split: prod.splits)

lemma scanned_choose_then:
  assumes "expected \<noteq> NUL" "\<And>lx. scanned lx (yes lx)" "\<And>lx. scanned lx (no lx)"
  shows "scanned lx (choose_then lx expected yes no)"
  using advances_match [of expected lx] assms by (auto simp: choose_then_def intro: scanned_trans split: prod.splits)

lemma advances_if: "(c \<Longrightarrow> advances lx a) \<Longrightarrow> (\<not> c \<Longrightarrow> advances lx b) \<Longrightarrow> advances lx (if c then a else b)"
  by simp

lemma scanned_prefixed: "scan_prefixed_integer lx = Some r \<Longrightarrow> scanned lx r"
proof -
  assume r: "scan_prefixed_integer lx = Some r"
  then have "prefix_base (peek lx) \<noteq> 0" by (auto simp: scan_prefixed_integer_def Let_def split: if_splits)
  then have "advances lx (advance lx)" by (intro advances_step) (auto simp: prefix_base_def)
  then have "advances lx (snd (prefixed_digits (prefix_base (peek lx)) (advance lx)))"
    using advances_prefixed advances_trans by blast
  then show ?thesis
    using r by (auto simp: scan_prefixed_integer_def Let_def split: if_splits prod.splits)
qed

lemma advances_fraction: "advances lx (snd (scan_fraction lx))"
  using advances_trans [OF advances_step advances_decimal, of lx]
  by (auto simp: scan_fraction_def split: prod.splits)

lemma advances_exponent: "advances lx (snd (scan_exponent lx))"
proof -
  let ?l = "if sign_char (peek (advance lx)) then advance (advance lx) else advance lx"
  have "peek lx = CHR ''e'' \<or> peek lx = CHR ''E'' \<Longrightarrow> advances lx ?l"
    by (auto simp: sign_char_def intro!: advances_stepI)
  then have "peek lx = CHR ''e'' \<or> peek lx = CHR ''E'' \<Longrightarrow> advances lx (snd (scan_decimal_digits ?l))"
    using advances_decimal advances_trans by blast
  then show ?thesis by (auto simp: scan_exponent_def Let_def split: prod.splits)
qed

lemma scanned_number: "scanned lx (scan_number lx)"
proof -
  let ?a = "snd (scan_decimal_digits lx)"
  let ?b = "snd (scan_fraction ?a)"
  have "advances lx ?a" "advances ?a ?b" "advances ?b (snd (scan_exponent ?b))"
    by (rule advances_decimal advances_fraction advances_exponent)+
  then have "advances lx ?a" "advances lx ?b" "advances lx (snd (scan_exponent ?b))"
    using advances_trans by blast+
  then show ?thesis by (auto simp: scan_number_def split: prod.splits bool.splits)
qed

lemma string_body_quote: "string_body lx = (True, lx') \<Longrightarrow> peek lx' = CHR 0x22"
proof (induction lx rule: string_body.induct)
  case (1 lx)
  obtain depth lx1 where "interpolation 1 (advance (advance lx)) = (depth, lx1)" by fastforce
  then show ?case
    using 1 by (subst (asm) (3) string_body.simps) (auto split: if_splits)
qed

lemma scanned_string: "scanned lx (scan_string lx)"
proof (cases "string_body lx")
  case (Pair closed lx')
  then have "advances lx lx'" using advances_string_body [of lx] by simp
  moreover have "closed \<Longrightarrow> peek lx' = CHR 0x22" using string_body_quote Pair by simp
  ultimately show ?thesis
    using Pair by (cases closed) (auto simp: scan_string_def Let_def intro!: scanned_token advances_stepI)
qed

lemma identifier_kind_not_EOF: "identifier_kind lx \<noteq> T_EOF"
  unfolding identifier_kind_def by (simp split: if_split)

lemma scanned_identifier: "scanned lx (scan_identifier lx)"
  unfolding scan_identifier_def Let_def
  by (intro scanned_token advances_if identifier_kind_not_EOF) (auto intro: advances_stepI)

lemma scanned_colon: "scanned lx (scan_colon lx)"
proof (cases "match lx (CHR '':'')")
  case (Pair matched lx')
  then have a: "advances lx lx'" using advances_match [of "CHR '':''" lx] by simp
  have "advances lx' (advance_while identifier_part lx')" by auto
  then have "advances lx (advance_while identifier_part lx')" using a advances_trans by blast
  then show ?thesis
    using a Pair by (cases matched) (auto simp: scan_colon_def Let_def intro!: scanned_token advances_stepI)
qed

lemma scanned_slash: "scanned lx (scan_slash lx)"
proof -
  have "advances lx (snd (scan_regex_literal lx))" by (rule advances_regex)
  then show ?thesis
    using scanned_trans [OF _ scanned_choose_kind]
    by (auto simp: scan_slash_def split: prod.splits bool.splits)
qed

lemmas scanned_intros = scanned_emit scanned_choose_kind scanned_choose_then scanned_colon scanned_slash

lemma scanned_punctuation: "scanned lx (scan_punctuation c lx)"
  unfolding scan_punctuation_def by (simp add: scanned_intros split: if_split)

lemma scanned_after: "scanned lx (scan_after c lx)"
proof -
  have "identifier_start (peek1 lx) \<Longrightarrow> peek lx = CHR ''@'' \<Longrightarrow>
      advances lx (advance_while identifier_part (advance lx))"
    by (rule advances_trans [OF advances_step]) auto
  then show ?thesis
    by (auto simp: scan_after_def Let_def scanned_number scanned_string scanned_identifier scanned_punctuation
        intro: scanned_prefixed split: option.splits)
qed

section \<open>Positions and separators\<close>

lemma lexer_inv_advance: "lexer_inv lx \<Longrightarrow> current lx < length (source lx) \<Longrightarrow> lexer_inv (advance lx)"
  by (auto simp: lexer_inv_def advance_def peek_def byte_at_def)

lemma lexer_inv_advance_n:
  "lexer_inv lx \<Longrightarrow> current lx + k \<le> length (source lx) \<Longrightarrow> lexer_inv (advance_n k lx)"
  by (induction k arbitrary: lx) (simp_all add: lexer_inv_advance)

lemma lexer_inv_advances: "lexer_inv lx \<Longrightarrow> advances lx lx' \<Longrightarrow> lexer_inv lx'"
  using lexer_inv_advance_n by (auto simp: advances_def)

lemma lexer_inv_comment_reset: "lexer_inv lx \<Longrightarrow> lexer_inv (comment_reset lx)"
proof -
  have "\<not> (take 7 (drop n s) = line_reset \<and> no_reset s)" for n s
    by (cases "n < length s") (auto simp: no_reset_def list_all_iff line_reset_def)
  then show "lexer_inv lx \<Longrightarrow> lexer_inv (comment_reset lx)"
    by (auto simp: lexer_inv_def comment_reset_def Let_def)
qed

lemma lexer_inv_begin: "lexer_inv (begin_token lx) = lexer_inv lx"
  by (simp add: lexer_inv_def begin_token_def)

lemma drop_peek:
  "peek lx \<noteq> NUL \<Longrightarrow> drop (current lx) (source lx) = peek lx # drop (Suc (current lx)) (source lx)"
  using peek_inside [of lx] Cons_nth_drop_Suc [of "current lx" "source lx"]
  by (metis byte_at_def peek_def)

lemma advance_while_drop:
  "c_string (source lx) \<Longrightarrow>
   drop (current (advance_while P lx)) (source lx) = dropWhile P (drop (current lx) (source lx))"
proof (induction P lx rule: advance_while.induct)
  case (1 P lx)
  show ?case
  proof (cases "peek lx = NUL")
    case True
    then have "length (source lx) \<le> current lx" using byte_at_NUL_iff 1(2) by (simp add: peek_def)
    then show ?thesis using True by (subst advance_while.simps) simp
  next
    case False
    have step: "advance_while P lx = (if P (peek lx) then advance_while P (advance lx) else lx)"
      using False by (subst advance_while.simps) simp
    show ?thesis
      unfolding step drop_peek [OF False] using 1 False by (simp add: drop_peek)
  qed
qed

lemma skip_correct:
  "lexer_inv lx \<Longrightarrow> lexer_inv (skip_whitespace_and_comments lx) \<and>
     blank_run (drop (current lx) (source lx))
       (drop (current (skip_whitespace_and_comments lx)) (source lx))"
proof (induction lx rule: skip_whitespace_and_comments.induct)
  case (1 lx)
  let ?c = "comment_reset lx"
  let ?w = "advance_while (\<lambda>c. c \<noteq> CHR 0x0A) ?c"
  consider (stop) "at_end lx \<or> peek lx \<notin> {CHR '' '', CHR 0x09, CHR 0x0D, CHR ''#''}"
    | (blank) "\<not> at_end lx" "peek lx = CHR '' '' \<or> peek lx = CHR 0x09 \<or> peek lx = CHR 0x0D"
    | (comment) "\<not> at_end lx" "peek lx = CHR ''#''" by auto
  then show ?case
  proof cases
    case stop
    then show ?thesis using 1(3) by (subst (1 2) skip_whitespace_and_comments.simps) (auto intro: done_run)
  next
    case blank
    then have "lexer_inv (advance lx)"
      using 1(3) lexer_inv_advance peek_inside by (simp add: at_end_def)
    then show ?thesis
      using blank 1(1) [OF blank] drop_peek [of lx]
      by (subst (1 2) skip_whitespace_and_comments.simps) (auto simp: at_end_def intro!: blank_char)
  next
    case comment
    have inv: "lexer_inv ?c" "lexer_inv ?w"
      using 1(3) lexer_inv_comment_reset lexer_inv_advances advances_while by blast+
    have "drop (current ?w) (source lx) = dropWhile (\<lambda>c. c \<noteq> CHR 0x0A) (drop (current lx) (source lx))"
      using advance_while_drop [of ?c] 1(3) by (simp add: lexer_inv_def)
    then have w: "dropWhile (\<lambda>c. c \<noteq> CHR 0x0A) (drop (Suc (current lx)) (source lx)) = drop (current ?w) (source lx)"
      using drop_peek [of lx] comment by (simp add: at_end_def)
    have nb: "\<not> (peek lx = CHR '' '' \<or> peek lx = CHR 0x09 \<or> peek lx = CHR 0x0D)" using comment by simp
    have s: "skip_whitespace_and_comments lx = skip_whitespace_and_comments ?w"
      using comment by (subst skip_whitespace_and_comments.simps) simp
    have "blank_run (drop (current ?w) (source lx)) (drop (current (skip_whitespace_and_comments ?w)) (source lx))"
      "lexer_inv (skip_whitespace_and_comments ?w)"
      using 1(2) [OF comment(1) nb comment(2)] inv by auto
    then show ?thesis
      unfolding s using drop_peek [of lx] comment w by (auto simp: at_end_def intro!: comment_run)
  qed
qed

lemma blank_run_trans: "blank_run a b \<Longrightarrow> blank_run b c \<Longrightarrow> blank_run a c"
  by (induction rule: blank_run.induct) (auto intro: blank_run.intros)

section \<open>The next token\<close>

definition next_ok :: "DiamondLexer \<Rightarrow> DiamondToken \<Rightarrow> DiamondLexer \<Rightarrow> bool" where
  "next_ok lx t lx' \<longleftrightarrow>
     lexer_inv lx' \<and> source lx' = source lx \<and> current lx \<le> span_start (token_span t) \<and>
     span_start (token_span t) + span_length (token_span t) = current lx' \<and>
     blank_run (drop (current lx) (source lx)) (drop (span_start (token_span t)) (source lx)) \<and>
     span_column (token_span t) = column_at (source lx) (span_start (token_span t)) \<and>
     (no_reset (source lx) \<longrightarrow> span_line (token_span t) = line_at (source lx) (span_start (token_span t))) \<and>
     (token_kind t = T_EOF \<longleftrightarrow> span_start (token_span t) = length (source lx)) \<and>
     (token_kind t \<noteq> T_EOF \<longrightarrow> span_length (token_span t) > 0)"

lemma next_ok_previous: "next_ok lx t (lx'\<lparr>previous := k\<rparr>) = next_ok lx t lx'"
  by (simp add: next_ok_def lexer_inv_def)

lemma next_ok_blank:
  assumes "next_ok b t c" "source b = source a" "current a \<le> current b"
    "blank_run (drop (current a) (source a)) (drop (current b) (source a))"
  shows "next_ok a t c"
  using assms blank_run_trans by (auto simp: next_ok_def)

lemma scanned_next_ok:
  assumes inv: "lexer_inv lx" and inside: "peek lx \<noteq> NUL" and r: "scanned (advance (begin_token lx)) (t, lx')"
  shows "next_ok lx t lx'"
proof -
  let ?b = "begin_token lx"
  have p: "peek ?b = peek lx" "current ?b = current lx" "source ?b = source lx"
    by (simp_all add: peek_def begin_token_def)
  have len: "current lx < length (source lx)" using peek_inside inside by blast
  have adv: "advances ?b lx'"
    using advances_trans [OF advances_step [of ?b]] r inside p by (simp add: scanned_def)
  then have inv': "lexer_inv lx'" using lexer_inv_advances inv by (metis lexer_inv_begin)
  obtain kind where k: "kind \<noteq> T_EOF" "t = token lx' kind" using r by (auto simp: scanned_def)
  have "advances (advance ?b) lx'" using r by (simp add: scanned_def)
  then have "Suc (current lx) \<le> current lx'" using advancesD(2) p(2) by fastforce
  moreover have "source lx' = source lx" "start lx' = current lx" "token_line lx' = line lx"
      "token_column lx' = column lx"
    using advancesD [OF adv] by (simp_all add: begin_token_def)
  ultimately show ?thesis
    using inv inv' k len by (auto simp: next_ok_def token_def lexer_inv_def intro: done_run)
qed

lemma end_next_ok:
  assumes "lexer_inv lx" "at_end lx"
  shows "next_ok lx (token (begin_token lx) T_EOF) (begin_token lx)"
proof -
  have "current lx = length (source lx)"
    using assms byte_at_NUL_iff [of "source lx" "current lx"] by (simp add: lexer_inv_def at_end_def peek_def)
  then show ?thesis
    using assms by (auto simp: next_ok_def lexer_inv_begin, auto simp: token_def begin_token_def lexer_inv_def intro: done_run)
qed

lemma lexer_scan_ok: "lexer_inv lx \<Longrightarrow> lexer_scan lx = (t, lx') \<Longrightarrow> next_ok lx t lx'"
proof (induction lx arbitrary: t lx' rule: lexer_scan.induct)
  case (1 lx)
  let ?s = "skip_whitespace_and_comments lx"
  let ?b = "begin_token ?s"
  have inv: "lexer_inv ?s" and gap: "blank_run (drop (current lx) (source lx)) (drop (current ?s) (source lx))"
    using skip_correct [OF 1(2)] by auto
  have src: "source ?s = source lx" "current lx \<le> current ?s" using skip_mono by auto
  have b: "peek ?b = peek ?s" "at_end ?b = at_end ?s" "source ?b = source ?s" "current ?b = current ?s"
    by (simp_all add: peek_def at_end_def begin_token_def)
  have "next_ok ?s t lx'"
  proof (cases "at_end ?s")
    case True
    then show ?thesis using 1(3) end_next_ok [OF inv True] b by (subst (asm) lexer_scan.simps) (auto simp: Let_def)
  next
    case False
    then have ne: "peek ?s \<noteq> NUL" by (simp add: at_end_def)
    show ?thesis
    proof (cases "peek ?b = CHR 0x0A \<and> newline_continues_chain (advance ?b)")
      case True
      obtain t1 lx1 where r: "lexer_scan (advance ?b) = (t1, lx1)" by fastforce
      have "lexer_inv (advance ?b)"
        using inv lexer_inv_begin lexer_inv_advance peek_inside [OF ne] b by metis
      then have "next_ok (advance ?b) t1 lx1" using 1(1) [OF refl _ refl refl True _ r] False b by simp
      moreover have "blank_run (drop (current ?s) (source ?s)) (drop (Suc (current ?s)) (source ?s))"
        using drop_peek [OF ne] True b by (auto intro: blank_char done_run)
      ultimately have "next_ok ?s t1 lx1"
        using next_ok_blank [of "advance ?b" t1 lx1 ?s] by (simp add: b)
      then show ?thesis
        using 1(3) True False r b
        by (subst (asm) lexer_scan.simps) (auto simp: Let_def set_previous_def next_ok_previous)
    next
      case no: False
      then have "scan_after (peek ?b) (advance ?b) = (t, lx')"
        using 1(3) False b by (subst (asm) lexer_scan.simps) (auto simp: Let_def)
      then show ?thesis using scanned_next_ok [OF inv ne] scanned_after by metis
    qed
  qed
  then show ?case by (rule next_ok_blank) (use src gap in auto)
qed

lemma diamond_lexer_next_ok:
  assumes "lexer_inv lx" "diamond_lexer_next lx = (t, lx')"
  shows "next_ok lx t lx'"
  using lexer_scan_ok [OF assms(1)] assms(2)
  by (cases "lexer_scan lx") (auto simp: diamond_lexer_next_def set_previous_def next_ok_previous)

lemma lexer_inv_init: "c_string s \<Longrightarrow> lexer_inv (diamond_lexer_init s)"
  by (simp add: lexer_inv_def diamond_lexer_init_def)

section \<open>The token stream\<close>

text \<open>The tokens a client gets that asks for the next one until the end of the text, at most \<open>n\<close>.\<close>

primrec lex_all :: "nat \<Rightarrow> DiamondLexer \<Rightarrow> DiamondToken list" where
  "lex_all 0 lx = []"
| "lex_all (Suc n) lx =
     (case diamond_lexer_next lx of
        (t, lx') \<Rightarrow> t # (if token_kind t = T_EOF then [] else lex_all n lx'))"

text \<open>The spans lie in the text one after the other from \<open>p\<close>, only separators between them, and the
  last one is at the end.\<close>

fun tiles :: "string \<Rightarrow> nat \<Rightarrow> DiamondSpan list \<Rightarrow> bool" where
  "tiles s p [] \<longleftrightarrow> p = length s"
| "tiles s p (span # spans) \<longleftrightarrow>
     p \<le> span_start span \<and> blank_run (drop p s) (drop (span_start span) s) \<and>
     span_start span + span_length span \<le> length s \<and>
     tiles s (span_start span + span_length span) spans"


lemma lex_all_complete:
  "lexer_inv lx \<Longrightarrow> length (source lx) - current lx < n \<Longrightarrow>
   lex_all n lx \<noteq> [] \<and> token_kind (last (lex_all n lx)) = T_EOF \<and>
   T_EOF \<notin> token_kind ` set (butlast (lex_all n lx)) \<and>
   tiles (source lx) (current lx) (map token_span (lex_all n lx))"
proof (induction n arbitrary: lx)
  case (Suc n)
  obtain t lx' where r: "diamond_lexer_next lx = (t, lx')" by fastforce
  have ok: "next_ok lx t lx'" using diamond_lexer_next_ok Suc(2) r by blast
  show ?case
  proof (cases "token_kind t = T_EOF")
    case True
    then show ?thesis using ok r by (auto simp: next_ok_def lexer_inv_def)
  next
    case False
    have inv': "lexer_inv lx'" using ok by (simp add: next_ok_def)
    have "length (source lx') - current lx' < n"
      using ok Suc(3) False by (auto simp: next_ok_def lexer_inv_def)
    then have "lex_all n lx' \<noteq> [] \<and> token_kind (last (lex_all n lx')) = T_EOF \<and>
        T_EOF \<notin> token_kind ` set (butlast (lex_all n lx')) \<and>
        tiles (source lx') (current lx') (map token_span (lex_all n lx'))"
      using Suc(1) [OF inv'] by blast
    moreover have "source lx' = source lx" "current lx' \<le> length (source lx)"
      using ok by (auto simp: next_ok_def lexer_inv_def)
    ultimately show ?thesis
      using ok r False by (simp add: next_ok_def)
  qed
qed simp

lemma lex_all_positions:
  "lexer_inv lx \<Longrightarrow> t \<in> set (lex_all n lx) \<Longrightarrow>
   span_column (token_span t) = column_at (source lx) (span_start (token_span t)) \<and>
   (no_reset (source lx) \<longrightarrow> span_line (token_span t) = line_at (source lx) (span_start (token_span t)))"
proof (induction n arbitrary: lx)
  case (Suc n)
  obtain t1 lx' where r: "diamond_lexer_next lx = (t1, lx')" by fastforce
  have ok: "next_ok lx t1 lx'" using diamond_lexer_next_ok Suc(2) r by blast
  show ?case
    using ok Suc r Suc(1) [of lx'] by (auto simp: next_ok_def split: if_splits)
qed simp

section \<open>Identifiers\<close>






section \<open>Properties\<close>

text \<open>C15: Lexing ends. From any NUL-free text, asking for tokens reaches the end-of-text token after at
  most as many tokens as the text has characters, and it is the only such token. The spans of the tokens
  lie in the text, in order and without overlap, and between two of them there are only blanks, newlines
  and comments.\<close>

theorem lexer_stream_covers_source:
  assumes "c_string s"
  shows "lex_all (Suc (length s)) (diamond_lexer_init s) \<noteq> [] \<and>
    token_kind (last (lex_all (Suc (length s)) (diamond_lexer_init s))) = T_EOF \<and>
    T_EOF \<notin> token_kind ` set (butlast (lex_all (Suc (length s)) (diamond_lexer_init s))) \<and>
    tiles s 0 (map token_span (lex_all (Suc (length s)) (diamond_lexer_init s)))"
  using lex_all_complete [OF lexer_inv_init [OF assms], of "Suc (length s)"]
  by (simp add: diamond_lexer_init_def)

text \<open>C16: Every token carries the column of its first character, counted from the start of its line, and
  its line number, provided the text holds no \<open>#line 1\<close> marker.\<close>

theorem lexer_positions_exact:
  assumes "c_string s" "t \<in> set (lex_all n (diamond_lexer_init s))"
  shows "span_column (token_span t) = column_at s (span_start (token_span t)) \<and>
    (no_reset s \<longrightarrow> span_line (token_span t) = line_at s (span_start (token_span t)))"
  using lex_all_positions [OF lexer_inv_init [OF assms(1)] assms(2)] by (simp add: diamond_lexer_init_def)


theorem lexer_stream_covers_source_witness:
  "c_string ''if x'' \<and>
   token_kind (last (lex_all 5 (diamond_lexer_init ''if x''))) = T_EOF \<and>
   tiles ''if x'' 0 (map token_span (lex_all 5 (diamond_lexer_init ''if x'')))"
  using lexer_stream_covers_source [of "''if x''"] by (simp add: c_string_def numeral_eq_Suc)

lemmas lexer_eval = diamond_lexer_init_def diamond_lexer_next_def lexer_scan.simps skip_whitespace_and_comments.simps
  begin_token_def at_end_def peek_def peek1_def advance_def set_previous_def scan_after_def token_def
  advance_while.simps byte_at_def identifier_start_def identifier_part_def

lemma lex_blank_comma:
  "lex_all 2 (diamond_lexer_init [CHR 0x0A, CHR '','']) =
    [token \<lparr>source = [CHR 0x0A, CHR '',''], start = 0, current = 1, line = 2, column = 1, token_line = 1,
       token_column = 1, previous = T_EOF\<rparr> T_NEWLINE,
     token \<lparr>source = [CHR 0x0A, CHR '',''], start = 1, current = 2, line = 2, column = 2, token_line = 2,
       token_column = 1, previous = T_EOF\<rparr> T_COMMA]"
  by (simp add: lexer_eval ctype_eval numeral_2_eq_2 scan_punctuation_def emit_def newline_continues_chain_def
      chain_ahead.simps)

theorem lexer_positions_exact_witness:
  "span_column (token_span (lex_all 2 (diamond_lexer_init [CHR 0x0A, CHR '','']) ! 1)) =
     column_at [CHR 0x0A, CHR '',''] 1 \<and>
   span_line (token_span (lex_all 2 (diamond_lexer_init [CHR 0x0A, CHR '','']) ! 1)) =
     line_at [CHR 0x0A, CHR '',''] 1"
  using lexer_positions_exact [of "[CHR 0x0A, CHR '','']" "lex_all 2 (diamond_lexer_init [CHR 0x0A, CHR '','']) ! 1" 2]
  by (simp add: lex_blank_comma token_def c_string_def no_reset_def line_reset_def)


end
