(* ===== verification/Crypto.thy ===== *)
theory Crypto
  imports C_Text "HOL-Library.Word"
begin

unbundle bit_operations_syntax

text \<open>
  The portable hash, HMAC ks and Base64 routines (\<open>src/src/portable_crypto.c\<close>). Bytes are \<open>8 word\<close>,
  the chaining value and the message schedule are lists of \<open>32 word\<close>, so that additions wrap as in
  the source. The table of the 64 round constants of SHA-256 (\<open>k\<close> in \<open>sha256_block\<close>) is the
  argument \<open>ks\<close> of the definitions that use it: its numbers are not repeated here and every theorem
  holds for any table. A \<open>memcpy\<close> into an array replaces a segment of the list that stands for it. Null
  pointers are not modelled, a context whose type was never set is (\<open>md_type = None\<close>).
\<close>

section \<open>Definitions\<close>

type_synonym bytes = "8 word list"

datatype EVP_MD = DIGEST_SHA256 | DIGEST_SHA1

fun md_size :: "EVP_MD \<Rightarrow> nat" where
  "md_size DIGEST_SHA256 = 32"
| "md_size DIGEST_SHA1 = 20"

fun md_block :: "EVP_MD \<Rightarrow> nat" where
  "md_block DIGEST_SHA256 = 64"
| "md_block DIGEST_SHA1 = 64"

definition rotate_right :: "32 word \<Rightarrow> nat \<Rightarrow> 32 word" where
  "rotate_right v count = drop_bit count v OR push_bit (32 - count) v"

definition rotate_left :: "32 word \<Rightarrow> nat \<Rightarrow> 32 word" where
  "rotate_left v count = push_bit count v OR drop_bit (32 - count) v"

subsection \<open>Compression\<close>

definition big_endian32 :: "8 word \<Rightarrow> 8 word \<Rightarrow> 8 word \<Rightarrow> 8 word \<Rightarrow> 32 word" where
  "big_endian32 b0 b1 b2 b3 =
     push_bit 24 (ucast b0) OR push_bit 16 (ucast b1) OR push_bit 8 (ucast b2) OR ucast b3"

definition load_block :: "bytes \<Rightarrow> 32 word list" where
  "load_block block = map (\<lambda>i. big_endian32 (block ! (i * 4)) (block ! (i * 4 + 1)) (block ! (i * 4 + 2))
     (block ! (i * 4 + 3))) [0..<16]"

text \<open>The schedule grows by one word per iteration: index \<open>i\<close> of the source is the length so far.\<close>

primrec sha256_schedule :: "nat \<Rightarrow> 32 word list \<Rightarrow> 32 word list" where
  "sha256_schedule 0 w = w"
| "sha256_schedule (Suc n) w =
     (let i = length w;
          s0 = rotate_right (w ! (i - 15)) 7 XOR rotate_right (w ! (i - 15)) 18 XOR drop_bit 3 (w ! (i - 15));
          s1 = rotate_right (w ! (i - 2)) 17 XOR rotate_right (w ! (i - 2)) 19 XOR drop_bit 10 (w ! (i - 2))
      in sha256_schedule n (w @ [w ! (i - 16) + s0 + w ! (i - 7) + s1]))"

type_synonym hash8 = "32 word \<times> 32 word \<times> 32 word \<times> 32 word \<times> 32 word \<times> 32 word \<times> 32 word \<times> 32 word"

definition sha256_round :: "hash8 \<Rightarrow> 32 word \<times> 32 word \<Rightarrow> hash8" where
  "sha256_round v kw =
     (case v of (a, b, c, d, e, f, g, h) \<Rightarrow>
        let s1 = rotate_right e 6 XOR rotate_right e 11 XOR rotate_right e 25;
            t1 = h + s1 + ((e AND f) XOR (NOT e AND g)) + fst kw + snd kw;
            s0 = rotate_right a 2 XOR rotate_right a 13 XOR rotate_right a 22;
            t2 = s0 + ((a AND b) XOR (a AND c) XOR (b AND c))
        in (t1 + t2, a, b, c, d + t1, e, f, g))"

definition sha256_block :: "32 word list \<Rightarrow> 32 word list \<Rightarrow> bytes \<Rightarrow> 32 word list" where
  "sha256_block ks state block =
     (case foldl sha256_round
             (state ! 0, state ! 1, state ! 2, state ! 3, state ! 4, state ! 5, state ! 6, state ! 7)
             (zip ks (sha256_schedule 48 (load_block block))) of
        (a, b, c, d, e, f, g, h) \<Rightarrow>
          [state ! 0 + a, state ! 1 + b, state ! 2 + c, state ! 3 + d,
           state ! 4 + e, state ! 5 + f, state ! 6 + g, state ! 7 + h])"

primrec sha1_schedule :: "nat \<Rightarrow> 32 word list \<Rightarrow> 32 word list" where
  "sha1_schedule 0 w = w"
| "sha1_schedule (Suc n) w =
     (let i = length w
      in sha1_schedule n
           (w @ [rotate_left (w ! (i - 3) XOR w ! (i - 8) XOR w ! (i - 14) XOR w ! (i - 16)) 1]))"

definition sha1_mix :: "nat \<Rightarrow> 32 word \<Rightarrow> 32 word \<Rightarrow> 32 word \<Rightarrow> 32 word \<times> 32 word" where
  "sha1_mix i b c d =
     (if i < 20 then ((b AND c) OR (NOT b AND d), 0x5a827999)
      else if i < 40 then (b XOR c XOR d, 0x6ed9eba1)
      else if i < 60 then ((b AND c) OR (b AND d) OR (c AND d), 0x8f1bbcdc)
      else (b XOR c XOR d, 0xca62c1d6))"

type_synonym hash5 = "32 word \<times> 32 word \<times> 32 word \<times> 32 word \<times> 32 word"

definition sha1_round :: "hash5 \<Rightarrow> nat \<times> 32 word \<Rightarrow> hash5" where
  "sha1_round v iw =
     (case v of (a, b, c, d, e) \<Rightarrow>
        case sha1_mix (fst iw) b c d of
          (f, k) \<Rightarrow> (rotate_left a 5 + f + e + k + snd iw, a, rotate_left b 30, c, d))"

text \<open>The chaining array has eight words; this hash uses the first five.\<close>

definition sha1_block :: "32 word list \<Rightarrow> bytes \<Rightarrow> 32 word list" where
  "sha1_block state block =
     (case foldl sha1_round (state ! 0, state ! 1, state ! 2, state ! 3, state ! 4)
             (List.enumerate 0 (sha1_schedule 64 (load_block block))) of
        (a, b, c, d, e) \<Rightarrow>
          [state ! 0 + a, state ! 1 + b, state ! 2 + c, state ! 3 + d, state ! 4 + e] @ drop 5 state)"

subsection \<open>Streaming digests\<close>

record EVP_MD_CTX =
  md_type :: "EVP_MD option"
  md_state :: "32 word list"
  pending :: bytes
  pending_length :: nat
  total :: "64 word"

definition EVP_MD_CTX_new :: EVP_MD_CTX where
  "EVP_MD_CTX_new =
     \<lparr>md_type = None, md_state = replicate 8 0, pending = replicate 64 0, pending_length = 0, total = 0\<rparr>"

definition copy_at :: "'a list \<Rightarrow> nat \<Rightarrow> 'a list \<Rightarrow> 'a list" where
  "copy_at dst offset src = take offset dst @ src @ drop (offset + length src) dst"

fun initial_state :: "EVP_MD \<Rightarrow> 32 word list" where
  "initial_state DIGEST_SHA256 =
     [0x6a09e667, 0xbb67ae85, 0x3c6ef372, 0xa54ff53a, 0x510e527f, 0x9b05688c, 0x1f83d9ab, 0x5be0cd19]"
| "initial_state DIGEST_SHA1 = [0x67452301, 0xefcdab89, 0x98badcfe, 0x10325476, 0xc3d2e1f0]"

definition EVP_DigestInit_ex :: "EVP_MD_CTX \<Rightarrow> EVP_MD \<Rightarrow> EVP_MD_CTX" where
  "EVP_DigestInit_ex context md =
     (let context = EVP_MD_CTX_new
      in context\<lparr>md_type := Some md, md_state := copy_at (md_state context) 0 (initial_state md)\<rparr>)"

definition block_step :: "32 word list \<Rightarrow> EVP_MD \<Rightarrow> 32 word list \<Rightarrow> bytes \<Rightarrow> 32 word list" where
  "block_step ks md = (case md of DIGEST_SHA256 \<Rightarrow> sha256_block ks | DIGEST_SHA1 \<Rightarrow> sha1_block)"

definition compress_block :: "32 word list \<Rightarrow> EVP_MD \<Rightarrow> EVP_MD_CTX \<Rightarrow> bytes \<Rightarrow> EVP_MD_CTX" where
  "compress_block ks md context block = context\<lparr>md_state := block_step ks md (md_state context) block\<rparr>"

text \<open>The loop over whole blocks, with the bytes left over.\<close>

function compress_blocks :: "32 word list \<Rightarrow> EVP_MD \<Rightarrow> EVP_MD_CTX \<Rightarrow> bytes \<Rightarrow> EVP_MD_CTX \<times> bytes" where
  "compress_blocks ks md context bytes =
     (if length bytes \<ge> 64
      then compress_blocks ks md (compress_block ks md context (take 64 bytes)) (drop 64 bytes)
      else (context, bytes))"
  by pat_completeness auto
termination
  by (relation "measure (\<lambda>(ks, md, context, bytes). length bytes)") auto

declare compress_blocks.simps [simp del]

definition absorb_rest :: "32 word list \<Rightarrow> EVP_MD \<Rightarrow> EVP_MD_CTX \<Rightarrow> bytes \<Rightarrow> EVP_MD_CTX" where
  "absorb_rest ks md context bytes =
     (case compress_blocks ks md context bytes of
        (context, bytes) \<Rightarrow>
          context\<lparr>pending := copy_at (pending context) 0 bytes, pending_length := length bytes\<rparr>)"

definition EVP_DigestUpdate :: "32 word list \<Rightarrow> EVP_MD_CTX \<Rightarrow> bytes \<Rightarrow> EVP_MD_CTX option" where
  "EVP_DigestUpdate ks context bytes =
     (case md_type context of
        None \<Rightarrow> None
      | Some md \<Rightarrow>
          (let context = context\<lparr>total := total context + word_of_nat (length bytes)\<rparr>
           in if pending_length context > 0 then
                (let room = 64 - pending_length context;
                     taken = (if length bytes < room then length bytes else room);
                     context = context\<lparr>pending := copy_at (pending context) (pending_length context) (take taken bytes),
                                       pending_length := pending_length context + taken\<rparr>;
                     bytes = drop taken bytes
                 in if pending_length context < 64 then Some context
                    else Some (absorb_rest ks md
                           ((compress_block ks md context (pending context))\<lparr>pending_length := 0\<rparr>) bytes))
              else Some (absorb_rest ks md context bytes)))"

definition store_word :: "32 word \<Rightarrow> bytes" where
  "store_word w = [ucast (drop_bit 24 w), ucast (drop_bit 16 w), ucast (drop_bit 8 w), ucast w]"

text \<open>\<open>tail[tail_length - 1 - i] = (uint8_t)(bits >> (8 * i))\<close> for \<open>i\<close> from 0 to 7.\<close>

definition length_bytes :: "64 word \<Rightarrow> bytes" where
  "length_bytes bits = map (\<lambda>i. ucast (drop_bit (8 * (7 - i)) bits)) [0..<8]"

definition final_tail :: "EVP_MD_CTX \<Rightarrow> bytes" where
  "final_tail context =
     (let remaining = pending_length context;
          tail = copy_at (replicate 128 0) 0 (take remaining (pending context));
          tail = tail[remaining := 0x80];
          tail_length = (if remaining + 1 + 8 \<le> 64 then 64 else 128)
      in take tail_length (copy_at tail (tail_length - 8) (length_bytes (total context * 8))))"

definition EVP_DigestFinal_ex :: "32 word list \<Rightarrow> EVP_MD_CTX \<Rightarrow> (bytes \<times> EVP_MD_CTX) option" where
  "EVP_DigestFinal_ex ks context =
     (case md_type context of
        None \<Rightarrow> None
      | Some md \<Rightarrow>
          (let context = fst (compress_blocks ks md context (final_tail context))
           in Some (concat (map store_word (take (md_size md div 4) (md_state context))), context)))"

definition digest_message :: "32 word list \<Rightarrow> EVP_MD \<Rightarrow> bytes \<Rightarrow> bytes option" where
  "digest_message ks md data =
     (case EVP_DigestUpdate ks (EVP_DigestInit_ex EVP_MD_CTX_new md) data of
        None \<Rightarrow> None
      | Some context \<Rightarrow> map_option fst (EVP_DigestFinal_ex ks context))"

definition EVP_Digest :: "32 word list \<Rightarrow> EVP_MD \<Rightarrow> bytes \<Rightarrow> (bytes \<times> nat) option" where
  "EVP_Digest ks md data = map_option (\<lambda>out. (out, md_size md)) (digest_message ks md data)"

text \<open>\<open>alloc_ok\<close> says whether the buffer for the keyed message can be allocated.\<close>

definition hmac_block :: "32 word list \<Rightarrow> EVP_MD \<Rightarrow> bytes \<Rightarrow> bytes option" where
  "hmac_block ks md key =
     (if length key > md_block md
      then map_option (copy_at (replicate 64 0) 0) (digest_message ks md key)
      else Some (copy_at (replicate 64 0) 0 key))"

definition HMAC :: "32 word list \<Rightarrow> bool \<Rightarrow> EVP_MD \<Rightarrow> bytes \<Rightarrow> bytes \<Rightarrow> bytes option" where
  "HMAC ks alloc_ok md key data =
     (case hmac_block ks md key of
        None \<Rightarrow> None
      | Some block \<Rightarrow>
          (let inner_pad = map (\<lambda>b. b XOR 0x36) block; outer_pad = map (\<lambda>b. b XOR 0x5c) block
           in if \<not> alloc_ok then None
              else (case digest_message ks md (inner_pad @ data) of
                      None \<Rightarrow> None
                    | Some inner \<Rightarrow> digest_message ks md (outer_pad @ take (md_size md) inner))))"

definition CRYPTO_memcmp :: "bytes \<Rightarrow> bytes \<Rightarrow> bool" where
  "CRYPTO_memcmp a b = (foldl (\<lambda>difference (x, y). difference OR (x XOR y)) 0 (zip a b) \<noteq> 0)"

subsection \<open>Base64\<close>

definition BASE64_ALPHABET :: string where
  "BASE64_ALPHABET = ''ABCDEFGHIJKLMNOPQRSTUVWXYZabcdefghijklmnopqrstuvwxyz0123456789+/''"

definition alphabet_char :: "32 word \<Rightarrow> char" where
  "alphabet_char w = BASE64_ALPHABET ! unat (w AND 63)"

definition encode_triple :: "8 word \<Rightarrow> 8 word \<Rightarrow> 8 word \<Rightarrow> 32 word" where
  "encode_triple b0 b1 b2 = push_bit 16 (ucast b0) OR push_bit 8 (ucast b1) OR ucast b2"

fun EVP_EncodeBlock :: "bytes \<Rightarrow> string" where
  "EVP_EncodeBlock [] = []"
| "EVP_EncodeBlock [b0] =
     (let triple = encode_triple b0 0 0
      in [alphabet_char (drop_bit 18 triple), alphabet_char (drop_bit 12 triple), CHR ''='', CHR ''=''])"
| "EVP_EncodeBlock [b0, b1] =
     (let triple = encode_triple b0 b1 0
      in [alphabet_char (drop_bit 18 triple), alphabet_char (drop_bit 12 triple),
          alphabet_char (drop_bit 6 triple), CHR ''=''])"
| "EVP_EncodeBlock (b0 # b1 # b2 # bs) =
     (let triple = encode_triple b0 b1 b2
      in alphabet_char (drop_bit 18 triple) # alphabet_char (drop_bit 12 triple) #
         alphabet_char (drop_bit 6 triple) # alphabet_char triple # EVP_EncodeBlock bs)"

definition base64_value :: "char \<Rightarrow> int" where
  "base64_value c =
     (if 65 \<le> byte c \<and> byte c \<le> 90 then int (byte c) - 65
      else if 97 \<le> byte c \<and> byte c \<le> 122 then int (byte c) - 97 + 26
      else if 48 \<le> byte c \<and> byte c \<le> 57 then int (byte c) - 48 + 52
      else if c = CHR ''+'' then 62
      else if c = CHR ''/'' then 63 else -1)"

definition decode_char :: "char \<Rightarrow> int" where
  "decode_char c = (if c = CHR ''='' then 0 else base64_value c)"

definition decode_bytes :: "32 word \<Rightarrow> bytes" where
  "decode_bytes triple = [ucast (drop_bit 16 triple), ucast (drop_bit 8 triple), ucast triple]"

fun decode_quads :: "string \<Rightarrow> bytes option" where
  "decode_quads (c0 # c1 # c2 # c3 # cs) =
     (if list_ex (\<lambda>c. decode_char c < 0) [c0, c1, c2, c3] then None
      else map_option ((@) (decode_bytes (foldl (\<lambda>triple c. push_bit 6 triple OR word_of_int (decode_char c)) 0
             [c0, c1, c2, c3]))) (decode_quads cs))"
| "decode_quads cs = Some []"

definition EVP_DecodeBlock :: "string \<Rightarrow> bytes option" where
  "EVP_DecodeBlock s = (if length s mod 4 \<noteq> 0 then None else decode_quads s)"

section \<open>Specification\<close>

text \<open>The Merkle-Damgaard construction of both standards: the message, a one bit, zeros and the length in
  bits, cut into blocks and folded over the compression function.\<close>

definition split_blocks :: "'a list \<Rightarrow> 'a list list" where
  "split_blocks bytes = map (\<lambda>i. take 64 (drop (64 * i) bytes)) [0..<length bytes div 64]"

definition sha_pad :: "nat \<Rightarrow> bytes" where
  "sha_pad n = 0x80 # replicate ((119 - n mod 64) mod 64) 0 @ length_bytes (word_of_nat n * 8)"

definition chaining :: "EVP_MD \<Rightarrow> 32 word list" where
  "chaining md = initial_state md @ replicate (8 - length (initial_state md)) 0"

definition sha_spec :: "32 word list \<Rightarrow> EVP_MD \<Rightarrow> bytes \<Rightarrow> bytes" where
  "sha_spec ks md msg =
     concat (map store_word (take (md_size md div 4)
       (foldl (block_step ks md) (chaining md) (split_blocks (msg @ sha_pad (length msg))))))"

definition key_block :: "32 word list \<Rightarrow> EVP_MD \<Rightarrow> bytes \<Rightarrow> bytes" where
  "key_block ks md key =
     (let k = (if length key > 64 then sha_spec ks md key else key) in k @ replicate (64 - length k) 0)"

definition hmac_spec :: "32 word list \<Rightarrow> EVP_MD \<Rightarrow> bytes \<Rightarrow> bytes \<Rightarrow> bytes" where
  "hmac_spec ks md key msg =
     sha_spec ks md (map (\<lambda>b. b XOR 0x5c) (key_block ks md key) @
       sha_spec ks md (map (\<lambda>b. b XOR 0x36) (key_block ks md key) @ msg))"

text \<open>A context that has taken in the message so far.\<close>

definition absorbed :: "32 word list \<Rightarrow> EVP_MD \<Rightarrow> EVP_MD_CTX \<Rightarrow> bytes \<Rightarrow> bool" where
  "absorbed ks md context msg \<longleftrightarrow>
     md_type context = Some md \<and> length (pending context) = 64 \<and> total context = word_of_nat (length msg) \<and>
     (\<exists>whole part. msg = whole @ part \<and> 64 dvd length whole \<and> length part < 64 \<and>
        pending_length context = length part \<and> take (length part) (pending context) = part \<and>
        md_state context = foldl (block_step ks md) (chaining md) (split_blocks whole))"

section \<open>Blocks\<close>

lemma split_blocks_short [simp]: "length bs < 64 \<Longrightarrow> split_blocks bs = []"
  by (simp add: split_blocks_def)

lemma split_blocks_append:
  assumes "64 dvd length a"
  shows "split_blocks (a @ b) = split_blocks a @ split_blocks b"
proof -
  obtain n where n: "length a = 64 * n" using assms by (elim dvdE)
  have len: "length (a @ b) div 64 = n + length b div 64" "length a div 64 = n" using n by simp_all
  have "split_blocks (a @ b) = map (\<lambda>i. take 64 (drop (64 * i) (a @ b))) ([0..<n] @ [n..<n + length b div 64])"
    unfolding split_blocks_def len upt_add_eq_append [OF le0] ..
  also have "map (\<lambda>i. take 64 (drop (64 * i) (a @ b))) [0..<n] = split_blocks a"
    unfolding split_blocks_def len(2)
  proof (rule map_cong [OF refl])
    fix i assume "i \<in> set [0..<n]"
    then have "64 * i + 64 \<le> 64 * n" by simp
    then show "take 64 (drop (64 * i) (a @ b)) = take 64 (drop (64 * i) a)" using n by simp
  qed
  moreover have "map (\<lambda>i. take 64 (drop (64 * i) (a @ b))) [n..<n + length b div 64] = split_blocks b"
  proof -
    have "[n..<n + length b div 64] = map (\<lambda>i. i + n) [0..<length b div 64]"
      by (simp only: map_add_upt add.commute)
    moreover have "drop (64 * (i + n)) (a @ b) = drop (64 * i) b" for i
      using n by (simp add: algebra_simps)
    ultimately show ?thesis by (simp add: split_blocks_def o_def del: drop_append)
  qed
  ultimately show ?thesis by simp
qed

lemma split_blocks_single [simp]: "length a = 64 \<Longrightarrow> split_blocks a = [a]"
  by (simp add: split_blocks_def)

lemma split_blocks_step: "length bs \<ge> 64 \<Longrightarrow> split_blocks bs = take 64 bs # split_blocks (drop 64 bs)"
  using split_blocks_append [of "take 64 bs" "drop 64 bs"] by (simp add: min_def)

lemma div_mod_step: "64 \<le> (n :: nat) \<Longrightarrow> 64 + 64 * ((n - 64) div 64) = 64 * (n div 64)"
  by (simp add: le_div_geq)

lemma compress_blocks_eq:
  "compress_blocks ks md c bs =
    (c\<lparr>md_state := foldl (block_step ks md) (md_state c) (split_blocks bs)\<rparr>, drop (64 * (length bs div 64)) bs)"
proof (induction ks md c bs rule: compress_blocks.induct)
  case (1 ks md c bs)
  show ?case
  proof (cases "length bs \<ge> 64")
    case True
    then have "64 * (length (drop 64 bs) div 64) + 64 = 64 * (length bs div 64)" using div_mod_step [OF True] by simp
    then show ?thesis
      using 1 [OF True] True
      by (subst compress_blocks.simps) (simp add: split_blocks_step compress_block_def)
  next
    case False
    then show ?thesis by (subst compress_blocks.simps) simp
  qed
qed

lemma copy_at_0: "length src \<le> length dst \<Longrightarrow> take (length src) (copy_at dst 0 src) = src"
  by (simp add: copy_at_def)

lemma length_copy_at [simp]: "offset + length src \<le> length dst \<Longrightarrow> length (copy_at dst offset src) = length dst"
  by (simp add: copy_at_def)

lemma take_copy_at:
  "offset + length src \<le> length dst \<Longrightarrow> take (offset + length src) (copy_at dst offset src) = take offset dst @ src"
  by (simp add: copy_at_def)

section \<open>Streaming\<close>

lemma absorbed_init: "absorbed ks md (EVP_DigestInit_ex c md) []"
  by (cases md) (simp_all add: absorbed_def EVP_DigestInit_ex_def EVP_MD_CTX_new_def chaining_def copy_at_def
      numeral_eq_Suc)

lemma absorb_rest_absorbed:
  assumes "64 dvd length m" "md_type c = Some md" "length (pending c) = 64"
    "md_state c = foldl (block_step ks md) (chaining md) (split_blocks m)"
    "total c = word_of_nat (length (m @ bs))"
  shows "absorbed ks md (absorb_rest ks md c bs) (m @ bs)"
proof -
  let ?n = "64 * (length bs div 64)"
  let ?a = "take ?n bs" and ?rest = "drop ?n bs"
  have rest: "length ?rest = length bs mod 64" by (simp add: minus_mult_div_eq_mod)
  have lt: "length ?rest < 64" unfolding rest by simp
  have "length ?a = ?n" by simp
  then have dvd: "64 dvd length ?a" by (simp del: length_take)
  then have dvd': "64 dvd length (m @ ?a)" using assms(1) by (simp only: length_append dvd_add)
  have "split_blocks bs = split_blocks ?a @ split_blocks ?rest"
    using split_blocks_append [OF dvd, of ?rest] by (simp only: append_take_drop_id)
  then have sb: "split_blocks bs = split_blocks ?a" using lt by (simp only: split_blocks_short append_Nil2)
  let ?c = "absorb_rest ks md c bs"
  have c: "?c = c\<lparr>md_state := foldl (block_step ks md) (md_state c) (split_blocks bs),
      pending := copy_at (pending c) 0 ?rest, pending_length := length ?rest\<rparr>"
    by (simp only: absorb_rest_def compress_blocks_eq prod.case) simp
  have "take (length ?rest) (pending ?c) = ?rest" "length (pending ?c) = 64"
    using copy_at_0 [of ?rest "pending c"] lt assms(3) unfolding c by simp_all
  moreover have "md_state ?c = foldl (block_step ks md) (chaining md) (split_blocks (m @ ?a))"
    unfolding split_blocks_append [OF assms(1)] c using assms(4) sb by simp
  moreover have "m @ bs = (m @ ?a) @ ?rest" by simp
  moreover have "pending_length ?c = length ?rest" "md_type ?c = Some md" "total ?c = total c"
    using assms(2) unfolding c by simp_all
  ultimately show ?thesis
    unfolding absorbed_def using dvd' lt assms(5) by (metis append.assoc)
qed

lemma update_absorbed:
  assumes "absorbed ks md c m"
  shows "\<exists>c'. EVP_DigestUpdate ks c bs = Some c' \<and> absorbed ks md c' (m @ bs)"
proof -
  obtain whole part where a: "md_type c = Some md" "length (pending c) = 64" "total c = word_of_nat (length m)"
    "m = whole @ part" "64 dvd length whole" "length part < 64" "pending_length c = length part"
    "take (length part) (pending c) = part"
    "md_state c = foldl (block_step ks md) (chaining md) (split_blocks whole)"
    using assms unfolding absorbed_def by blast
  have tot: "total c + word_of_nat (length bs) = word_of_nat (length (m @ bs))" using a(3) by simp
  let ?t = "if length bs < 64 - length part then length bs else 64 - length part"
  let ?p = "copy_at (pending c) (length part) (take ?t bs)"
  let ?c = "c\<lparr>total := total c + word_of_nat (length bs), pending := ?p, pending_length := length part + ?t\<rparr>"
  have lt: "length (take ?t bs) = ?t" by simp
  then have tl: "length part + length (take ?t bs) \<le> length (pending c)" using a(2,6) by (auto split: if_splits)
  have tp: "take (length part + ?t) ?p = part @ take ?t bs" "length ?p = 64"
    using take_copy_at [OF tl] length_copy_at [OF tl] a(2,8) unfolding lt by simp_all
  consider "part = []" | (short) "part \<noteq> []" "length part + ?t < 64" | (full) "part \<noteq> []" "\<not> length part + ?t < 64"
    by blast
  then show ?thesis
  proof cases
    case 1
    then show ?thesis
      using absorb_rest_absorbed [of m "c\<lparr>total := total c + word_of_nat (length bs)\<rparr>" md ks bs] a tot
      by (simp add: EVP_DigestUpdate_def)
  next
    case short
    then have t: "?t = length bs" by (auto split: if_splits)
    have "absorbed ks md ?c (m @ bs)"
      unfolding absorbed_def using a tot tp short t
      by (intro conjI exI [of _ whole] exI [of _ "part @ bs"]) simp_all
    moreover have "EVP_DigestUpdate ks c bs = Some ?c"
      using a short by (simp add: EVP_DigestUpdate_def Let_def)
    ultimately show ?thesis by blast
  next
    case full
    then have t: "?t = 64 - length part" "64 - length part \<le> length bs" by (auto split: if_splits)
    have p: "?p = part @ take (64 - length part) bs" using tp a(6) unfolding t(1) by simp
    let ?m = "m @ take (64 - length part) bs"
    have m: "?m = whole @ ?p" using a(4) p by simp
    have dvd: "64 dvd length ?m" unfolding m using a(5) tp(2) by simp
    have sm: "split_blocks ?m = split_blocks whole @ [?p]"
      unfolding m split_blocks_append [OF a(5)] using tp(2) by simp
    let ?d = "(compress_block ks md ?c ?p)\<lparr>pending_length := 0\<rparr>"
    have "absorbed ks md (absorb_rest ks md ?d (drop (64 - length part) bs)) (?m @ drop (64 - length part) bs)"
    proof (rule absorb_rest_absorbed [OF dvd])
      show "md_type ?d = Some md" "length (pending ?d) = 64" using a(1) tp(2) by (simp_all add: compress_block_def)
      show "md_state ?d = foldl (block_step ks md) (chaining md) (split_blocks ?m)"
        unfolding sm using a(9) by (simp add: compress_block_def)
      show "total ?d = word_of_nat (length (?m @ drop (64 - length part) bs))"
        using tot by (simp add: compress_block_def del: length_append)
    qed
    moreover have "EVP_DigestUpdate ks c bs = Some (absorb_rest ks md ?d (drop (64 - length part) bs))"
      using a(1,7) full t by (simp add: EVP_DigestUpdate_def Let_def)
    ultimately show ?thesis by simp
  qed
qed

lemma updates_absorbed:
  "absorbed ks md c m \<Longrightarrow> \<exists>c'. foldl (\<lambda>r bs. Option.bind r (\<lambda>c. EVP_DigestUpdate ks c bs)) (Some c) cs = Some c' \<and>
     absorbed ks md c' (m @ concat cs)"
proof (induction cs arbitrary: c m)
  case (Cons bs cs)
  obtain c' where "EVP_DigestUpdate ks c bs = Some c'" "absorbed ks md c' (m @ bs)"
    using update_absorbed [OF Cons(2)] by blast
  then show ?case using Cons(1) [of c' "m @ bs"] by simp
qed simp

section \<open>Finishing\<close>

lemma length_length_bytes [simp]: "length (length_bytes bits) = 8"
  by (simp add: length_bytes_def)

lemma pad_zeros:
  fixes n r :: nat
  assumes "64 dvd n" "r < 64"
  shows "(119 - (n + r) mod 64) mod 64 = (if r \<le> 55 then 55 - r else 119 - r)"
proof -
  have "(n + r) mod 64 = r" using assms by (auto elim!: dvdE)
  moreover have "r \<le> 55 \<Longrightarrow> (119 - r) mod 64 = 55 - r"
  proof -
    assume "r \<le> 55"
    then have "119 - r = (55 - r) + 64" by simp
    then have "(119 - r) mod 64 = (55 - r) mod 64" by (simp only: mod_add_self2)
    then show ?thesis by simp
  qed
  moreover have "\<not> r \<le> 55 \<Longrightarrow> (119 - r) mod 64 = 119 - r" by simp
  ultimately show ?thesis by simp
qed

lemma final_tail_eq:
  assumes "length (pending c) = 64" "length part < 64" "pending_length c = length part"
    "take (length part) (pending c) = part"
  shows "final_tail c = part @ 0x80 # replicate (if length part \<le> 55 then 55 - length part else 119 - length part) 0 @
    length_bytes (total c * 8)"
proof -
  let ?r = "length part"
  have t: "copy_at (replicate 128 0) 0 part = part @ replicate (128 - ?r) 0"
    by (simp add: copy_at_def)
  have "128 - ?r = Suc (127 - ?r)" using assms(2) by simp
  then have u: "(part @ replicate (128 - ?r) 0)[?r := 0x80] = part @ 0x80 # replicate (127 - ?r) 0"
    by simp
  show ?thesis
    using assms t u

    by (simp add: final_tail_def Let_def copy_at_def take_Cons' min_def)
qed

lemma final_absorbed:
  assumes "absorbed ks md c m"
  shows "\<exists>c'. EVP_DigestFinal_ex ks c = Some (sha_spec ks md m, c')"
proof -
  obtain whole part where a: "md_type c = Some md" "length (pending c) = 64" "total c = word_of_nat (length m)"
    "m = whole @ part" "64 dvd length whole" "length part < 64" "pending_length c = length part"
    "take (length part) (pending c) = part"
    "md_state c = foldl (block_step ks md) (chaining md) (split_blocks whole)"
    using assms unfolding absorbed_def by blast
  have "final_tail c = part @ sha_pad (length m)"
    using final_tail_eq [OF a(2,6,7,8)] pad_zeros [OF a(5,6)] a(3,4) by (simp add: sha_pad_def)
  then have "split_blocks whole @ split_blocks (final_tail c) = split_blocks (m @ sha_pad (length m))"
    using split_blocks_append [OF a(5), of "part @ sha_pad (length m)"] a(4) by simp
  then have "foldl (block_step ks md) (md_state c) (split_blocks (final_tail c)) =
      foldl (block_step ks md) (chaining md) (split_blocks (m @ sha_pad (length m)))"
    unfolding a(9) by (metis foldl_append)
  then show ?thesis using a(1) by (simp add: EVP_DigestFinal_ex_def compress_blocks_eq sha_spec_def)
qed

lemma digest_message_eq: "digest_message ks md m = Some (sha_spec ks md m)"
proof -
  obtain c where c: "EVP_DigestUpdate ks (EVP_DigestInit_ex EVP_MD_CTX_new md) m = Some c" "absorbed ks md c m"
    using update_absorbed [OF absorbed_init, of ks _ md m] by auto
  then show ?thesis using final_absorbed [OF c(2)] by (auto simp: digest_message_def)
qed

lemma block_step_length: "length st = 8 \<Longrightarrow> length (block_step ks md st b) = 8"
  by (cases md) (simp_all add: block_step_def sha256_block_def sha1_block_def split: prod.splits)

lemma fold_blocks_length: "length st = 8 \<Longrightarrow> length (foldl (block_step ks md) st bs) = 8"
  by (induction bs arbitrary: st) (simp_all add: block_step_length)

lemma length_store_words: "length (concat (map store_word ws)) = 4 * length ws"
  by (induction ws) (simp_all add: store_word_def)

lemma sha_spec_length: "length (sha_spec ks md m) = md_size md"
proof -
  have "length (chaining md) = 8" by (cases md) (simp_all add: chaining_def)
  then show ?thesis
    by (cases md) (simp_all add: sha_spec_def length_store_words fold_blocks_length)
qed

lemma foldl_or_zero:
  "foldl (\<lambda>d (x, y). d OR (x XOR y)) (d :: 8 word) xs = 0 \<longleftrightarrow> d = 0 \<and> (\<forall>(x, y) \<in> set xs. x = y)"
proof (induction xs arbitrary: d)
  case (Cons p xs)
  have "d OR e = 0 \<longleftrightarrow> d = 0 \<and> e = 0" for d e :: "8 word"
    by (metis or.left_neutral or.right_neutral or_eq_0_iff)
  moreover have "x XOR y = 0 \<longleftrightarrow> x = y" for x y :: "8 word" by (metis xor.right_neutral xor_self_eq bit.xor_left_self)
  ultimately show ?case using Cons by (cases p) auto
qed simp

lemma hmac_eq:
  "HMAC ks alloc_ok md key data = (if alloc_ok then Some (hmac_spec ks md key data) else None)"
proof -
  have "hmac_block ks md key = Some (key_block ks md key)"
  proof (cases "length key > 64")
    case True
    then show ?thesis
      by (cases md) (simp_all add: hmac_block_def digest_message_eq key_block_def copy_at_def sha_spec_length)
  next
    case False
    then show ?thesis by (cases md) (simp_all add: hmac_block_def key_block_def copy_at_def)
  qed
  then show ?thesis
    by (simp add: HMAC_def digest_message_eq hmac_spec_def sha_spec_length)
qed

lemma memcmp_equal:
  assumes "length a = length b"
  shows "CRYPTO_memcmp a b \<longleftrightarrow> a \<noteq> b"
proof -
  have "(\<forall>(x, y) \<in> set (zip a b). x = y) \<longleftrightarrow> a = b"
    using assms by (induction a b rule: list_induct2) auto
  then show ?thesis unfolding CRYPTO_memcmp_def foldl_or_zero by simp
qed

section \<open>Base64\<close>

lemma base64_value_alphabet: "map base64_value BASE64_ALPHABET = map int [0..<64]"
  by (simp add: BASE64_ALPHABET_def base64_value_def byte_def upt_conv_Cons)

lemma length_alphabet: "length BASE64_ALPHABET = 64"
  by (simp add: BASE64_ALPHABET_def)

lemma alphabet_no_pad: "CHR ''='' \<notin> set BASE64_ALPHABET"
  by (simp add: BASE64_ALPHABET_def)

lemma and_63: "x AND 63 = take_bit 6 x" for x :: "32 word"
  by (simp add: take_bit_eq_mask mask_numeral)

lemma decode_alphabet_char: "decode_char (alphabet_char w) = int (unat (w AND 63))"
proof -
  have lt: "unat (w AND 63) < 64"
    using take_bit_nat_less_exp [of 6 "unat w"] unfolding and_63 by (simp add: unsigned_take_bit_eq)
  then have "alphabet_char w \<in> set BASE64_ALPHABET"
    unfolding alphabet_char_def by (intro nth_mem) (simp add: length_alphabet)
  then have "alphabet_char w \<noteq> CHR ''=''" using alphabet_no_pad by metis
  moreover have "base64_value (alphabet_char w) = int (unat (w AND 63))"
    using lt arg_cong [OF base64_value_alphabet, of "\<lambda>xs. xs ! unat (w AND 63)"]
    by (simp add: alphabet_char_def length_alphabet del: upt_rec_numeral)
  ultimately show ?thesis by (simp add: decode_char_def)
qed

lemma decode_quad_triple:
  fixes t :: "32 word"
  assumes "take_bit 24 t = t"
  shows "push_bit 6 (push_bit 6 (push_bit 6 (push_bit 6 0 OR (drop_bit 18 t AND 63)) OR (drop_bit 12 t AND 63)) OR
    (drop_bit 6 t AND 63)) OR (t AND 63) = t"
proof -
  have t: "bit t n \<Longrightarrow> n < 24" for n using assms by (metis bit_take_bit_iff)
  have "bit (push_bit 6 (push_bit 6 (push_bit 6 (push_bit 6 0 OR take_bit 6 (drop_bit 18 t)) OR take_bit 6 (drop_bit 12 t)) OR
    take_bit 6 (drop_bit 6 t)) OR take_bit 6 t) n = bit t n" if "n < 32" for n
  proof -
    consider "n < 6" | "6 \<le> n" "n < 12" | "12 \<le> n" "n < 18" | "18 \<le> n" "n < 24" | "24 \<le> n" by linarith
    then show ?thesis using t [of n] that by cases (auto simp: bit_simps le_add_diff_inverse)
  qed
  then show ?thesis unfolding and_63 by (intro bit_word_eqI) auto
qed

lemma byte_bit: "bit b n \<Longrightarrow> n < 8" for b :: "8 word"
  using bit_imp_le_length by fastforce

lemma encode_triple_bits: "take_bit 24 (encode_triple b0 b1 b2) = encode_triple b0 b1 b2"
  by (intro bit_word_eqI) (auto simp: encode_triple_def bit_simps dest: byte_bit)

lemma decode_encode_triple: "decode_bytes (encode_triple b0 b1 b2) = [b0, b1, b2]"
proof -
  have "ucast (drop_bit 16 (encode_triple b0 b1 b2)) = b0" "ucast (drop_bit 8 (encode_triple b0 b1 b2)) = b1"
    "ucast (encode_triple b0 b1 b2) = b2"
    by (intro bit_word_eqI; auto simp: encode_triple_def bit_simps dest: byte_bit)+
  then show ?thesis by (simp add: decode_bytes_def)
qed

lemma encode_triple_pad:
  "drop_bit 6 (encode_triple b0 0 0) AND 63 = 0" "encode_triple b0 0 0 AND 63 = 0" "encode_triple b0 b1 0 AND 63 = 0"
  unfolding and_63 by (intro bit_word_eqI; auto simp: encode_triple_def bit_simps dest: byte_bit)+

lemma word_of_decode [simp]: "word_of_int (decode_char (alphabet_char w)) = w AND 63"
  by (simp add: decode_alphabet_char)

lemma decode_pad [simp]: "decode_char (CHR ''='') = 0"
  by (simp add: decode_char_def)

lemma decode_quad:
  assumes "word_of_int (decode_char c0) = drop_bit 18 t AND 63" "word_of_int (decode_char c1) = drop_bit 12 t AND 63"
    "word_of_int (decode_char c2) = drop_bit 6 t AND 63" "word_of_int (decode_char c3) = t AND 63"
    "take_bit 24 t = t" "decode_char c0 \<ge> 0" "decode_char c1 \<ge> 0" "decode_char c2 \<ge> 0" "decode_char c3 \<ge> 0"
  shows "decode_quads (c0 # c1 # c2 # c3 # cs) = map_option ((@) (decode_bytes t)) (decode_quads cs)"
proof -
  have "foldl (\<lambda>triple c. push_bit 6 triple OR word_of_int (decode_char c)) 0 [c0, c1, c2, c3] = t"
    using decode_quad_triple [OF assms(5)] by (simp only: foldl.simps assms(1-4))
  then show ?thesis using assms(6-9) by (simp del: foldl.simps)
qed

lemma decode_alphabet_nonneg [simp]: "decode_char (alphabet_char w) \<ge> 0"
  by (simp add: decode_alphabet_char)

lemma decode_quads_encode:
  "decode_quads (EVP_EncodeBlock bs) = Some (bs @ replicate ((3 - length bs mod 3) mod 3) 0)"
proof (induction bs rule: EVP_EncodeBlock.induct)
  case (2 b0)
  show ?case
    unfolding EVP_EncodeBlock.simps Let_def
    by (subst decode_quad [OF _ _ _ _ encode_triple_bits [of b0 0 0]])
      (simp_all add: encode_triple_pad decode_encode_triple numeral_2_eq_2 del: decode_quads.simps(1))
next
  case (3 b0 b1)
  show ?case
    unfolding EVP_EncodeBlock.simps Let_def
    by (subst decode_quad [OF _ _ _ _ encode_triple_bits [of b0 b1 0]])
      (simp_all add: encode_triple_pad decode_encode_triple del: decode_quads.simps(1))
next
  case (4 b0 b1 b2 bs)
  have "length (b0 # b1 # b2 # bs) = length bs + 3" by simp
  then have "length (b0 # b1 # b2 # bs) mod 3 = length bs mod 3" by (simp only: mod_add_self2)
  then show ?case
    unfolding EVP_EncodeBlock.simps Let_def
    by (subst decode_quad [OF _ _ _ _ encode_triple_bits [of b0 b1 b2]])
      (simp_all only: 4 decode_encode_triple word_of_decode decode_alphabet_nonneg option.map append.simps)
qed simp

lemma length_encode: "length (EVP_EncodeBlock bs) = 4 * ((length bs + 2) div 3)"
proof (induction bs rule: EVP_EncodeBlock.induct)
  case (4 b0 b1 b2 bs)
  have "(5 + length bs) div 3 = Suc ((length bs + 2) div 3)" by presburger
  then show ?case using 4 by (simp add: Let_def)
qed (simp_all add: Let_def)

section \<open>Properties\<close>

text \<open>C18: However a message is cut into updates, the streaming digest is the standard's digest of the
  whole message: the padded message folded block by block over the compression function.\<close>

theorem digest_stream_is_digest:
  "\<exists>context context'.
     foldl (\<lambda>r bs. Option.bind r (\<lambda>c. EVP_DigestUpdate ks c bs)) (Some (EVP_DigestInit_ex c0 md)) chunks = Some context \<and>
     EVP_DigestFinal_ex ks context = Some (sha_spec ks md (concat chunks), context') \<and>
     length (sha_spec ks md (concat chunks)) = md_size md"
proof -
  obtain c where "foldl (\<lambda>r bs. Option.bind r (\<lambda>c. EVP_DigestUpdate ks c bs)) (Some (EVP_DigestInit_ex c0 md)) chunks = Some c"
    "absorbed ks md c (concat chunks)"
    using updates_absorbed [OF absorbed_init, of ks c0 md chunks] by auto
  then show ?thesis using final_absorbed sha_spec_length by metis
qed

end
