(* ===== verification/Vm_Status.thy ===== *)
theory Vm_Status
  imports Prelude
begin

text \<open>
  The status codes of the virtual machine (\<open>src/src/vm.h\<close>, \<open>DiamondVmStatus\<close>) and their texts
  (\<open>src/src/vm.c\<close>), shared by the components that return them. An operation that returns a value
  through an out parameter and a status has the result type \<open>DiamondVmStatus + 'a\<close>: \<open>Inr\<close> the value
  when the status is \<open>DIAMOND_VM_OK\<close>.
\<close>

datatype DiamondVmStatus =
    DIAMOND_VM_OK
  | DIAMOND_VM_INVALID_BYTECODE
  | DIAMOND_VM_TYPE_ERROR
  | DIAMOND_VM_INTEGER_OVERFLOW
  | DIAMOND_VM_DIVISION_BY_ZERO
  | DIAMOND_VM_ARITY_ERROR
  | DIAMOND_VM_STACK_OVERFLOW
  | DIAMOND_VM_OUT_OF_MEMORY
  | DIAMOND_VM_INDEX_ERROR
  | DIAMOND_VM_EXCEPTION
  | DIAMOND_VM_YIELDED
  | DIAMOND_VM_YIELD_WITHOUT_FIBER
  | DIAMOND_VM_FIBER_NOT_RESUMABLE
  | DIAMOND_VM_IO_ERROR
  | DIAMOND_VM_REGEXP_ERROR
  | DIAMOND_VM_WOULD_BLOCK
  | DIAMOND_VM_PROGRAM_ERROR
  | DIAMOND_VM_THREAD_ERROR
  | DIAMOND_VM_SQLITE3_ERROR
  | DIAMOND_VM_POSTGRES_ERROR
  | DIAMOND_VM_MYSQL_ERROR
  | DIAMOND_VM_NO_METHOD_ERROR
  | DIAMOND_VM_JSON_ERROR
  | DIAMOND_VM_SUPERVISOR_ERROR
  | DIAMOND_VM_SANDBOX_ERROR
  | DIAMOND_VM_RESOURCE_LIMIT_ERROR
  | DIAMOND_VM_FROZEN_ERROR
  | DIAMOND_VM_NONLOCAL_EXIT
  | DIAMOND_VM_CONSTANT_ERROR
  | DIAMOND_VM_INTERRUPTED
  | DIAMOND_VM_RESOURCE_EXHAUSTED

type_synonym 'a vm_result = "DiamondVmStatus + 'a"

fun diamond_vm_status_name :: "DiamondVmStatus \<Rightarrow> string" where
  "diamond_vm_status_name DIAMOND_VM_OK = ''ok''"
| "diamond_vm_status_name DIAMOND_VM_INVALID_BYTECODE = ''invalid bytecode''"
| "diamond_vm_status_name DIAMOND_VM_TYPE_ERROR = ''type error''"
| "diamond_vm_status_name DIAMOND_VM_INTEGER_OVERFLOW = ''integer overflow''"
| "diamond_vm_status_name DIAMOND_VM_DIVISION_BY_ZERO = ''division by zero''"
| "diamond_vm_status_name DIAMOND_VM_ARITY_ERROR = ''wrong number of arguments''"
| "diamond_vm_status_name DIAMOND_VM_STACK_OVERFLOW = ''call stack overflow''"
| "diamond_vm_status_name DIAMOND_VM_OUT_OF_MEMORY = ''out of memory''"
| "diamond_vm_status_name DIAMOND_VM_INDEX_ERROR = ''array index out of bounds''"
| "diamond_vm_status_name DIAMOND_VM_EXCEPTION = ''uncaught exception''"
| "diamond_vm_status_name DIAMOND_VM_YIELDED = ''yielded''"
| "diamond_vm_status_name DIAMOND_VM_YIELD_WITHOUT_FIBER = ''yield outside a fiber''"
| "diamond_vm_status_name DIAMOND_VM_FIBER_NOT_RESUMABLE = ''fiber is not resumable''"
| "diamond_vm_status_name DIAMOND_VM_IO_ERROR = ''I/O error''"
| "diamond_vm_status_name DIAMOND_VM_REGEXP_ERROR = ''regexp error''"
| "diamond_vm_status_name DIAMOND_VM_WOULD_BLOCK = ''would block''"
| "diamond_vm_status_name DIAMOND_VM_PROGRAM_ERROR = ''constructed program failed''"
| "diamond_vm_status_name DIAMOND_VM_THREAD_ERROR = ''thread error''"
| "diamond_vm_status_name DIAMOND_VM_SQLITE3_ERROR = ''sqlite3 error''"
| "diamond_vm_status_name DIAMOND_VM_POSTGRES_ERROR = ''postgres error''"
| "diamond_vm_status_name DIAMOND_VM_MYSQL_ERROR = ''mysql error''"
| "diamond_vm_status_name DIAMOND_VM_NO_METHOD_ERROR = ''undefined method''"
| "diamond_vm_status_name DIAMOND_VM_JSON_ERROR = ''json error''"
| "diamond_vm_status_name DIAMOND_VM_SUPERVISOR_ERROR = ''supervisor error''"
| "diamond_vm_status_name DIAMOND_VM_SANDBOX_ERROR = ''sandbox error''"
| "diamond_vm_status_name DIAMOND_VM_RESOURCE_LIMIT_ERROR = ''resource limit exceeded''"
| "diamond_vm_status_name DIAMOND_VM_FROZEN_ERROR = ''frozen object cannot be modified''"
| "diamond_vm_status_name DIAMOND_VM_NONLOCAL_EXIT = ''break or return from a block that can'' @ [CHR 0x27] @ ''t reach its target''"
| "diamond_vm_status_name DIAMOND_VM_CONSTANT_ERROR = ''constant initialization error''"
| "diamond_vm_status_name DIAMOND_VM_INTERRUPTED = ''interrupted by supervisor''"
| "diamond_vm_status_name DIAMOND_VM_RESOURCE_EXHAUSTED = ''resource budget exhausted''"

end
