(* ===== verification/Crypto_Vm.thy ===== *)
theory Crypto_Vm
  imports Crypto Vm_Status
begin

unbundle bit_operations_syntax

text \<open>
  The VM's cryptographic builtins over the portable routines (\<open>src/src/vm_crypto.c\<close>): hexadecimal
  digests and keyed digests, signature verification, random hexadecimal text and Base64. An argument
  is a byte String, an Int or another value; \<open>crypto_env\<close> says which allocations succeed and what the
  system's entropy source returns. The texts of the error messages are not modelled, only the status.
\<close>

section \<open>Definitions\<close>

datatype crypto_value = Str_value bytes | Int_value int | Other_value

record crypto_env =
  malloc_ok :: "nat \<Rightarrow> bool"
  allocate_string_ok :: "nat \<Rightarrow> bool"
  getentropy :: "nat \<Rightarrow> bytes option"

definition INT_MAX :: nat where
  "INT_MAX = 2 ^ 31 - 1"

definition allocate_string :: "crypto_env \<Rightarrow> bytes \<Rightarrow> bytes vm_result" where
  "allocate_string env chars =
     (if allocate_string_ok env (length chars) then Inr chars else Inl DIAMOND_VM_OUT_OF_MEMORY)"

text \<open>\<open>RAND_bytes\<close> fills the buffer in pieces of at most 256 bytes.\<close>

function RAND_bytes :: "crypto_env \<Rightarrow> nat \<Rightarrow> bytes option" where
  "RAND_bytes env count =
     (if count = 0 then Some []
      else let chunk = (if count > 256 then 256 else count)
           in case getentropy env chunk of
                None \<Rightarrow> None
              | Some piece \<Rightarrow> map_option ((@) piece) (RAND_bytes env (count - chunk)))"
  by pat_completeness auto
termination
  by (relation "measure snd") auto

declare RAND_bytes.simps [simp del]

definition hex_digits :: bytes where
  "hex_digits = map (\<lambda>c. word_of_nat (byte c)) ''0123456789abcdef''"

definition hex_pair :: "8 word \<Rightarrow> bytes" where
  "hex_pair b = [hex_digits ! unat (drop_bit 4 b AND 0xF), hex_digits ! unat (b AND 0xF)]"

text \<open>The digest in hexadecimal, in the buffer \<open>char hex[64]\<close>: \<open>None\<close> would be an overrun.\<close>

definition hex_buffer :: "nat \<Rightarrow> bytes \<Rightarrow> bytes option" where
  "hex_buffer capacity digest =
     (if length digest * 2 \<le> capacity then Some (concat (map hex_pair digest)) else None)"

definition secure_random_bytes_helper :: "crypto_env \<Rightarrow> crypto_value \<Rightarrow> bytes vm_result" where
  "secure_random_bytes_helper env count_value =
     (case count_value of
        Int_value count \<Rightarrow>
          (if count < 0 \<or> count > int INT_MAX then Inl DIAMOND_VM_ARITY_ERROR
           else if \<not> malloc_ok env (if count > 0 then nat count else 1) then Inl DIAMOND_VM_OUT_OF_MEMORY
           else (case RAND_bytes env (nat count) of
                   None \<Rightarrow> Inl DIAMOND_VM_PROGRAM_ERROR
                 | Some buffer \<Rightarrow> allocate_string env buffer))
      | _ \<Rightarrow> Inl DIAMOND_VM_TYPE_ERROR)"

definition secure_random_hex_helper :: "crypto_env \<Rightarrow> crypto_value \<Rightarrow> bytes vm_result" where
  "secure_random_hex_helper env count_value =
     (case count_value of
        Int_value count \<Rightarrow>
          (if count < 0 \<or> count > int INT_MAX div 2 then Inl DIAMOND_VM_ARITY_ERROR
           else if \<not> malloc_ok env (if count > 0 then nat count else 1) then Inl DIAMOND_VM_OUT_OF_MEMORY
           else (case RAND_bytes env (nat count) of
                   None \<Rightarrow> Inl DIAMOND_VM_PROGRAM_ERROR
                 | Some buffer \<Rightarrow>
                     (if \<not> malloc_ok env (if count > 0 then nat count * 2 else 1) then Inl DIAMOND_VM_OUT_OF_MEMORY
                      else allocate_string env (concat (map hex_pair buffer)))))
      | _ \<Rightarrow> Inl DIAMOND_VM_TYPE_ERROR)"

text \<open>The two digest builtins differ only in the hash they use; \<open>None\<close> is a write past \<open>hex[64]\<close>.\<close>

definition digest_hex_helper ::
    "32 word list \<Rightarrow> EVP_MD \<Rightarrow> crypto_env \<Rightarrow> crypto_value \<Rightarrow> crypto_value \<Rightarrow> bool \<Rightarrow> bytes vm_result option" where
  "digest_hex_helper ks md env key_value data_value keyed =
     (case data_value of
        Str_value data \<Rightarrow>
          (if keyed then
             (case key_value of
                Str_value key \<Rightarrow>
                  (if length key > INT_MAX then Some (Inl DIAMOND_VM_ARITY_ERROR)
                   else (case HMAC ks (malloc_ok env (64 + length data)) md key data of
                           None \<Rightarrow> Some (Inl DIAMOND_VM_PROGRAM_ERROR)
                         | Some digest \<Rightarrow> map_option (allocate_string env) (hex_buffer 64 digest)))
              | _ \<Rightarrow> Some (Inl DIAMOND_VM_TYPE_ERROR))
           else (case EVP_Digest ks md data of
                   None \<Rightarrow> Some (Inl DIAMOND_VM_PROGRAM_ERROR)
                 | Some (digest, digest_length) \<Rightarrow>
                     map_option (allocate_string env) (hex_buffer 64 (take digest_length digest))))
      | _ \<Rightarrow> Some (Inl DIAMOND_VM_TYPE_ERROR))"

definition sha256_hex_helper ::
    "32 word list \<Rightarrow> crypto_env \<Rightarrow> crypto_value \<Rightarrow> crypto_value \<Rightarrow> bool \<Rightarrow> bytes vm_result option" where
  "sha256_hex_helper ks = digest_hex_helper ks DIGEST_SHA256"

definition sha1_hex_helper ::
    "32 word list \<Rightarrow> crypto_env \<Rightarrow> crypto_value \<Rightarrow> crypto_value \<Rightarrow> bool \<Rightarrow> bytes vm_result option" where
  "sha1_hex_helper ks = digest_hex_helper ks DIGEST_SHA1"

definition hmac_verify_helper ::
    "32 word list \<Rightarrow> crypto_env \<Rightarrow> crypto_value \<Rightarrow> crypto_value \<Rightarrow> crypto_value \<Rightarrow> bool vm_result option" where
  "hmac_verify_helper ks env data_value key_value signature_value =
     (case (data_value, key_value, signature_value) of
        (Str_value data, Str_value key, Str_value signature) \<Rightarrow>
          map_option (\<lambda>result. case result of
              Inl status \<Rightarrow> Inl status
            | Inr computed \<Rightarrow>
                Inr (length computed = length signature \<and> \<not> CRYPTO_memcmp computed signature))
            (sha256_hex_helper ks env key_value data_value True)
      | _ \<Rightarrow> Some (Inl DIAMOND_VM_TYPE_ERROR))"

definition char_bytes :: "string \<Rightarrow> bytes" where
  "char_bytes s = map (\<lambda>c. word_of_nat (byte c)) s"

definition byte_chars :: "bytes \<Rightarrow> string" where
  "byte_chars bs = map (\<lambda>b. char_of (unat b)) bs"

definition base64_encode_helper :: "crypto_env \<Rightarrow> crypto_value \<Rightarrow> bytes vm_result" where
  "base64_encode_helper env data_value =
     (case data_value of
        Str_value data \<Rightarrow>
          (if length data > INT_MAX div 4 * 3 then Inl DIAMOND_VM_ARITY_ERROR
           else let capacity = (length data + 2) div 3 * 4
                in if \<not> malloc_ok env (capacity + 1) then Inl DIAMOND_VM_OUT_OF_MEMORY
                   else allocate_string env (char_bytes (EVP_EncodeBlock data)))
      | _ \<Rightarrow> Inl DIAMOND_VM_TYPE_ERROR)"

definition base64_alphabet :: "char \<Rightarrow> bool" where
  "base64_alphabet c \<longleftrightarrow> 65 \<le> byte c \<and> byte c \<le> 90 \<or> 97 \<le> byte c \<and> byte c \<le> 122 \<or>
     48 \<le> byte c \<and> byte c \<le> 57 \<or> c = CHR ''+'' \<or> c = CHR ''/''"

definition base64_char_ok :: "nat \<Rightarrow> nat \<Rightarrow> char \<Rightarrow> bool" where
  "base64_char_ok len index c \<longleftrightarrow> base64_alphabet c \<or> c = CHR ''='' \<and> index \<ge> len - 2 \<and> len > 0"

definition padding_count :: "string \<Rightarrow> nat" where
  "padding_count s =
     (if s ! (length s - 1) = CHR ''='' then 1 else 0) +
     (if length s \<ge> 2 \<and> s ! (length s - 2) = CHR ''='' then 1 else 0)"

text \<open>The length is passed to the decoder as an \<open>int\<close>, so modulo \<open>2 ^ 32\<close>, negative above
  \<open>INT_MAX\<close>; \<open>(size_t)written - padding\<close> wraps to a size no allocation grants when there is less
  output than padding.\<close>

definition base64_decode_helper :: "crypto_env \<Rightarrow> crypto_value \<Rightarrow> bytes vm_result" where
  "base64_decode_helper env data_value =
     (case data_value of
        Str_value data \<Rightarrow>
          (let s = byte_chars data
           in if length s mod 4 \<noteq> 0 then Inl DIAMOND_VM_ARITY_ERROR
              else if \<not> list_all (\<lambda>(index, c). base64_char_ok (length s) index c) (List.enumerate 0 s)
              then Inl DIAMOND_VM_ARITY_ERROR
              else if s = [] then allocate_string env []
              else if \<not> malloc_ok env (length s div 4 * 3) then Inl DIAMOND_VM_OUT_OF_MEMORY
              else if length s mod 2 ^ 32 > INT_MAX then Inl DIAMOND_VM_ARITY_ERROR
              else (case EVP_DecodeBlock (take (length s mod 2 ^ 32) s) of
                      None \<Rightarrow> Inl DIAMOND_VM_ARITY_ERROR
                    | Some written \<Rightarrow>
                        (if length written < padding_count s then Inl DIAMOND_VM_OUT_OF_MEMORY
                         else allocate_string env (take (length written - padding_count s) written))))
      | _ \<Rightarrow> Inl DIAMOND_VM_TYPE_ERROR)"


definition env_grants :: "crypto_env \<Rightarrow> bool" where
  "env_grants env \<longleftrightarrow> (\<forall>n. malloc_ok env n \<and> allocate_string_ok env n)"

text \<open>
  Lower-case hexadecimal by arithmetic: the quotient and the remainder of each byte by 16, a digit
  below ten as an ASCII code from 48 and any other as one from 97.
\<close>

definition hex_code :: "nat \<Rightarrow> 8 word" where
  "hex_code n = word_of_nat (if n < 10 then 48 + n else 97 + (n - 10))"

primrec hex_text :: "bytes \<Rightarrow> bytes" where
  "hex_text [] = []"
| "hex_text (b # bs) = hex_code (unat b div 16) # hex_code (unat b mod 16) # hex_text bs"

section \<open>Hexadecimal digests\<close>

lemma length_hex_text: "length (hex_text bs) = 2 * length bs"
  by (induction bs) simp_all

lemma hex_digits_code: "n < 16 \<Longrightarrow> hex_digits ! n = hex_code n"
proof -
  have "list_all (\<lambda>n. hex_digits ! n = hex_code n) [0..<16]" by code_simp
  then show "n < 16 \<Longrightarrow> hex_digits ! n = hex_code n" by (simp add: list_all_iff)
qed

lemma hex_pair_code: "hex_pair b = [hex_code (unat b div 16), hex_code (unat b mod 16)]"
proof -
  have m: "(0xF :: 8 word) = mask 4" by (simp add: mask_eq_exp_minus_1)
  have low: "unat (b AND 0xF) = unat b mod 16"
    unfolding m take_bit_eq_mask [symmetric] by (simp add: take_bit_eq_mod unat_mod_distrib)
  have "unat b < 256" using unsigned_less [of b] by simp
  then have d: "unat b div 16 < 16" by simp
  have high: "unat (drop_bit 4 b AND 0xF) = unat b div 16"
    unfolding m take_bit_eq_mask [symmetric] using d
    by (simp add: drop_bit_eq_div take_bit_eq_mod unat_mod_distrib unat_div_distrib)
  show ?thesis unfolding hex_pair_def low high using d by (simp add: hex_digits_code)
qed

lemma hex_text_pairs: "hex_text bs = concat (map hex_pair bs)"
  by (induction bs) (simp_all add: hex_pair_code)

lemma hmac_spec_length: "length (hmac_spec ks md key data) = md_size md"
  by (simp add: hmac_spec_def sha_spec_length)

lemma md_size_hex: "md_size md * 2 \<le> 64"
  by (cases md) simp_all

lemma hex_buffer_digest: "length digest = md_size md \<Longrightarrow> hex_buffer 64 digest = Some (hex_text digest)"
  using md_size_hex [of md] by (simp add: hex_buffer_def hex_text_pairs)

lemma allocate_string_granted: "env_grants env \<Longrightarrow> allocate_string env s = Inr s"
  by (simp add: allocate_string_def env_grants_def)

lemma digest_hex_eq:
  assumes "env_grants env"
  shows "digest_hex_helper ks md env key (Str_value data) False = Some (Inr (hex_text (sha_spec ks md data)))"
    and "length k \<le> INT_MAX \<Longrightarrow>
      digest_hex_helper ks md env (Str_value k) (Str_value data) True = Some (Inr (hex_text (hmac_spec ks md k data)))"
proof -
  have m: "malloc_ok env n" for n using assms by (simp add: env_grants_def)
  show "digest_hex_helper ks md env key (Str_value data) False = Some (Inr (hex_text (sha_spec ks md data)))"
    using hex_buffer_digest [of "sha_spec ks md data" md]
    by (simp add: digest_hex_helper_def EVP_Digest_def digest_message_eq sha_spec_length allocate_string_granted [OF assms])
  show "length k \<le> INT_MAX \<Longrightarrow>
      digest_hex_helper ks md env (Str_value k) (Str_value data) True = Some (Inr (hex_text (hmac_spec ks md k data)))"
    using hex_buffer_digest [of "hmac_spec ks md k data" md]
    by (simp add: digest_hex_helper_def hmac_eq m hmac_spec_length allocate_string_granted [OF assms])
qed

lemma digest_hex_no_overrun: "digest_hex_helper ks md env key data keyed \<noteq> None"
  using hex_buffer_digest [of _ md]
  by (auto simp: digest_hex_helper_def EVP_Digest_def digest_message_eq sha_spec_length hmac_eq hmac_spec_length
      split: crypto_value.splits)

section \<open>Base64 text\<close>

lemma byte_chars_char_bytes: "byte_chars (char_bytes s) = s"
proof -
  have "char_of (unat (word_of_nat (byte c) :: 8 word)) = c" for c
    by (simp add: byte_def unsigned_of_nat of_char_of take_bit_nat_eq_self)
  then show ?thesis by (simp add: byte_chars_def char_bytes_def o_def)
qed

lemma alphabet_in: "list_all base64_alphabet BASE64_ALPHABET"
  by (simp add: BASE64_ALPHABET_def base64_alphabet_def byte_def)

lemma base64_alphabet_char: "base64_alphabet (alphabet_char w)"
proof -
  have "unat (w AND 63) < 64"
    using take_bit_nat_less_exp [of 6 "unat w"] unfolding and_63 by (simp add: unsigned_take_bit_eq)
  then show ?thesis
    using alphabet_in by (simp add: alphabet_char_def list_all_length length_alphabet)
qed

text \<open>The form of encoded text: alphabet characters, then none, one or two padding characters.\<close>

lemma encode_shape:
  "\<exists>body. EVP_EncodeBlock bs = body @ replicate ((3 - length bs mod 3) mod 3) (CHR ''='') \<and> list_all base64_alphabet body"
proof (induction bs rule: EVP_EncodeBlock.induct)
  case (2 b0)
  let ?t = "encode_triple b0 0 0"
  have "(3 - length [b0] mod 3) mod 3 = Suc (Suc 0)" by simp
  then have "EVP_EncodeBlock [b0] = [alphabet_char (drop_bit 18 ?t), alphabet_char (drop_bit 12 ?t)] @
      replicate ((3 - length [b0] mod 3) mod 3) (CHR ''='')"
    by (simp only: EVP_EncodeBlock.simps Let_def replicate.simps append.simps)
  moreover have "list_all base64_alphabet [alphabet_char (drop_bit 18 ?t), alphabet_char (drop_bit 12 ?t)]"
    by (simp add: base64_alphabet_char)
  ultimately show ?case by blast
next
  case (3 b0 b1)
  let ?t = "encode_triple b0 b1 0"
  have "(3 - length [b0, b1] mod 3) mod 3 = Suc 0" by simp
  then have "EVP_EncodeBlock [b0, b1] =
      [alphabet_char (drop_bit 18 ?t), alphabet_char (drop_bit 12 ?t), alphabet_char (drop_bit 6 ?t)] @
      replicate ((3 - length [b0, b1] mod 3) mod 3) (CHR ''='')"
    by (simp only: EVP_EncodeBlock.simps Let_def replicate.simps append.simps)
  moreover have "list_all base64_alphabet
      [alphabet_char (drop_bit 18 ?t), alphabet_char (drop_bit 12 ?t), alphabet_char (drop_bit 6 ?t)]"
    by (simp add: base64_alphabet_char)
  ultimately show ?case by blast
next
  case (4 b0 b1 b2 bs)
  then obtain body where b: "EVP_EncodeBlock bs = body @ replicate ((3 - length bs mod 3) mod 3) (CHR ''='')"
    "list_all base64_alphabet body" by blast
  have "length (b0 # b1 # b2 # bs) = length bs + 3" by simp
  then have m: "length (b0 # b1 # b2 # bs) mod 3 = length bs mod 3" by (simp only: mod_add_self2)
  let ?t = "encode_triple b0 b1 b2"
  let ?body = "alphabet_char (drop_bit 18 ?t) # alphabet_char (drop_bit 12 ?t) # alphabet_char (drop_bit 6 ?t) #
    alphabet_char ?t # body"
  have "EVP_EncodeBlock (b0 # b1 # b2 # bs) = ?body @ replicate ((3 - length bs mod 3) mod 3) (CHR ''='')"
    by (simp only: EVP_EncodeBlock.simps Let_def b append.simps)
  moreover have "list_all base64_alphabet ?body" using b(2) base64_alphabet_char by simp
  ultimately show ?case unfolding m by blast
qed simp

lemma pad_not_alphabet: "\<not> base64_alphabet (CHR ''='')"
  by (simp add: base64_alphabet_def byte_def)

lemma base64_decode_accepted:
  assumes "env_grants env" "length data mod 4 = 0" "length data \<le> INT_MAX"
    "list_all (\<lambda>(index, c). base64_char_ok (length data) index c) (List.enumerate 0 (byte_chars data))"
    "EVP_DecodeBlock (byte_chars data) = Some written" "data \<noteq> [] \<Longrightarrow> padding_count (byte_chars data) \<le> length written"
  shows "base64_decode_helper env (Str_value data) =
    Inr (if data = [] then [] else take (length written - padding_count (byte_chars data)) written)"
proof -
  have len: "length (byte_chars data) = length data" by (simp add: byte_chars_def)
  have "length data < 2 ^ 32" using assms(3) by (simp add: INT_MAX_def)
  then have "length data mod 2 ^ 32 = length data" by simp
  moreover have "byte_chars data = [] \<longleftrightarrow> data = []" by (simp add: byte_chars_def)
  moreover have "malloc_ok env n" for n using assms(1) by (simp add: env_grants_def)
  ultimately show ?thesis
    using assms len by (cases "data = []") (simp_all add: base64_decode_helper_def Let_def allocate_string_granted)
qed

lemma padding_shape:
  assumes "s = body @ replicate p (CHR ''='')" "list_all base64_alphabet body" "p \<le> 2" "4 dvd length s" "s \<noteq> []"
  shows "padding_count s = p \<and> list_all (\<lambda>(index, c). base64_char_ok (length s) index c) (List.enumerate 0 s)"
proof -
  have len: "length s \<ge> 4" using assms(4,5) by (intro dvd_imp_le) auto
  have ls: "length s = length body + p" using assms(1) by simp
  have nb: "i < length body \<Longrightarrow> body ! i \<noteq> CHR ''=''" for i
    using assms(2) pad_not_alphabet by (metis list_all_length)
  have at: "s ! i = (if i < length body then body ! i else CHR ''='')" if "i < length s" for i
    using that assms(1) by (simp add: nth_append)
  have "s ! (length s - 1) = CHR ''='' \<longleftrightarrow> p \<ge> 1" "s ! (length s - 2) = CHR ''='' \<longleftrightarrow> p \<ge> 2"
    using at [of "length s - 1"] at [of "length s - 2"] nb [of "length s - 1"] nb [of "length s - 2"] len ls by auto
  then have "padding_count s = p" using len assms(3) by (auto simp: padding_count_def)
  moreover have "base64_char_ok (length s) i (s ! i)" if "i < length s" for i
    using at [OF that] assms(2,3) ls that by (auto simp: base64_char_ok_def list_all_length)
  ultimately show ?thesis by (auto simp: list_all_length nth_enumerate_eq)
qed

lemma decode_char_ok: "base64_char_ok n i c \<Longrightarrow> decode_char c \<ge> 0"
  by (auto simp: base64_char_ok_def base64_alphabet_def decode_char_def base64_value_def)

lemma decode_quads_total:
  "list_all (\<lambda>c. decode_char c \<ge> 0) s \<Longrightarrow> 4 dvd length s \<Longrightarrow>
   \<exists>w. decode_quads s = Some w \<and> length w = 3 * (length s div 4)"
proof (induction s rule: decode_quads.induct)
  case (1 c0 c1 c2 c3 cs)
  have "length (c0 # c1 # c2 # c3 # cs) = length cs + 4" by simp
  then have "4 dvd length cs" using 1(3) by (metis dvd_add_left_iff dvd_refl)
  moreover have "\<not> list_ex (\<lambda>c. decode_char c < 0) [c0, c1, c2, c3]" "list_all (\<lambda>c. decode_char c \<ge> 0) cs"
    using 1(2) by auto
  ultimately obtain w where "decode_quads cs = Some w" "length w = 3 * (length cs div 4)" using 1(1) by blast
  moreover have "(4 + length cs) div 4 = Suc (length cs div 4)" by simp
  ultimately show ?case using 1(2) by (simp add: decode_bytes_def)
qed auto

lemma decode_inner_padding: "EVP_DecodeBlock ''QQ=B'' = Some [0x41, 0, 1]"
  by (simp add: EVP_DecodeBlock_def decode_char_def base64_value_def byte_def decode_bytes_def)

lemma padding_count_le: "padding_count s \<le> 2"
  by (simp add: padding_count_def)

section \<open>Properties\<close>

text \<open>C20: The digest builtins never write past their text buffer; with memory available they return the
  lower-case hexadecimal text (two digits per byte, high first, computed by division) of the standard
  digest, or of the HMAC under a key of at most \<open>INT_MAX\<close> bytes.\<close>

theorem hex_digest_builtins:
  assumes "env_grants env" "length key \<le> INT_MAX"
  shows "sha256_hex_helper ks env (Str_value key) (Str_value data) True = Some (Inr (hex_text (hmac_spec ks DIGEST_SHA256 key data))) \<and>
    sha256_hex_helper ks env k (Str_value data) False = Some (Inr (hex_text (sha_spec ks DIGEST_SHA256 data))) \<and>
    sha1_hex_helper ks env (Str_value key) (Str_value data) True = Some (Inr (hex_text (hmac_spec ks DIGEST_SHA1 key data))) \<and>
    sha1_hex_helper ks env k (Str_value data) False = Some (Inr (hex_text (sha_spec ks DIGEST_SHA1 data))) \<and>
    sha256_hex_helper ks env' v w b \<noteq> None \<and> sha1_hex_helper ks env' v w b \<noteq> None"
  using digest_hex_eq [OF assms(1)] digest_hex_no_overrun assms(2)
  by (simp add: sha256_hex_helper_def sha1_hex_helper_def)

text \<open>C19: Signature verification of three Strings says yes exactly for the lower-case hexadecimal
  HMAC of the data. An argument that is not a String is a type error in each of the three positions,
  whatever the others are and whether or not memory is available (the comment above the function
  says it is a non-match).\<close>

theorem hmac_verify_exact:
  assumes "env_grants env" "length key \<le> INT_MAX"
  shows "hmac_verify_helper ks env (Str_value data) (Str_value key) (Str_value signature) =
      Some (Inr (signature = hex_text (hmac_spec ks DIGEST_SHA256 key data))) \<and>
    ((\<forall>bs. v \<noteq> Str_value bs) \<longrightarrow>
       hmac_verify_helper ks env' v x y = Some (Inl DIAMOND_VM_TYPE_ERROR) \<and>
       hmac_verify_helper ks env' x v y = Some (Inl DIAMOND_VM_TYPE_ERROR) \<and>
       hmac_verify_helper ks env' x y v = Some (Inl DIAMOND_VM_TYPE_ERROR))"
proof -
  let ?c = "hex_text (hmac_spec ks DIGEST_SHA256 key data)"
  have "length ?c = length signature \<and> \<not> CRYPTO_memcmp ?c signature \<longleftrightarrow> signature = ?c"
    using memcmp_equal [of ?c signature] by auto
  then show ?thesis
    using digest_hex_eq(2) [OF assms]
    by (auto simp: hmac_verify_helper_def sha256_hex_helper_def split: crypto_value.splits)
qed

text \<open>C21: The Base64 builtins are inverse: with memory available, encoding a String of at most
  three quarters of \<open>INT_MAX\<close> bytes succeeds and decoding the result returns the String.\<close>

theorem base64_builtins_round_trip:
  assumes "env_grants env" "length data \<le> INT_MAX div 4 * 3"
  shows "\<exists>encoded. base64_encode_helper env (Str_value data) = Inr encoded \<and>
    base64_decode_helper env (Str_value encoded) = Inr data"
proof -
  let ?s = "EVP_EncodeBlock data" and ?p = "(3 - length data mod 3) mod 3"
  obtain body where body: "?s = body @ replicate ?p (CHR ''='')" "list_all base64_alphabet body"
    using encode_shape by blast
  have p: "?p \<le> 2" by (simp add: less_Suc_eq_le [symmetric] numeral_3_eq_3 [symmetric])
  have len: "length ?s = 4 * ((length data + 2) div 3)" by (rule length_encode)
  then have dvd: "4 dvd length ?s" by simp
  have max: "length ?s \<le> INT_MAX" unfolding len using assms(2) by (simp add: INT_MAX_def)
  have bc: "byte_chars (char_bytes ?s) = ?s" "length (char_bytes ?s) = length ?s" "char_bytes ?s = [] \<longleftrightarrow> ?s = []"
    by (rule byte_chars_char_bytes) (simp_all add: char_bytes_def)
  have dec: "EVP_DecodeBlock ?s = Some (data @ replicate ?p 0)"
    using dvd by (simp add: EVP_DecodeBlock_def decode_quads_encode)
  have enc: "base64_encode_helper env (Str_value data) = Inr (char_bytes ?s)"
    using assms by (simp add: base64_encode_helper_def Let_def env_grants_def allocate_string_granted [OF assms(1)])
  have empty: "?s = [] \<Longrightarrow> data = []"
    using len by (cases data) auto
  have pads: "?s \<noteq> [] \<Longrightarrow> padding_count ?s = ?p \<and>
      list_all (\<lambda>(index, c). base64_char_ok (length ?s) index c) (List.enumerate 0 ?s)"
    using padding_shape [OF body p dvd] by blast
  have "base64_decode_helper env (Str_value (char_bytes ?s)) = Inr data"
  proof (cases "?s = []")
    case True
    then show ?thesis
      using base64_decode_accepted [of env "char_bytes ?s" "[]"] assms(1) bc empty
      by (simp add: char_bytes_def byte_chars_def EVP_DecodeBlock_def)
  next
    case False
    have "base64_decode_helper env (Str_value (char_bytes ?s)) =
        Inr (if char_bytes ?s = [] then [] else take (length (data @ replicate ?p (0 :: 8 word)) - padding_count (byte_chars (char_bytes ?s)))
          (data @ replicate ?p 0))"
      by (rule base64_decode_accepted) (use assms(1) dvd max bc dec pads [OF False] in auto)
    then show ?thesis using False bc pads by simp
  qed
  then show ?thesis using enc by blast
qed

text \<open>C22: What Base64.decode accepts: with memory available, exactly the texts of a multiple of four
  characters (and at most \<open>INT_MAX\<close>) all in the alphabet, apart from padding characters in either of the last two
  places. A padding character followed by a letter is therefore accepted too, and cuts one byte off.\<close>

theorem base64_decode_accepts:
  assumes "env_grants env" "length data \<le> INT_MAX"
  shows "(isl (base64_decode_helper env (Str_value data)) \<longleftrightarrow>
      \<not> (length data mod 4 = 0 \<and>
         list_all (\<lambda>(i, c). base64_alphabet c \<or> c = CHR ''='' \<and> length data - 2 \<le> i) (List.enumerate 0 (byte_chars data)))) \<and>
    (isl (base64_decode_helper env (Str_value data)) \<longrightarrow>
      base64_decode_helper env (Str_value data) = Inl DIAMOND_VM_ARITY_ERROR) \<and>
    base64_decode_helper env (Str_value (char_bytes ''QQ=B'')) = Inr [0x41, 0]"
proof -
  let ?s = "byte_chars data"
  have decoded: "base64_decode_helper env (Str_value (char_bytes ''QQ=B'')) = Inr [0x41, 0]"
    using base64_decode_accepted [OF assms(1), of "char_bytes ''QQ=B''" "[0x41, 0, 1]"]
    by (simp add: byte_chars_char_bytes decode_inner_padding padding_count_def base64_char_ok_def base64_alphabet_def
        byte_def INT_MAX_def) (simp add: char_bytes_def)
  have len: "length ?s = length data" by (simp add: byte_chars_def)
  have ok: "list_all (\<lambda>(i, c). base64_alphabet c \<or> c = CHR ''='' \<and> length data - 2 \<le> i) (List.enumerate 0 ?s) \<longleftrightarrow>
      list_all (\<lambda>(index, c). base64_char_ok (length data) index c) (List.enumerate 0 ?s)"
    by (auto simp: list_all_length nth_enumerate_eq base64_char_ok_def len)
  show ?thesis
  proof (cases "length data mod 4 = 0 \<and> list_all (\<lambda>(index, c). base64_char_ok (length data) index c) (List.enumerate 0 ?s)")
    case True
    then have "list_all (\<lambda>c. decode_char c \<ge> 0) ?s"
      using decode_char_ok by (fastforce simp: list_all_length nth_enumerate_eq)
    moreover have dvd: "4 dvd length ?s" using True len by (simp add: dvd_eq_mod_eq_0)
    ultimately obtain w where w: "decode_quads ?s = Some w" "length w = 3 * (length ?s div 4)"
      using decode_quads_total by blast
    have "data \<noteq> [] \<Longrightarrow> padding_count ?s \<le> length w"
    proof -
      assume "data \<noteq> []"
      then have "length ?s \<noteq> 0" using len by simp
      then have "length ?s \<ge> 4" using dvd by (intro dvd_imp_le) auto
      then have "length ?s div 4 \<ge> 1" by linarith
      then show ?thesis using w(2) padding_count_le [of ?s] by linarith
    qed
    then have "\<not> isl (base64_decode_helper env (Str_value data))"
      using base64_decode_accepted [OF assms(1), of data w] True assms(2) w(1) len by (simp add: EVP_DecodeBlock_def)
    then show ?thesis using True ok decoded by simp
  next
    case False
    then have "base64_decode_helper env (Str_value data) = Inl DIAMOND_VM_ARITY_ERROR"
      using len by (auto simp: base64_decode_helper_def Let_def)
    then show ?thesis using False ok decoded by auto
  qed
qed

theorem hex_digest_builtins_witness:
  "sha256_hex_helper (replicate 64 1) \<lparr>malloc_ok = \<lambda>n. True, allocate_string_ok = \<lambda>n. True, getentropy = \<lambda>n. None\<rparr>
     (Str_value [1]) (Str_value []) True = Some (Inr (hex_text (hmac_spec (replicate 64 1) DIGEST_SHA256 [1] [])))"
  using hex_digest_builtins [of "\<lparr>malloc_ok = \<lambda>n. True, allocate_string_ok = \<lambda>n. True, getentropy = \<lambda>n. None\<rparr>" "[1]" "replicate 64 1" "[]"]
  by (simp add: env_grants_def INT_MAX_def)

theorem hmac_verify_exact_witness:
  "hmac_verify_helper (replicate 64 1) \<lparr>malloc_ok = \<lambda>n. True, allocate_string_ok = \<lambda>n. True, getentropy = \<lambda>n. None\<rparr>
     (Str_value []) (Str_value [1]) (Str_value []) = Some (Inr False) \<and>
   hmac_verify_helper (replicate 64 1) \<lparr>malloc_ok = \<lambda>n. True, allocate_string_ok = \<lambda>n. True, getentropy = \<lambda>n. None\<rparr>
     (Int_value 1) (Str_value [1]) (Str_value []) = Some (Inl DIAMOND_VM_TYPE_ERROR)"
proof -
  have "hex_text (hmac_spec (replicate 64 1) DIGEST_SHA256 [1] []) \<noteq> []"
    using length_hex_text [of "hmac_spec (replicate 64 1) DIGEST_SHA256 [1] []"] by (auto simp: hmac_spec_length)
  then show ?thesis
    using hmac_verify_exact [of "\<lparr>malloc_ok = \<lambda>n. True, allocate_string_ok = \<lambda>n. True, getentropy = \<lambda>n. None\<rparr>" "[1]" "replicate 64 1" "[]" "[]" "Int_value 1"]
    by (simp add: env_grants_def INT_MAX_def)
qed

theorem base64_builtins_round_trip_witness:
  "\<exists>encoded. base64_encode_helper \<lparr>malloc_ok = \<lambda>n. True, allocate_string_ok = \<lambda>n. True, getentropy = \<lambda>n. None\<rparr>
     (Str_value [1, 255]) = Inr encoded \<and>
   base64_decode_helper \<lparr>malloc_ok = \<lambda>n. True, allocate_string_ok = \<lambda>n. True, getentropy = \<lambda>n. None\<rparr>
     (Str_value encoded) = Inr [1, 255]"
  using base64_builtins_round_trip [of "\<lparr>malloc_ok = \<lambda>n. True, allocate_string_ok = \<lambda>n. True, getentropy = \<lambda>n. None\<rparr>" "[1, 255]"]
  by (simp add: env_grants_def INT_MAX_def)

theorem base64_decode_accepts_witness:
  "base64_decode_helper \<lparr>malloc_ok = \<lambda>n. True, allocate_string_ok = \<lambda>n. True, getentropy = \<lambda>n. None\<rparr>
     (Str_value [1]) = Inl DIAMOND_VM_ARITY_ERROR"
  using base64_decode_accepts [of "\<lparr>malloc_ok = \<lambda>n. True, allocate_string_ok = \<lambda>n. True, getentropy = \<lambda>n. None\<rparr>" "[1]"]
  by (simp add: env_grants_def INT_MAX_def)

section \<open>Random text\<close>

lemma RAND_bytes_length:
  assumes fills: "\<And>n piece. getentropy env n = Some piece \<Longrightarrow> length piece = n"
  shows "RAND_bytes env count = Some bs \<Longrightarrow> length bs = count"
proof (induction count arbitrary: bs rule: less_induct)
  case (less count)
  let ?chunk = "if count > 256 then 256 else count"
  show ?case
  proof (cases "count = 0")
    case True
    then show ?thesis using less(2) by (simp add: RAND_bytes.simps [of env 0])
  next
    case False
    then obtain piece rest where "getentropy env ?chunk = Some piece" "RAND_bytes env (count - ?chunk) = Some rest"
      "bs = piece @ rest"
      using less(2) by (subst (asm) RAND_bytes.simps) (auto simp: Let_def split: option.splits)
    then show ?thesis using fills less(1) [of "count - ?chunk" rest] False by auto
  qed
qed

text \<open>C23: When the entropy source fills what it is asked for, SecureRandom.bytes(n) has n bytes and
  SecureRandom.hex(n) has 2n, for every n; every other count is refused.\<close>

theorem secure_random_lengths:
  assumes "\<And>n piece. getentropy env n = Some piece \<Longrightarrow> length piece = n"
  shows "(secure_random_bytes_helper env (Int_value count) = Inr bs \<longrightarrow> int (length bs) = count) \<and>
    (secure_random_hex_helper env (Int_value count) = Inr hex \<longrightarrow> int (length hex) = 2 * count) \<and>
    (count < 0 \<longrightarrow> secure_random_bytes_helper env (Int_value count) = Inl DIAMOND_VM_ARITY_ERROR \<and>
       secure_random_hex_helper env (Int_value count) = Inl DIAMOND_VM_ARITY_ERROR)"
proof -
  have "length (concat (map hex_pair b)) = 2 * length b" for b
    using length_hex_text [of b] by (simp add: hex_text_pairs)
  moreover have "RAND_bytes env c = Some b \<Longrightarrow> length b = c" for c b
    using RAND_bytes_length assms by blast
  ultimately show ?thesis
    by (fastforce simp: secure_random_bytes_helper_def secure_random_hex_helper_def allocate_string_def
        split: if_splits option.splits)
qed

theorem secure_random_lengths_witness:
  "\<exists>hex. secure_random_hex_helper \<lparr>malloc_ok = \<lambda>n. True, allocate_string_ok = \<lambda>n. True,
      getentropy = \<lambda>n. Some (replicate n 7)\<rparr> (Int_value 3) = Inr hex \<and> length hex = 6"
proof -
  let ?env = "\<lparr>malloc_ok = \<lambda>n. True, allocate_string_ok = \<lambda>n. True, getentropy = \<lambda>n. Some (replicate n 7)\<rparr>"
  obtain hex where "secure_random_hex_helper ?env (Int_value 3) = Inr hex"
    by (simp add: secure_random_hex_helper_def INT_MAX_def RAND_bytes.simps allocate_string_def)
  then show ?thesis using secure_random_lengths [of ?env 3 _ hex] by auto
qed

end
