(* ===== verification/Manifest.thy ===== *)
theory Manifest
  imports C_Text
begin

unbundle bit_operations_syntax

text \<open>
  The manifest reader (\<open>src/src/manifest_literal.c\<close>): a data-only Hash literal parsed into a tree, and
  the lookups on it. The parser state is the cursor into the source and the nesting depth; a failure
  carries the position and the reason that the source's message is made of. A write past the end of a
  String's buffer is the outcome \<open>Overrun\<close>, and a loop that has used up its bound is \<open>Stuck\<close>; both
  are shown never to occur. Every allocation is assumed to succeed, and freeing a tree, which has no
  effect on the result, is not modelled.
\<close>

section \<open>Definitions\<close>

datatype manifest_error = Manifest_error (error_position: nat) (error_reason: string)

datatype DiamondManifestValue =
    MANIFEST_OTHER
  | MANIFEST_INTEGER string
  | MANIFEST_BOOLEAN string
  | MANIFEST_STRING string
  | MANIFEST_HASH "(string \<times> DiamondManifestValue) list"
  | MANIFEST_ARRAY "DiamondManifestValue list"

definition error_line :: "string \<Rightarrow> nat \<Rightarrow> nat" where
  "error_line source position = 1 + length (filter (\<lambda>c. c = CHR 0x0A) (take position source))"

text \<open>The message, cut to the \<open>error_size\<close> bytes of the caller's buffer with its terminator.\<close>

definition fail :: "nat \<Rightarrow> string \<Rightarrow> manifest_error \<Rightarrow> string" where
  "fail error_size source e =
     take (error_size - 1) (''line '' @ format_u (error_line source (error_position e)) @ '': '' @ error_reason e)"

definition skip_space :: "string \<Rightarrow> nat \<Rightarrow> nat" where
  "skip_space source position = position + length (takeWhile is_space (drop position source))"

definition is_xdigit :: "char \<Rightarrow> bool" where
  "is_xdigit c \<longleftrightarrow> is_digit c \<or> 97 \<le> byte c \<and> byte c \<le> 102 \<or> 65 \<le> byte c \<and> byte c \<le> 70"

definition xdigit_value :: "char \<Rightarrow> nat" where
  "xdigit_value c =
     (if is_digit c then byte c - 48 else (if byte c \<le> 90 then byte c + 32 else byte c) - 97 + 10)"

text \<open>The four digits of a \<open>\u\<close> escape: the code and the position behind them.\<close>

fun hex_loop :: "nat \<Rightarrow> string \<Rightarrow> nat \<Rightarrow> nat \<Rightarrow> manifest_error + nat \<times> nat" where
  "hex_loop 0 source position code = Inr (code, position)"
| "hex_loop (Suc n) source position code =
     (let c = byte_at source position
      in if \<not> is_xdigit c then Inl (Manifest_error position ''invalid Unicode escape'')
         else hex_loop n source (position + 1) (code * 16 + xdigit_value c))"

definition parse_hex_quad :: "string \<Rightarrow> nat \<Rightarrow> manifest_error + nat \<times> nat" where
  "parse_hex_quad source position = hex_loop 4 source position 0"

definition encode_utf8 :: "nat \<Rightarrow> string" where
  "encode_utf8 code =
     (if code < 0x80 then [char_of code]
      else if code < 0x800 then [char_of (0xc0 OR drop_bit 6 code), char_of (0x80 OR (code AND 0x3f))]
      else if code < 0x10000 then
        [char_of (0xe0 OR drop_bit 12 code), char_of (0x80 OR (drop_bit 6 code AND 0x3f)),
         char_of (0x80 OR (code AND 0x3f))]
      else [char_of (0xf0 OR drop_bit 18 code), char_of (0x80 OR (drop_bit 12 code AND 0x3f)),
            char_of (0x80 OR (drop_bit 6 code AND 0x3f)), char_of (0x80 OR (code AND 0x3f))])"

definition simple_escape :: "char \<Rightarrow> char option" where
  "simple_escape c =
     (if c = CHR 0x22 \<or> c = CHR 0x5C \<or> c = CHR ''/'' then Some c
      else if c = CHR ''n'' then Some (CHR 0x0A)
      else if c = CHR ''r'' then Some (CHR 0x0D)
      else if c = CHR ''t'' then Some (CHR 0x09)
      else if c = CHR ''b'' then Some (CHR 0x08)
      else if c = CHR ''f'' then Some (CHR 0x0C) else None)"

text \<open>A \<open>\u\<close> escape behind its \<open>u\<close>, with the low surrogate that must follow a high one.\<close>

definition unicode_escape :: "string \<Rightarrow> nat \<Rightarrow> manifest_error + nat \<times> nat" where
  "unicode_escape source position =
     (case parse_hex_quad source position of
        Inl e \<Rightarrow> Inl e
      | Inr (code, position) \<Rightarrow>
          (if 0xd800 \<le> code \<and> code \<le> 0xdbff then
             (if byte_at source position \<noteq> CHR 0x5C \<or> byte_at source (position + 1) \<noteq> CHR ''u''
              then Inl (Manifest_error position ''missing low Unicode surrogate'')
              else (case parse_hex_quad source (position + 2) of
                      Inl e \<Rightarrow> Inl e
                    | Inr (low, position) \<Rightarrow>
                        (if low < 0xdc00 \<or> low > 0xdfff
                         then Inl (Manifest_error position ''invalid low Unicode surrogate'')
                         else Inr (0x10000 + (code - 0xd800) * 1024 + (low - 0xdc00), position))))
           else if 0xdc00 \<le> code \<and> code \<le> 0xdfff
           then Inl (Manifest_error position ''unexpected low Unicode surrogate'')
           else if code = 0 then Inl (Manifest_error position ''NUL in String'')
           else Inr (code, position)))"

subsection \<open>Strings\<close>

datatype 'a outcome = Parsed 'a nat | Failed manifest_error | Overrun | Stuck

text \<open>\<open>used\<close> is what has been written to the result buffer of \<open>capacity\<close> bytes.\<close>

function string_loop :: "nat \<Rightarrow> string \<Rightarrow> nat \<Rightarrow> string \<Rightarrow> string outcome" where
  "string_loop capacity source position used =
     (let c = byte_at source position
      in if c = NUL \<or> byte c < 0x20 then Failed (Manifest_error position ''unterminated or invalid String'')
         else if c = CHR 0x22 then
           (if length used < capacity then Parsed used (position + 1) else Overrun)
         else if c = CHR ''#'' \<and> byte_at source (position + 1) = CHR ''{''
         then Failed (Manifest_error (position + 1) ''String interpolation is not allowed'')
         else if c = CHR 0x5C then
           (let e = byte_at source (position + 1)
            in if e = NUL then Failed (Manifest_error (position + 1) ''unterminated String escape'')
               else if e = CHR ''u'' then
                 (case unicode_escape source (position + 2) of
                    Inl err \<Rightarrow> Failed err
                  | Inr (code, next) \<Rightarrow>
                      (if length used + length (encode_utf8 code) > capacity then Overrun
                       else if next \<le> position then Stuck
                       else string_loop capacity source next (used @ encode_utf8 code)))
               else (case simple_escape e of
                       None \<Rightarrow> Failed (Manifest_error (position + 2) ''invalid String escape'')
                     | Some d \<Rightarrow>
                         (if length used + 1 > capacity then Overrun
                          else string_loop capacity source (position + 2) (used @ [d]))))
         else if length used + 1 > capacity then Overrun
         else string_loop capacity source (position + 1) (used @ [c]))"
  by pat_completeness auto
termination
  by (relation "measure (\<lambda>(capacity, source, position, used). length source - position)")
    (auto dest: byte_at_inside intro!: diff_less_mono2)

declare string_loop.simps [simp del]

definition parse_string :: "string \<Rightarrow> nat \<Rightarrow> string outcome" where
  "parse_string source position =
     (let start = position + 1
      in string_loop (length source - start + 1) source start [])"

subsection \<open>Collections and values\<close>

type_synonym value_parser = "string \<Rightarrow> nat \<Rightarrow> DiamondManifestValue outcome"

text \<open>The key and colon of a Hash entry, given the keys before it.\<close>

definition parse_key :: "string \<Rightarrow> nat \<Rightarrow> string list \<Rightarrow> string outcome" where
  "parse_key source position keys =
     (if byte_at source position \<noteq> CHR 0x22 then Failed (Manifest_error position ''Hash keys must be Strings'')
      else (case parse_string source position of
              Parsed key position \<Rightarrow>
                (if key \<in> set keys then Failed (Manifest_error position ''duplicate Hash key'')
                 else let position = skip_space source position
                      in if byte_at source position \<noteq> CHR '':''
                         then Failed (Manifest_error position (''expected '' @ [CHR 0x27] @ '':'' @ [CHR 0x27] @ '' after Hash key''))
                         else Parsed key (position + 1))
            | Failed e \<Rightarrow> Failed e | Overrun \<Rightarrow> Overrun | Stuck \<Rightarrow> Stuck))"

definition parse_entry ::
    "value_parser \<Rightarrow> bool \<Rightarrow> string \<Rightarrow> nat \<Rightarrow> string list \<Rightarrow> (string \<times> DiamondManifestValue) outcome" where
  "parse_entry parse_value hash source position keys =
     (case (if hash then parse_key source position keys else Parsed [] position) of
        Parsed key position \<Rightarrow>
          (case parse_value source position of
             Parsed child position \<Rightarrow> Parsed (key, child) position
           | Failed e \<Rightarrow> Failed e | Overrun \<Rightarrow> Overrun | Stuck \<Rightarrow> Stuck)
      | Failed e \<Rightarrow> Failed e | Overrun \<Rightarrow> Overrun | Stuck \<Rightarrow> Stuck)"

definition closing :: "bool \<Rightarrow> char" where
  "closing hash = (if hash then CHR ''}'' else CHR '']'')"

text \<open>The loop over the entries; its bound is more than the characters left.\<close>

fun entries_loop ::
    "nat \<Rightarrow> value_parser \<Rightarrow> bool \<Rightarrow> string \<Rightarrow> nat \<Rightarrow> (string \<times> DiamondManifestValue) list \<Rightarrow>
     (string \<times> DiamondManifestValue) list outcome" where
  "entries_loop 0 parse_value hash source position children = Stuck"
| "entries_loop (Suc n) parse_value hash source position children =
     (case parse_entry parse_value hash source position (map fst children) of
        Parsed child position \<Rightarrow>
          (let children = children @ [child]; position = skip_space source position; c = byte_at source position
           in if c = closing hash then Parsed children (position + 1)
              else if c \<noteq> CHR '',''
              then Failed (Manifest_error position (''expected '' @ [CHR 0x27] @ '','' @ [CHR 0x27] @ '' or closing delimiter''))
              else let position = skip_space source (position + 1)
                   in if byte_at source position = closing hash then Parsed children (position + 1)
                      else entries_loop n parse_value hash source position children)
      | Failed e \<Rightarrow> Failed e | Overrun \<Rightarrow> Overrun | Stuck \<Rightarrow> Stuck)"

definition collection :: "bool \<Rightarrow> (string \<times> DiamondManifestValue) list \<Rightarrow> DiamondManifestValue" where
  "collection hash children = (if hash then MANIFEST_HASH children else MANIFEST_ARRAY (map snd children))"

text \<open>\<open>parse_value\<close> is the parser of the level below, none at the deepest level allowed.\<close>

definition parse_collection :: "value_parser option \<Rightarrow> bool \<Rightarrow> value_parser" where
  "parse_collection parse_value hash source position =
     (case parse_value of
        None \<Rightarrow> Failed (Manifest_error position ''literal nesting exceeds 32 levels'')
      | Some parse_value \<Rightarrow>
          (let position = skip_space source (position + 1)
           in if byte_at source position = closing hash then Parsed (collection hash []) (position + 1)
              else (case entries_loop (length source + 1) parse_value hash source position [] of
                      Parsed children position \<Rightarrow> Parsed (collection hash children) position
                    | Failed e \<Rightarrow> Failed e | Overrun \<Rightarrow> Overrun | Stuck \<Rightarrow> Stuck)))"

definition parse_integer :: value_parser where
  "parse_integer source position =
     (let digits = (if byte_at source position = CHR ''-'' then position + 1 else position);
          behind = digits + length (takeWhile is_digit (drop digits source))
      in if digits \<noteq> behind
         then Parsed (MANIFEST_INTEGER (take (behind - position) (drop position source))) behind
         else Failed (Manifest_error behind ''expected integer''))"

definition keyword_at :: "string \<Rightarrow> nat \<Rightarrow> string \<Rightarrow> bool" where
  "keyword_at source position keyword \<longleftrightarrow>
     length (drop position source) \<ge> length keyword \<and> take (length keyword) (drop position source) = keyword"

definition parse_keyword :: value_parser where
  "parse_keyword source position =
     (if keyword_at source position ''true'' then Parsed (MANIFEST_BOOLEAN ''true'') (position + 4)
      else if keyword_at source position ''false'' then Parsed (MANIFEST_BOOLEAN ''false'') (position + 5)
      else if keyword_at source position ''nil'' then Parsed MANIFEST_OTHER (position + 3)
      else Failed (Manifest_error position ''expected data literal''))"

definition value_step :: "value_parser option \<Rightarrow> value_parser" where
  "value_step parse_value source position =
     (let position = skip_space source position; c = byte_at source position
      in if c = CHR ''{'' then parse_collection parse_value True source position
         else if c = CHR ''['' then parse_collection parse_value False source position
         else if c = CHR 0x22 then
           (case parse_string source position of
              Parsed chars position \<Rightarrow> Parsed (MANIFEST_STRING chars) position
            | Failed e \<Rightarrow> Failed e | Overrun \<Rightarrow> Overrun | Stuck \<Rightarrow> Stuck)
         else if c = CHR ''-'' \<or> is_digit c then parse_integer source position
         else parse_keyword source position)"

primrec parse_value :: "nat \<Rightarrow> value_parser" where
  "parse_value 0 = value_step None"
| "parse_value (Suc levels) = value_step (Some (parse_value levels))"

definition diamond_manifest_parse :: "string \<Rightarrow> DiamondManifestValue outcome" where
  "diamond_manifest_parse source =
     (if length source > 1024 * 1024 then Failed (Manifest_error 0 ''metadata exceeds 1 MiB'')
      else let position = skip_space source 0
           in if byte_at source position \<noteq> CHR ''{'' then Failed (Manifest_error position ''expected Hash literal'')
              else (case parse_collection (Some (parse_value 31)) True source position of
                      Parsed root position \<Rightarrow>
                        (let position = skip_space source position
                         in if byte_at source position \<noteq> NUL
                            then Failed (Manifest_error position ''unexpected content after Hash literal'')
                            else Parsed root position)
                    | Failed e \<Rightarrow> Failed e | Overrun \<Rightarrow> Overrun | Stuck \<Rightarrow> Stuck))"

subsection \<open>Lookups\<close>

fun diamond_manifest_get :: "DiamondManifestValue \<Rightarrow> string \<Rightarrow> DiamondManifestValue option" where
  "diamond_manifest_get (MANIFEST_HASH children) key = map_of children key"
| "diamond_manifest_get v key = None"

definition diamond_manifest_get_string :: "DiamondManifestValue \<Rightarrow> string \<Rightarrow> nat \<Rightarrow> string option" where
  "diamond_manifest_get_string hash key out_size =
     (case diamond_manifest_get hash key of
        Some (MANIFEST_STRING s) \<Rightarrow> if length s \<ge> out_size then None else Some s
      | _ \<Rightarrow> None)"

fun u64_digits :: "string \<Rightarrow> nat \<Rightarrow> nat option" where
  "u64_digits [] result = Some result"
| "u64_digits (c # cs) result =
     (let digit = byte c - 48
      in if result > (2 ^ 64 - 1 - digit) div 10 then None else u64_digits cs (u64 (result * 10 + digit)))"

definition diamond_manifest_get_u64 :: "DiamondManifestValue \<Rightarrow> string \<Rightarrow> nat option" where
  "diamond_manifest_get_u64 hash key =
     (case diamond_manifest_get hash key of
        Some (MANIFEST_INTEGER s) \<Rightarrow> if byte_at s 0 = CHR ''-'' then None else u64_digits s 0
      | _ \<Rightarrow> None)"

definition diamond_manifest_get_bool :: "DiamondManifestValue \<Rightarrow> string \<Rightarrow> bool option" where
  "diamond_manifest_get_bool hash key =
     (case diamond_manifest_get hash key of
        Some (MANIFEST_BOOLEAN s) \<Rightarrow> Some (s = ''true'')
      | _ \<Rightarrow> None)"

subsection \<open>Finding the manifest\<close>

datatype DiamondCutManifestLookup =
  CUT_MANIFEST_MISSING | CUT_MANIFEST_FOUND | CUT_MANIFEST_AMBIGUOUS | CUT_MANIFEST_PATH_TOO_LONG

text \<open>
  The caller's path buffer is an array of fixed length, rewritten in place. \<open>snprintf\<close> stores what
  fits of a text and a terminating NUL, and nothing into an empty array; it returns the length of the
  whole text (paths are far below the range of \<open>int\<close>). Reading the buffer stops at the first NUL.
\<close>

definition snprintf :: "string \<Rightarrow> string \<Rightarrow> nat \<times> string" where
  "snprintf path s =
     (length s,
      if path = [] then []
      else (let stored = take (length path - 1) s @ [NUL] in stored @ drop (length stored) path))"

definition buffer_text :: "string \<Rightarrow> string" where
  "buffer_text path = takeWhile (\<lambda>c. c \<noteq> NUL) path"

definition format_manifest_path :: "string \<Rightarrow> string \<Rightarrow> string \<Rightarrow> bool \<times> string" where
  "format_manifest_path path directory name =
     (let path_size = length path; (written, path) = snprintf path (directory @ ''/'' @ name)
      in (written > 0 \<and> written < path_size, path))"

text \<open>\<open>stat\<close> says whether the path in the buffer exists.\<close>

definition diamond_cut_manifest_find ::
    "(string \<Rightarrow> bool) \<Rightarrow> string \<Rightarrow> string \<Rightarrow> DiamondCutManifestLookup \<times> string" where
  "diamond_cut_manifest_find stat directory path =
     (case format_manifest_path path directory ''diamond.cut'' of (fits, path) \<Rightarrow>
      if \<not> fits then (CUT_MANIFEST_PATH_TOO_LONG, path)
      else let has_legacy = stat (buffer_text path)
      in case format_manifest_path path directory ''Cutfile'' of (fits, path) \<Rightarrow>
      if \<not> fits then (CUT_MANIFEST_PATH_TOO_LONG, path)
      else let has_current = stat (buffer_text path)
      in if has_current \<and> has_legacy then (CUT_MANIFEST_AMBIGUOUS, path)
         else if has_current then (CUT_MANIFEST_FOUND, path)
         else if \<not> has_legacy then (CUT_MANIFEST_MISSING, path)
         else (CUT_MANIFEST_FOUND, snd (format_manifest_path path directory ''diamond.cut'')))"

section \<open>Specification\<close>

text \<open>A result whose positions lie in the source, that consumed something and whose value satisfies \<open>P\<close>.\<close>

definition parses :: "string \<Rightarrow> nat \<Rightarrow> ('a \<Rightarrow> bool) \<Rightarrow> 'a outcome \<Rightarrow> bool" where
  "parses source position P r =
     (case r of
        Parsed v next \<Rightarrow> position < next \<and> next \<le> length source \<and> P v
      | Failed e \<Rightarrow> error_position e \<le> length source
      | Overrun \<Rightarrow> False | Stuck \<Rightarrow> False)"

definition integer_text :: "string \<Rightarrow> bool" where
  "integer_text s \<longleftrightarrow>
     (let digits = (if byte_at s 0 = CHR ''-'' then drop 1 s else s) in digits \<noteq> [] \<and> list_all is_digit digits)"

fun wf_scalar :: "DiamondManifestValue \<Rightarrow> bool" where
  "wf_scalar MANIFEST_OTHER = True"
| "wf_scalar (MANIFEST_INTEGER s) = integer_text s"
| "wf_scalar (MANIFEST_BOOLEAN s) = (s = ''true'' \<or> s = ''false'')"
| "wf_scalar (MANIFEST_STRING s) = c_string s"
| "wf_scalar v = False"

text \<open>Well-formed values of at most the given nesting depth: distinct NUL-free keys at every level.\<close>

primrec wf_manifest :: "nat \<Rightarrow> DiamondManifestValue \<Rightarrow> bool" where
  "wf_manifest 0 v = wf_scalar v"
| "wf_manifest (Suc n) v =
     (case v of
        MANIFEST_HASH children \<Rightarrow>
          distinct (map fst children) \<and> list_all (\<lambda>(k, c). c_string k \<and> wf_manifest n c) children
      | MANIFEST_ARRAY items \<Rightarrow> list_all (wf_manifest n) items
      | _ \<Rightarrow> wf_scalar v)"

text \<open>A printer of the data literals the parser accepts: the specification of what it reads back.\<close>

definition hex_digit :: "nat \<Rightarrow> char" where
  "hex_digit n = (if n < 10 then char_of (48 + n) else char_of (87 + n))"

definition print_char :: "char \<Rightarrow> string" where
  "print_char c =
     (if c = CHR 0x22 \<or> c = CHR 0x5C then [CHR 0x5C, c]
      else if c = CHR ''#'' \<or> byte c < 0x20
      then [CHR 0x5C, CHR ''u'', CHR ''0'', CHR ''0'', hex_digit (byte c div 16), hex_digit (byte c mod 16)]
      else [c])"

definition print_string :: "string \<Rightarrow> string" where
  "print_string s = CHR 0x22 # concat (map print_char s) @ [CHR 0x22]"

fun print_items :: "string list \<Rightarrow> string" where
  "print_items [] = []"
| "print_items [x] = x"
| "print_items (x # xs) = x @ '','' @ print_items xs"

fun print_manifest :: "DiamondManifestValue \<Rightarrow> string" where
  "print_manifest MANIFEST_OTHER = ''nil''"
| "print_manifest (MANIFEST_INTEGER s) = s"
| "print_manifest (MANIFEST_BOOLEAN s) = s"
| "print_manifest (MANIFEST_STRING s) = print_string s"
| "print_manifest (MANIFEST_ARRAY items) = ''['' @ print_items (map print_manifest items) @ '']''"
| "print_manifest (MANIFEST_HASH children) =
     ''{'' @ print_items (map (\<lambda>(k, v). print_string k @ '':'' @ print_manifest v) children) @ ''}''"

definition stops :: "string \<Rightarrow> bool" where
  "stops rest \<longleftrightarrow> (case rest of [] \<Rightarrow> True | c # _ \<Rightarrow> \<not> is_digit c)"

text \<open>One entry of a collection as printed, and what its children must satisfy to be read back.\<close>

definition entry_text :: "bool \<Rightarrow> string \<times> DiamondManifestValue \<Rightarrow> string" where
  "entry_text hash = (\<lambda>(k, v). (if hash then print_string k @ '':'' else []) @ print_manifest v)"

definition good_children :: "(DiamondManifestValue \<Rightarrow> bool) \<Rightarrow> bool \<Rightarrow> (string \<times> DiamondManifestValue) list \<Rightarrow> bool" where
  "good_children good hash children \<longleftrightarrow>
     list_all (\<lambda>(k, v). good v \<and> c_string k \<and> (hash \<or> k = [])) children \<and>
     (hash \<longrightarrow> distinct (map fst children))"

section \<open>Positions\<close>

lemma skip_space_ge: "position \<le> skip_space source position"
  by (simp add: skip_space_def)

lemma skip_space_le: "position \<le> length source \<Longrightarrow> skip_space source position \<le> length source"
  using length_takeWhile_le [of is_space "drop position source"] by (simp add: skip_space_def)

lemma parses_weaken: "parses source b P r \<Longrightarrow> a \<le> b \<Longrightarrow> (\<And>v. P v \<Longrightarrow> Q v) \<Longrightarrow> parses source a Q r"
  by (auto simp: parses_def split: outcome.splits)

lemma inside: "byte_at source position = c \<Longrightarrow> c \<noteq> NUL \<Longrightarrow> position < length source"
  using byte_at_inside by blast

lemma xdigit_not_NUL: "is_xdigit c \<Longrightarrow> c \<noteq> NUL"
  by (auto simp: is_xdigit_def is_digit_def byte_def)

lemma xdigit_inside: "is_xdigit (byte_at source position) \<Longrightarrow> position < length source"
  using byte_at_inside xdigit_not_NUL by blast

lemma hex_loop_next:
  "hex_loop n source position code = Inr (code', next) \<Longrightarrow> position \<le> length source \<Longrightarrow>
     next = position + n \<and> next \<le> length source"
proof (induction n arbitrary: position code)
  case (Suc n)
  then show ?case
    using xdigit_inside [of source position] Suc(1) [of "position + 1"] by (auto simp: Let_def split: if_splits)
qed auto

lemma hex_loop_error:
  "hex_loop n source position code = Inl e \<Longrightarrow> position \<le> length source \<Longrightarrow> error_position e \<le> length source"
proof (induction n arbitrary: position code)
  case (Suc n)
  then show ?case
    using xdigit_inside [of source position] Suc(1) [of "position + 1"] by (auto simp: Let_def split: if_splits)
qed auto

lemma xdigit_value_less: "is_xdigit c \<Longrightarrow> xdigit_value c < 16"
  by (auto simp: is_xdigit_def xdigit_value_def is_digit_def byte_def)

lemma hex_loop_code: "hex_loop n source position code = Inr (code', next) \<Longrightarrow> code' < (code + 1) * 16 ^ n"
proof (induction n arbitrary: position code)
  case (Suc n)
  let ?c = "byte_at source position"
  have "is_xdigit ?c" "hex_loop n source (position + 1) (code * 16 + xdigit_value ?c) = Inr (code', next)"
    using Suc(2) by (auto simp: Let_def split: if_splits)
  then have "code' < (code * 16 + xdigit_value ?c + 1) * 16 ^ n" "xdigit_value ?c < 16"
    using Suc(1) xdigit_value_less by auto
  then have "code' < (code * 16 + xdigit_value ?c + 1) * 16 ^ n" "code * 16 + xdigit_value ?c + 1 \<le> (code + 1) * 16" by auto
  then have "code' < (code + 1) * 16 * 16 ^ n"
    using mult_le_mono1 [of "code * 16 + xdigit_value ?c + 1" "(code + 1) * 16" "16 ^ n"] by linarith
  then show ?case by (simp only: power_Suc mult.assoc)
qed simp

text \<open>A Unicode escape takes at least as many characters as it produces bytes.\<close>

lemma length_encode_utf8: "length (encode_utf8 code) \<le> (if code < 0x10000 then 3 else 4)"
  by (simp add: encode_utf8_def)

lemma unicode_escape_bounds:
  assumes "position \<le> length source"
  shows "unicode_escape source position = Inl e \<Longrightarrow> error_position e \<le> length source"
    and "unicode_escape source position = Inr (code, next) \<Longrightarrow>
      position + length (encode_utf8 code) \<le> next \<and> next \<le> length source \<and> 0 < code"
proof -
  show "error_position e \<le> length source" if "unicode_escape source position = Inl e"
  proof (cases "parse_hex_quad source position")
    case (Inl e')
    then show ?thesis
      using that hex_loop_error [of 4 source position 0] assms by (simp add: unicode_escape_def parse_hex_quad_def)
  next
    case (Inr r)
    obtain c p where r: "r = (c, p)" by fastforce
    have p: "p \<le> length source" using hex_loop_next [of 4 source position 0] Inr r assms by (simp add: parse_hex_quad_def)
    have "byte_at source (p + 1) = CHR ''u'' \<Longrightarrow> p + 2 \<le> length source" using inside [of source "p + 1"] by fastforce
    then show ?thesis
      using that Inr r p hex_loop_next [of 4 source "p + 2" 0] hex_loop_error [of 4 source "p + 2" 0]
      by (auto simp: unicode_escape_def parse_hex_quad_def split: if_splits sum.splits prod.splits)
  qed
  show "position + length (encode_utf8 code) \<le> next \<and> next \<le> length source \<and> 0 < code"
    if u: "unicode_escape source position = Inr (code, next)"
  proof -
    obtain c p where q: "parse_hex_quad source position = Inr (c, p)"
      using u by (auto simp: unicode_escape_def split: sum.splits)
    have p: "p = position + 4" "p \<le> length source" "c < 0x10000"
      using hex_loop_next [of 4 source position 0 c p] hex_loop_code [of 4 source position 0 c p] q assms
      by (auto simp: parse_hex_quad_def)
    show ?thesis
    proof (cases "0xd800 \<le> c \<and> c \<le> 0xdbff")
      case True
      then obtain low where l: "byte_at source (p + 1) = CHR ''u''" "parse_hex_quad source (p + 2) = Inr (low, next)"
        "code = 0x10000 + (c - 0xd800) * 1024 + (low - 0xdc00)"
        using u q by (auto simp: unicode_escape_def split: if_splits sum.splits)
      have "p + 2 \<le> length source" using inside [OF l(1)] by simp
      then show ?thesis
        using hex_loop_next [of 4 source "p + 2" 0 low "next"] l(2,3) p length_encode_utf8 [of code]
        by (auto simp: parse_hex_quad_def)
    next
      case False
      then have "code = c" "next = p" "0 < c" using u q by (auto simp: unicode_escape_def split: if_splits)
      then show ?thesis using p length_encode_utf8 [of code] by auto
    qed
  qed
qed

section \<open>Strings\<close>

lemma char_of_high: "bit n 7 \<Longrightarrow> char_of n \<noteq> NUL" for n :: nat
proof
  assume "bit n 7" "char_of n = NUL"
  then have "of_char (char_of n) = (0 :: nat)" by simp
  then have "n mod 256 = 0" by simp
  then have "take_bit 8 n = 0" by (simp add: take_bit_eq_mod)
  moreover have "bit (take_bit 8 n) 7" using \<open>bit n 7\<close> by (simp add: bit_take_bit_iff)
  ultimately show False by simp
qed

lemma encode_utf8_c_string: "0 < code \<Longrightarrow> c_string (encode_utf8 code)"
proof -
  assume pos: "0 < code"
  have bits: "bit (0xc0 OR x) 7" "bit (0xe0 OR x) 7" "bit (0xf0 OR x) 7" "bit (0x80 OR x) 7" for x :: nat
    by (simp_all add: bit_or_iff bit_numeral_rec bit_Suc_0_iff)
  have small: "code < 0x80 \<Longrightarrow> char_of code \<noteq> NUL"
  proof
    assume "code < 0x80" "char_of code = NUL"
    then have "of_char (char_of code) = (0 :: nat)" by simp
    then show False using \<open>code < 0x80\<close> pos by simp
  qed
  show ?thesis
    using small bits [THEN char_of_high] by (auto simp: encode_utf8_def c_string_def) (metis)+
qed

lemma string_loop_parses:
  "c_string source \<Longrightarrow> position \<le> length source \<Longrightarrow> start \<le> position \<Longrightarrow>
   length used \<le> position - start \<Longrightarrow> c_string used \<Longrightarrow>
   parses source position c_string (string_loop (length source - start + 1) source position used)"
proof (induction "length source - position" arbitrary: position used rule: less_induct)
  case less
  let ?cap = "length source - start + 1" and ?c = "byte_at source position"
  have step: "parses source position c_string (string_loop ?cap source position' used')"
    if "position < position'" "position' \<le> length source" "length used' \<le> position' - start" "c_string used'" for position' used'
  proof -
    have "length source - position' < length source - position" using that by simp
    then have "parses source position' c_string (string_loop ?cap source position' used')"
      using less(1) less(2,4) that by simp
    then show ?thesis by (rule parses_weaken) (use that in simp_all)
  qed
  consider (bad) "?c = NUL \<or> byte ?c < 0x20" | (ok) "?c \<noteq> NUL" "\<not> byte ?c < 0x20" by blast
  then show ?case
  proof cases
    case bad
    then show ?thesis using less(3) by (subst string_loop.simps) (simp add: Let_def parses_def)
  next
    case ok
    then have lt: "position < length source" using byte_at_inside by blast
    let ?e = "byte_at source (position + 1)"
    have e: "?e \<noteq> NUL \<Longrightarrow> position + 2 \<le> length source" using byte_at_inside by fastforce
    consider (quote) "?c = CHR 0x22" | (interp) "?c = CHR ''#''" "?e = CHR ''{''"
      | (esc) "?c = CHR 0x5C" | (plain) "?c \<noteq> CHR 0x22" "\<not> (?c = CHR ''#'' \<and> ?e = CHR ''{'')" "?c \<noteq> CHR 0x5C" by blast
    then show ?thesis
    proof cases
      case quote
      then show ?thesis using less(2-6) lt ok by (subst string_loop.simps) (simp add: Let_def parses_def)
    next
      case interp
      then show ?thesis using less(2-6) lt ok by (subst string_loop.simps) (simp add: Let_def parses_def)
    next
      case plain
      have "parses source position c_string (string_loop ?cap source (position + 1) (used @ [?c]))"
        using less(2-6) lt ok by (intro step) (auto simp: c_string_append)
      then show ?thesis using less(2-6) lt ok plain by (subst string_loop.simps) (auto simp: Let_def)
    next
      case esc
      show ?thesis
      proof (cases "?e = CHR ''u''")
        case u: True
        then have p2: "position + 2 \<le> length source" using e by simp
        show ?thesis
        proof (cases "unicode_escape source (position + 2)")
          case (Inl err)
          then show ?thesis
            using unicode_escape_bounds(1) [OF p2 Inl] less(2-6) lt ok esc u by (subst string_loop.simps) (simp add: Let_def parses_def)
        next
          case (Inr r)
          obtain code nxt where r: "r = (code, nxt)" by fastforce
          have b: "position + 2 + length (encode_utf8 code) \<le> nxt" "nxt \<le> length source" "0 < code"
            using unicode_escape_bounds(2) [OF p2] Inr r by auto
          have "parses source position c_string (string_loop ?cap source nxt (used @ encode_utf8 code))"
            using less(2-6) b encode_utf8_c_string by (intro step) (auto simp: c_string_append)
          moreover have "\<not> length used + length (encode_utf8 code) > ?cap" "\<not> nxt \<le> position"
            using less(2-6) b lt by auto
          ultimately show ?thesis
            using Inr r ok esc u by (subst string_loop.simps) (simp add: Let_def)
        qed
      next
        case False
        have "parses source position c_string (string_loop ?cap source (position + 2) (used @ [d]))"
          if "simple_escape ?e = Some d" "?e \<noteq> NUL" for d
          using less(2-6) that e by (intro step) (auto simp: c_string_append simple_escape_def split: if_splits)
        moreover have "?e \<noteq> NUL \<Longrightarrow> \<not> length used + 1 > ?cap" using less(2-6) e by auto
        ultimately show ?thesis
          using less(2-6) lt ok esc False e
          by (subst string_loop.simps) (auto simp: Let_def parses_def split: option.splits)
      qed
    qed
  qed
qed

lemma parse_string_parses:
  assumes "c_string source" "position < length source"
  shows "parses source position c_string (parse_string source position)"
  using string_loop_parses [of source "position + 1" "position + 1" "[]"] assms
  by (auto simp: parse_string_def Let_def intro: parses_weaken)

section \<open>Values\<close>

lemma drop_at: "byte_at source position = c \<Longrightarrow> c \<noteq> NUL \<Longrightarrow> drop position source = c # drop (position + 1) source"
  by (metis Cons_nth_drop_Suc Suc_eq_plus1 byte_at_def)

lemma closing_inside: "byte_at source position = closing hash \<Longrightarrow> position + 1 \<le> length source"
  using inside [of source position "closing hash"] by (simp add: closing_def split: if_splits)

lemma comma_inside: "byte_at source position = CHR '','' \<Longrightarrow> position + 1 \<le> length source"
  using inside [of source position] by simp

lemma wf_scalar_mono: "wf_scalar v \<Longrightarrow> wf_manifest n v"
  by (cases n; cases v) auto

text \<open>What the loop over a collection's entries relies on: the parser of the values inside.\<close>

locale value_contract =
  fixes parse :: value_parser and levels :: nat
  assumes value_parses: "c_string source \<Longrightarrow> position \<le> length source \<Longrightarrow>
    parses source position (wf_manifest levels) (parse source position)"
begin

lemma entry_parses:
  assumes "c_string source" "position \<le> length source"
  shows "parses source position
    (\<lambda>(k, v). c_string k \<and> wf_manifest levels v \<and> (hash \<longrightarrow> k \<notin> set keys))
    (parse_entry parse hash source position keys)"
proof (cases hash)
  case False
  then show ?thesis
    using value_parses [OF assms] by (auto simp: parse_entry_def parses_def split: outcome.splits)
next
  case True
  show ?thesis
  proof (cases "byte_at source position = CHR 0x22")
    case False
    then show ?thesis using True assms by (simp add: parse_entry_def parse_key_def parses_def)
  next
    case quote: True
    have lt: "position < length source" using inside [OF quote] by simp
    have str: "parses source position c_string (parse_string source position)"
      by (rule parse_string_parses [OF assms(1) lt])
    show ?thesis
    proof (cases "parse_string source position")
      case (Parsed key p)
      have p: "position < p" "p \<le> length source" "c_string key" using str Parsed by (auto simp: parses_def)
      let ?q = "skip_space source p"
      have q: "p \<le> ?q" "?q \<le> length source" using p skip_space_ge skip_space_le by auto
      have "byte_at source ?q = CHR '':'' \<Longrightarrow> ?q + 1 \<le> length source" using inside by fastforce
      then show ?thesis
        using True quote Parsed p q value_parses [OF assms(1), of "?q + 1"]
        by (auto simp: parse_entry_def parse_key_def parses_def Let_def split: outcome.splits)
    qed (use str True quote in \<open>auto simp: parse_entry_def parse_key_def parses_def\<close>)
  qed
qed

lemma entries_parse:
  assumes "c_string source"
  shows "position \<le> length source \<Longrightarrow> length source - position < n \<Longrightarrow>
    (hash \<longrightarrow> distinct (map fst children)) \<Longrightarrow>
    list_all (\<lambda>(k, v). c_string k \<and> wf_manifest levels v) children \<Longrightarrow>
    parses source position
      (\<lambda>cs. (hash \<longrightarrow> distinct (map fst cs)) \<and> list_all (\<lambda>(k, v). c_string k \<and> wf_manifest levels v) cs)
      (entries_loop n parse hash source position children)"
proof (induction n arbitrary: position children)
  case (Suc n)
  let ?P = "\<lambda>cs. (hash \<longrightarrow> distinct (map fst cs)) \<and> list_all (\<lambda>(k, v). c_string k \<and> wf_manifest levels v) cs"
  note entry = entry_parses [OF assms Suc(2), of hash "map fst children"]
  show ?case
  proof (cases "parse_entry parse hash source position (map fst children)")
    case (Parsed child p)
    have p: "position < p" "p \<le> length source" "?P (children @ [child])"
      using entry Parsed Suc(4,5) by (auto simp: parses_def intro: rev_image_eqI)
    let ?q = "skip_space source p"
    have q: "p \<le> ?q" "?q \<le> length source" using p skip_space_ge skip_space_le by auto
    have c: "byte_at source ?q = closing hash \<Longrightarrow> ?q + 1 \<le> length source"
      "byte_at source ?q = CHR '','' \<Longrightarrow> ?q + 1 \<le> length source"
      using closing_inside comma_inside by blast+
    let ?r = "skip_space source (?q + 1)"
    have r: "byte_at source ?q = CHR '','' \<Longrightarrow> position < ?r \<and> ?r \<le> length source"
      using skip_space_ge [of "?q + 1" source] skip_space_le [of "?q + 1" source] c p q by simp
    have close: "byte_at source ?r = closing hash \<Longrightarrow> ?r + 1 \<le> length source"
      by (rule closing_inside)
    have rest: "byte_at source ?q = CHR '','' \<Longrightarrow>
        parses source position ?P (entries_loop n parse hash source ?r (children @ [child]))"
      by (rule parses_weaken [OF Suc(1) [of ?r "children @ [child]"]]) (use r p(1,3) Suc(3) in auto)
    show ?thesis
      using Parsed p q c r close rest by (auto simp: Let_def parses_def)
  qed (use entry in \<open>simp_all add: parses_def\<close>)
qed simp

lemma collection_parses:
  assumes "c_string source" "position < length source"
  shows "parses source position (wf_manifest (Suc levels)) (parse_collection (Some parse) hash source position)"
proof -
  let ?q = "skip_space source (position + 1)"
  have q: "position < ?q" "?q \<le> length source"
    using skip_space_ge [of "position + 1" source] skip_space_le [of "position + 1" source] assms(2) by auto
  have c: "byte_at source ?q = closing hash \<Longrightarrow> ?q + 1 \<le> length source"
    by (rule closing_inside)
  have "parses source ?q
      (\<lambda>cs. (hash \<longrightarrow> distinct (map fst cs)) \<and> list_all (\<lambda>(k, v). c_string k \<and> wf_manifest levels v) cs)
      (entries_loop (length source + 1) parse hash source ?q [])"
    by (rule entries_parse [OF assms(1) q(2)]) simp_all
  then show ?thesis
    using q c
    by (cases "entries_loop (length source + 1) parse hash source ?q []")
      (auto simp: parse_collection_def parses_def Let_def collection_def list_all_iff simp del: entries_loop.simps)
qed

end

lemma integer_parses:
  assumes "position \<le> length source" "byte_at source position = CHR ''-'' \<or> is_digit (byte_at source position)"
  shows "parses source position wf_scalar (parse_integer source position)"
proof -
  let ?d = "if byte_at source position = CHR ''-'' then position + 1 else position"
  let ?ds = "takeWhile is_digit (drop ?d source)"
  have d: "?d \<le> length source" using assms(1) inside [of source position] by fastforce
  have len: "?d + length ?ds \<le> length source"
    using length_takeWhile_le [of is_digit "drop ?d source"] d by simp
  have "integer_text (take (?d + length ?ds - position) (drop position source))" if "?ds \<noteq> []"
  proof (cases "byte_at source position = CHR ''-''")
    case True
    then have "drop position source = CHR ''-'' # drop (position + 1) source"
      by (rule drop_at) simp
    then have "take (?d + length ?ds - position) (drop position source) = CHR ''-'' # ?ds"
      using True by (simp add: takeWhile_eq_take [symmetric])
    then show ?thesis using that True set_takeWhileD by (fastforce simp: integer_text_def list_all_iff)
  next
    case False
    then have "take (?d + length ?ds - position) (drop position source) = ?ds"
      by (simp add: takeWhile_eq_take [symmetric])
    moreover have "byte_at ?ds 0 \<noteq> CHR ''-''" "list_all is_digit ?ds"
      using that set_takeWhileD [of _ is_digit "drop ?d source"]
      by (cases ?ds; fastforce simp: list_all_iff is_digit_def)+
    ultimately show ?thesis using that by (simp add: integer_text_def)
  qed
  then show ?thesis
    using len d by (auto simp: parse_integer_def Let_def parses_def)
qed

lemma keyword_parses:
  assumes "position \<le> length source"
  shows "parses source position wf_scalar (parse_keyword source position)"
  using assms by (auto simp: parse_keyword_def parses_def keyword_at_def)

lemma value_step_parses:
  assumes "c_string source" "position \<le> length source"
    "\<And>hash p. p < length source \<Longrightarrow> parses source p (wf_manifest n) (parse_collection child hash source p)"
  shows "parses source position (wf_manifest n) (value_step child source position)"
proof -
  let ?p = "skip_space source position"
  have p: "position \<le> ?p" "?p \<le> length source" using skip_space_ge skip_space_le [OF assms(2)] by auto
  have scalar: "parses source ?p wf_scalar r \<Longrightarrow> parses source position (wf_manifest n) r" for r
    by (erule parses_weaken) (use p(1) wf_scalar_mono in auto)
  have coll: "?p < length source \<Longrightarrow> parses source position (wf_manifest n) (parse_collection child hash source ?p)" for hash
    using assms(3) p(1) by (rule parses_weaken [of source ?p]) auto
  have str: "parses source ?p wf_scalar (case parse_string source ?p of
      Parsed chars position \<Rightarrow> Parsed (MANIFEST_STRING chars) position
    | Failed e \<Rightarrow> Failed e | Overrun \<Rightarrow> Overrun | Stuck \<Rightarrow> Stuck)" if "?p < length source"
    using parse_string_parses [OF assms(1) that] by (auto simp: parses_def split: outcome.splits)
  show ?thesis
    using coll scalar [OF str] scalar [OF integer_parses [OF p(2)]] scalar [OF keyword_parses [OF p(2)]] inside [of source ?p]
    by (simp add: value_step_def Let_def)
qed

lemma parse_value_contract: "value_contract (parse_value levels) levels"
proof (induction levels)
  case 0
  have "parses source p (wf_manifest 0) (parse_collection None hash source p)" if "p < length source" for source p hash
    using that by (simp add: parse_collection_def parses_def)
  then show ?case
    by unfold_locales (simp add: value_step_parses del: wf_manifest.simps)
next
  case (Suc levels)
  show ?case
    by unfold_locales (use value_contract.collection_parses [OF Suc] in \<open>auto intro!: value_step_parses\<close>)
qed

interpretation levels: value_contract "parse_value levels" levels for levels
  by (rule parse_value_contract)

section \<open>Printing\<close>

subsection \<open>Strings read back\<close>

lemma byte_at_drop: "byte_at source (position + i) = byte_at (drop position source) i"
  by (simp add: byte_at_def add.commute less_diff_conv)

lemma hex_digit_read: "n < 16 \<Longrightarrow> is_xdigit (hex_digit n) \<and> xdigit_value (hex_digit n) = n"
proof -
  assume "n < 16"
  then have "n \<in> set [0 ..< 16]" by simp
  moreover have "list_all (\<lambda>n. is_xdigit (hex_digit n) \<and> xdigit_value (hex_digit n) = n) [0 ..< 16]"
    by (simp add: upt_rec hex_digit_def is_xdigit_def xdigit_value_def is_digit_def byte_def)
  ultimately show ?thesis by (auto simp: list_all_iff)
qed

lemma quad_read:
  assumes "drop position source = [CHR ''0'', CHR ''0'', hex_digit a, hex_digit b] @ rest" "a < 16" "b < 16"
  shows "parse_hex_quad source position = Inr (a * 16 + b, position + 4)"
proof -
  have c: "byte_at source position = CHR ''0''" "byte_at source (position + 1) = CHR ''0''"
    "byte_at source (position + 2) = hex_digit a" "byte_at source (position + 3) = hex_digit b"
    using byte_at_drop [of source position 0] byte_at_drop [of source position 1]
      byte_at_drop [of source position 2] byte_at_drop [of source position 3] assms(1)
    by (simp_all add: byte_at_def numeral_2_eq_2 numeral_3_eq_3)
  have z: "is_xdigit CHR ''0''" "xdigit_value CHR ''0'' = 0"
    by (simp_all add: is_xdigit_def xdigit_value_def is_digit_def byte_def)
  show ?thesis
    using c z hex_digit_read [OF assms(2)] hex_digit_read [OF assms(3)]
    by (simp add: parse_hex_quad_def numeral_eq_Suc)
qed

lemma drop_append_more: "drop position source = x @ rest \<Longrightarrow> drop (position + length x) source = rest"
  by (metis add.commute append_eq_conv_conj drop_drop)

lemma byte_0_iff: "byte c = 0 \<longleftrightarrow> c = NUL"
proof
  assume "byte c = 0"
  then have "of_char c = (of_char NUL :: nat)" by (simp add: byte_def)
  then show "c = NUL" by (simp only: of_char_eq_iff)
qed (simp add: byte_def)

lemma byte_small: "byte c < 256"
  by (simp add: byte_def)

lemma print_char_read:
  assumes "drop position source = print_char c @ rest" "c \<noteq> NUL" "length used < capacity"
  shows "string_loop capacity source position used =
    string_loop capacity source (position + length (print_char c)) (used @ [c])"
proof -
  note at = byte_at_drop [of source position 0] byte_at_drop [of source position 1]
  consider (quote) "c = CHR 0x22 \<or> c = CHR 0x5C" | (hex) "c \<noteq> CHR 0x22" "c \<noteq> CHR 0x5C" "c = CHR ''#'' \<or> byte c < 0x20"
    | (plain) "c \<noteq> CHR 0x22" "c \<noteq> CHR 0x5C" "c \<noteq> CHR ''#''" "\<not> byte c < 0x20" by blast
  then show ?thesis
  proof cases
    case quote
    then have "print_char c = [CHR 0x5C, c]" by (simp add: print_char_def)
    moreover have "byte (CHR 0x5C) = 0x5C" by (simp add: byte_def)
    moreover have "simple_escape c = Some c" "c \<noteq> CHR ''u''" using quote by (auto simp: simple_escape_def)
    ultimately show ?thesis
      using at assms by (subst string_loop.simps) (simp add: Let_def byte_at_def)
  next
    case hex
    then have p: "print_char c = [CHR 0x5C, CHR ''u''] @ [CHR ''0'', CHR ''0'', hex_digit (byte c div 16), hex_digit (byte c mod 16)]"
      by (simp add: print_char_def)
    have "drop (position + 2) source = [CHR ''0'', CHR ''0'', hex_digit (byte c div 16), hex_digit (byte c mod 16)] @ rest"
      using drop_append_more [of position source "[CHR 0x5C, CHR ''u'']"] assms(1) p by simp
    then have q: "parse_hex_quad source (position + 2) = Inr (byte c, position + 6)"
      using quad_read [of "position + 2"] byte_small [of c] by (simp add: div_mult_mod_eq less_mult_imp_div_less)
    have b: "byte c < 128" "byte c \<noteq> 0"
      using hex(3) assms(2) by (auto simp: byte_0_iff) (simp_all add: byte_def)
    then have "unicode_escape source (position + 2) = Inr (byte c, position + 6)" "encode_utf8 (byte c) = [c]"
      using q by (simp_all add: unicode_escape_def encode_utf8_def, simp add: byte_def)
    moreover have "byte (CHR 0x5C) = 0x5C" by (simp add: byte_def)
    ultimately have "string_loop capacity source position used = string_loop capacity source (position + 6) (used @ [c])"
      using at assms p by (subst string_loop.simps) (simp add: Let_def byte_at_def)
    moreover have "length (print_char c) = 6" using p by simp
    ultimately show ?thesis by (simp only:)
  next
    case plain
    then have "print_char c = [c]" by (simp add: print_char_def)
    then show ?thesis
      using at(1) assms plain by (subst string_loop.simps) (simp add: Let_def byte_at_def)
  qed
qed

lemma print_char_length: "0 < length (print_char c)"
  by (simp add: print_char_def)

lemma string_loop_read:
  "drop position source = concat (map print_char s) @ CHR 0x22 # rest \<Longrightarrow> c_string s \<Longrightarrow>
   length used + length s < capacity \<Longrightarrow>
   string_loop capacity source position used =
     Parsed (used @ s) (position + length (concat (map print_char s)) + 1)"
proof (induction s arbitrary: position used)
  case Nil
  have "byte (CHR 0x22) = 0x22" by (simp add: byte_def)
  then show ?case
    using Nil byte_at_drop [of source position 0] by (subst string_loop.simps) (simp add: byte_at_def)
next
  case (Cons c s)
  have "drop position source = print_char c @ (concat (map print_char s) @ CHR 0x22 # rest)" using Cons(2) by simp
  note d = this drop_append_more [OF this]
  have c: "c \<noteq> NUL" "c_string s" using Cons(3) by (auto simp: c_string_def)
  have u: "length used < capacity" "length (used @ [c]) + length s < capacity" using Cons(4) by simp_all
  show ?case
    unfolding print_char_read [OF d(1) c(1) u(1)] Cons(1) [OF d(2) c(2) u(2)] by simp
qed

lemma length_print_chars: "length s \<le> length (concat (map print_char s))"
proof (induction s)
  case (Cons c s)
  moreover have "1 \<le> length (print_char c)" using print_char_length [of c] by linarith
  ultimately show ?case unfolding list.map concat.simps length_append list.size by linarith
qed simp

lemma parse_string_read:
  assumes "drop position source = print_string s @ rest" "c_string s"
  shows "parse_string source position = Parsed s (position + length (print_string s))"
proof -
  have "drop position source = [CHR 0x22] @ (concat (map print_char s) @ CHR 0x22 # rest)"
    using assms(1) by (simp add: print_string_def)
  note d = drop_append_more [OF this]
  have "length source - (position + 1) = length (concat (map print_char s) @ CHR 0x22 # rest)"
    using arg_cong [OF d, of length] by simp
  then have "length s < length source - (position + 1) + 1" using length_print_chars [of s] by simp
  then show ?thesis
    using string_loop_read [of "position + 1" source s rest "[]"] d assms(2)
    by (simp add: parse_string_def print_string_def)
qed

subsection \<open>Values read back\<close>

lemma skip_none: "drop position source = c # rest \<Longrightarrow> \<not> is_space c \<Longrightarrow> skip_space source position = position"
  by (simp add: skip_space_def)

lemma byte_at_head: "drop position source = c # rest \<Longrightarrow> byte_at source position = c"
  using byte_at_drop [of source position 0] by simp

lemma integer_text_cases:
  assumes "integer_text s"
  obtains (negative) ds where "s = CHR ''-'' # ds" "ds \<noteq> []" "list_all is_digit ds"
    | (plain) "s \<noteq> []" "list_all is_digit s"
  using assms by (cases s) (auto simp: integer_text_def Let_def split: if_splits)

lemma takeWhile_digits: "list_all is_digit ds \<Longrightarrow> stops rest \<Longrightarrow> takeWhile is_digit (ds @ rest) = ds"
  by (cases rest) (simp_all add: stops_def list_all_iff)

lemma parse_integer_read:
  assumes "drop position source = s @ rest" "integer_text s" "stops rest"
  shows "parse_integer source position = Parsed (MANIFEST_INTEGER s) (position + length s)"
  using assms(2)
proof (cases rule: integer_text_cases)
  case (negative ds)
  have d: "drop (position + 1) source = ds @ rest"
    using drop_append_more [of position source "[CHR ''-'']"] assms(1) negative(1) by simp
  have "byte_at source position = CHR ''-''" using byte_at_head assms(1) negative(1) by simp
  then show ?thesis
    using d takeWhile_digits [OF negative(3) assms(3)] assms(1) negative by (simp add: parse_integer_def Let_def)
next
  case plain
  then have "byte_at source position \<noteq> CHR ''-''"
    using byte_at_head [of position source] assms(1) by (cases s) (auto simp: is_digit_def)
  then show ?thesis
    using takeWhile_digits [OF plain(2) assms(3)] assms(1) plain by (simp add: parse_integer_def Let_def)
qed

lemma digit_not_special:
  "is_digit c \<Longrightarrow> \<not> is_space c \<and> c \<noteq> CHR ''{'' \<and> c \<noteq> CHR ''['' \<and> c \<noteq> CHR 0x22"
  by (auto simp: is_digit_def is_space_def byte_def)

lemma value_step_integer:
  assumes "drop position source = s @ rest" "integer_text s" "stops rest"
  shows "value_step child source position = Parsed (MANIFEST_INTEGER s) (position + length s)"
proof -
  obtain c cs where s: "s = c # cs" "c = CHR ''-'' \<or> is_digit c"
    using assms(2) by (cases rule: integer_text_cases; cases s) auto
  then have "skip_space source position = position" "byte_at source position = c"
    using skip_none [of position source c] byte_at_head [of position source c] assms(1) digit_not_special [of c]
    by (auto simp: is_space_def byte_def)
  then show ?thesis
    using s(2) digit_not_special [of c] parse_integer_read [OF assms] by (auto simp: value_step_def Let_def)
qed

lemma value_step_keyword:
  assumes "drop position source = k @ rest" "k = ''true'' \<and> v = MANIFEST_BOOLEAN ''true'' \<or>
    k = ''false'' \<and> v = MANIFEST_BOOLEAN ''false'' \<or> k = ''nil'' \<and> v = MANIFEST_OTHER"
  shows "value_step child source position = Parsed v (position + length k)"
proof -
  obtain c cs where k: "k = c # cs" "c = CHR ''t'' \<or> c = CHR ''f'' \<or> c = CHR ''n''" using assms(2) by auto
  then have "skip_space source position = position" "byte_at source position = c"
    using skip_none [of position source c] byte_at_head [of position source c] assms(1)
    by (auto simp: is_space_def byte_def)
  moreover have "parse_keyword source position = Parsed v (position + length k)"
    using assms by (auto simp: parse_keyword_def keyword_at_def)
  ultimately show ?thesis
    using k(2) by (auto simp: value_step_def Let_def is_digit_def)
qed

lemma value_step_string:
  assumes "drop position source = print_string s @ rest" "c_string s"
  shows "value_step child source position = Parsed (MANIFEST_STRING s) (position + length (print_string s))"
proof -
  have "skip_space source position = position" "byte_at source position = CHR 0x22"
    using skip_none [of position source "CHR 0x22"] byte_at_head [of position source "CHR 0x22"] assms(1)
    by (auto simp: is_space_def byte_def print_string_def)
  then show ?thesis using parse_string_read [OF assms] by (simp add: value_step_def Let_def)
qed

text \<open>A value parser that reads back what is printed of every value satisfying \<open>good\<close>.\<close>

locale value_reader =
  fixes parse :: value_parser and good :: "DiamondManifestValue \<Rightarrow> bool"
  assumes reads: "good v \<Longrightarrow> drop position source = print_manifest v @ rest \<Longrightarrow> stops rest \<Longrightarrow>
      parse source position = Parsed v (position + length (print_manifest v))"
    and printed: "good v \<Longrightarrow> \<exists>c cs. print_manifest v = c # cs \<and> \<not> is_space c \<and> c \<noteq> CHR '']'' \<and> c \<noteq> CHR ''}''"
begin

lemma entry_head: "good v \<Longrightarrow>
    \<exists>c cs. entry_text hash (k, v) = c # cs \<and> \<not> is_space c \<and> c \<noteq> closing hash"
  using printed [of v] by (auto simp: entry_text_def print_string_def is_space_def byte_def closing_def)

lemma entry_read:
  assumes "good v" "c_string k" "hash \<or> k = []" "hash \<longrightarrow> k \<notin> set keys" "stops rest"
    "drop position source = entry_text hash (k, v) @ rest"
  shows "parse_entry parse hash source position keys =
    Parsed (k, v) (position + length (entry_text hash (k, v)))"
proof (cases hash)
  case False
  then show ?thesis using reads assms by (simp add: parse_entry_def entry_text_def)
next
  case True
  have d: "drop position source = print_string k @ ('':'' @ (print_manifest v @ rest))"
    using assms(6) True by (simp add: entry_text_def)
  note d2 = drop_append_more [OF d]
  note d3 = drop_append_more [OF d2]
  have "byte_at source position = CHR 0x22"
    using byte_at_head [of position source] d by (simp add: print_string_def)
  moreover have "skip_space source (position + length (print_string k)) = position + length (print_string k)"
    using skip_none [of "position + length (print_string k)" source] d2 by (simp add: is_space_def byte_def)
  moreover have "byte_at source (position + length (print_string k)) = CHR '':''"
    using byte_at_head d2 by simp
  ultimately have "parse_key source position keys = Parsed k (position + length (print_string k) + 1)"
    using parse_string_read [OF d assms(2)] assms(4) True by (simp add: parse_key_def Let_def)
  then show ?thesis
    using reads [OF assms(1) d3 assms(5)] True by (simp add: parse_entry_def entry_text_def)
qed

lemma entries_read:
  "children \<noteq> [] \<Longrightarrow> good_children good hash (before @ children) \<Longrightarrow>
   drop position source = print_items (map (entry_text hash) children) @ closing hash # rest \<Longrightarrow>
   length children \<le> n \<Longrightarrow>
   entries_loop n parse hash source position before =
     Parsed (before @ children) (position + length (print_items (map (entry_text hash) children)) + 1)"
proof (induction children arbitrary: before position n)
  case (Cons child children)
  obtain k v where kv: "child = (k, v)" by fastforce
  obtain m where n: "n = Suc m" using Cons(5) by (cases n) auto
  have g: "good v" "c_string k" "hash \<or> k = []" "hash \<longrightarrow> k \<notin> set (map fst before)"
    using Cons(3) kv by (auto simp: good_children_def)
  have cl: "\<not> is_space (closing hash)" "\<not> is_digit (closing hash)" "closing hash \<noteq> CHR '',''"
    by (auto simp: closing_def is_space_def is_digit_def byte_def)
  show ?case
  proof (cases children)
    case Nil
    have d: "drop position source = entry_text hash (k, v) @ (closing hash # rest)" using Cons(4) Nil kv by simp
    have e: "parse_entry parse hash source position (map fst before) =
        Parsed (k, v) (position + length (entry_text hash (k, v)))"
      using entry_read [OF g _ d] cl by (simp add: stops_def)
    show ?thesis
      using e skip_none [OF drop_append_more [OF d] cl(1)] byte_at_head [OF drop_append_more [OF d]] n Nil kv
      by simp
  next
    case (Cons child2 children2)
    let ?more = "print_items (map (entry_text hash) children) @ closing hash # rest"
    have d: "drop position source = entry_text hash (k, v) @ ('','' @ ?more)" using Cons.prems(3) Cons kv by simp
    note d2 = drop_append_more [OF d]
    note d3 = drop_append_more [OF d2]
    have e: "parse_entry parse hash source position (map fst before) =
        Parsed (k, v) (position + length (entry_text hash (k, v)))"
      using entry_read [OF g _ d] by (simp add: stops_def is_digit_def)
    let ?q = "position + length (entry_text hash (k, v))"
    have q: "skip_space source ?q = ?q" "byte_at source ?q = CHR '',''"
      using skip_none [of ?q source] byte_at_head [of ?q source] d2 by (simp_all add: is_space_def byte_def)
    have "good (snd child2)" using Cons.prems(2) Cons by (auto simp: good_children_def)
    then obtain c cs where c: "entry_text hash child2 = c # cs" "\<not> is_space c" "c \<noteq> closing hash"
      using entry_head [of "snd child2" hash "fst child2"] by auto
    have "\<exists>cs. print_items (map (entry_text hash) children) = c # cs"
      using c(1) Cons by (cases children2) auto
    then obtain cs' where "drop (?q + 1) source = c # cs'" using d3 by auto
    then have r: "skip_space source (?q + 1) = ?q + 1" "byte_at source (?q + 1) \<noteq> closing hash"
      using skip_none byte_at_head c by auto
    have "entries_loop m parse hash source (?q + 1) (before @ [child]) =
        Parsed ((before @ [child]) @ children) (?q + 1 + length (print_items (map (entry_text hash) children)) + 1)"
      by (rule Cons.IH) (use Cons Cons.prems d3 n in simp_all)
    then show ?thesis using e q r cl n kv Cons by simp
  qed
qed simp

lemma print_items_length: "list_all (\<lambda>x. x \<noteq> []) xs \<Longrightarrow> length xs \<le> length (print_items xs)"
proof (induction xs rule: print_items.induct)
  case (3 x y ys)
  then show ?case by (cases x) auto
next
  case (2 x)
  then show ?case by (cases x) auto
qed simp

lemma collection_read:
  assumes "good_children good hash children"
    "drop position source = c # print_items (map (entry_text hash) children) @ closing hash # rest"
  shows "parse_collection (Some parse) hash source position =
    Parsed (collection hash children) (position + length (print_items (map (entry_text hash) children)) + 2)"
proof -
  have cl: "\<not> is_space (closing hash)" by (auto simp: closing_def is_space_def byte_def)
  have d: "drop (position + 1) source = print_items (map (entry_text hash) children) @ closing hash # rest"
    using drop_append_more [of position source "[c]"] assms(2) by simp
  show ?thesis
  proof (cases children)
    case Nil
    then show ?thesis
      using d skip_none [of "position + 1" source, OF _ cl] byte_at_head [of "position + 1" source]
      by (simp add: parse_collection_def Let_def)
  next
    case (Cons child children2)
    have good: "list_all (\<lambda>x. \<exists>k v. x = (k, v) \<and> good v) children"
      using assms(1) by (auto simp: good_children_def list_all_iff)
    then obtain c2 cs where c2: "entry_text hash child = c2 # cs" "\<not> is_space c2" "c2 \<noteq> closing hash"
      using entry_head Cons by fastforce
    have "\<exists>cs. print_items (map (entry_text hash) children) = c2 # cs"
      using c2(1) Cons by (cases children2) auto
    then obtain cs' where "drop (position + 1) source = c2 # cs'" using d by auto
    then have r: "skip_space source (position + 1) = position + 1" "byte_at source (position + 1) \<noteq> closing hash"
      using skip_none byte_at_head c2 by auto
    have "list_all (\<lambda>x. x \<noteq> []) (map (entry_text hash) children)"
    proof -
      have "entry_text hash x \<noteq> []" if "x \<in> set children" for x
        using that good entry_head [of "snd x" hash "fst x"] by (auto simp: list_all_iff)
      then show ?thesis by (simp add: list_all_iff)
    qed
    then have "length children \<le> length (print_items (map (entry_text hash) children))"
      using print_items_length by fastforce
    moreover have "length (print_items (map (entry_text hash) children)) \<le> length source"
      using arg_cong [OF d, of length] by simp
    ultimately have "entries_loop (length source + 1) parse hash source (position + 1) [] =
        Parsed ([] @ children) (position + 1 + length (print_items (map (entry_text hash) children)) + 1)"
      using Cons assms(1) d by (intro entries_read) auto
    then show ?thesis using r by (simp add: parse_collection_def Let_def)
  qed
qed

end

lemma print_manifest_head:
  "wf_manifest n v \<Longrightarrow> \<exists>c cs. print_manifest v = c # cs \<and> \<not> is_space c \<and> c \<noteq> CHR '']'' \<and> c \<noteq> CHR ''}''"
proof (cases v)
  case (MANIFEST_INTEGER s)
  assume "wf_manifest n v"
  then have "integer_text s" using MANIFEST_INTEGER by (cases n) simp_all
  then show ?thesis
    using MANIFEST_INTEGER
    by (cases rule: integer_text_cases; cases s) (auto simp: is_digit_def is_space_def byte_def)
next
  case (MANIFEST_BOOLEAN s)
  assume "wf_manifest n v"
  then have "s = ''true'' \<or> s = ''false''" using MANIFEST_BOOLEAN by (cases n) simp_all
  then show ?thesis using MANIFEST_BOOLEAN by (elim disjE) (simp_all add: is_space_def byte_def)
qed (auto simp: print_string_def is_space_def byte_def)

lemma value_reader_scalar:
  assumes "wf_scalar v" "drop position source = print_manifest v @ rest" "stops rest"
  shows "value_step child source position = Parsed v (position + length (print_manifest v))"
proof (cases v)
  case (MANIFEST_INTEGER s)
  then show ?thesis using value_step_integer [of position source s rest] assms by simp
next
  case (MANIFEST_BOOLEAN s)
  then show ?thesis using value_step_keyword [of position source s rest v] assms by auto
next
  case (MANIFEST_STRING s)
  then show ?thesis using value_step_string [of position source s rest] assms by simp
next
  case MANIFEST_OTHER
  then show ?thesis using value_step_keyword [of position source "''nil''" rest v] assms by simp
qed (use assms(1) in simp_all)

context value_reader
begin

lemma value_step_collection:
  assumes "good_children good hash children" "drop position source = print_manifest (collection hash children) @ rest"
  shows "value_step (Some parse) source position =
    Parsed (collection hash children) (position + length (print_manifest (collection hash children)))"
proof -
  define c where "c = (if hash then CHR ''{'' else CHR ''['')"
  have shape: "print_manifest (collection hash children) = c # print_items (map (entry_text hash) children) @ [closing hash]"
    by (auto simp: collection_def c_def closing_def entry_text_def comp_def case_prod_unfold intro!: arg_cong [where f = print_items])
  then have d: "drop position source = c # print_items (map (entry_text hash) children) @ closing hash # rest"
    using assms(2) by simp
  have "skip_space source position = position" "byte_at source position = c"
    using skip_none [OF d] byte_at_head [OF d] by (auto simp: c_def is_space_def byte_def)
  then show ?thesis
    using collection_read [OF assms(1) d] shape by (auto simp: value_step_def Let_def c_def)
qed

end

lemma parse_value_reader: "value_reader (parse_value levels) (wf_manifest levels)"
proof (induction levels)
  case 0
  show ?case
    by unfold_locales (simp add: value_reader_scalar, metis print_manifest_head)
next
  case (Suc levels)
  have step: "parse_value (Suc levels) source position = Parsed v (position + length (print_manifest v))"
    if v: "wf_manifest (Suc levels) v" and d: "drop position source = print_manifest v @ rest" and "stops rest"
    for v source position rest
  proof (cases v)
    case (MANIFEST_ARRAY items)
    have "good_children (wf_manifest levels) False (map (\<lambda>x. ([], x)) items)"
      using v MANIFEST_ARRAY by (auto simp: good_children_def list_all_iff c_string_def)
    then show ?thesis
      using value_reader.value_step_collection [OF Suc, of False "map (\<lambda>x. ([], x)) items"] d MANIFEST_ARRAY
      by (simp add: collection_def comp_def)
  next
    case (MANIFEST_HASH children)
    have "good_children (wf_manifest levels) True children"
      using v MANIFEST_HASH by (auto simp: good_children_def list_all_iff)
    then show ?thesis
      using value_reader.value_step_collection [OF Suc, of True children] d MANIFEST_HASH
      by (simp add: collection_def)
  qed (use that(1) value_reader_scalar [OF _ d that(3)] in simp_all)
  show ?case
    by unfold_locales (use step print_manifest_head in blast)+
qed

interpretation printed: value_reader "parse_value levels" "wf_manifest levels" for levels
  by (rule parse_value_reader)

section \<open>Properties\<close>

lemma manifest_parse_cases:
  assumes "c_string source"
  shows "case diamond_manifest_parse source of
      Parsed root p \<Rightarrow> p = length source \<and> (\<exists>children. root = MANIFEST_HASH children) \<and> wf_manifest 32 root
    | Failed e \<Rightarrow> error_position e \<le> length source
    | Overrun \<Rightarrow> False | Stuck \<Rightarrow> False"
proof -
  let ?p = "skip_space source 0"
  have p: "?p \<le> length source" by (rule skip_space_le) simp
  show ?thesis
  proof (cases "byte_at source ?p = CHR ''{''")
    case True
    have "?p < length source" using inside [OF True] by simp
    then have c: "parses source ?p (wf_manifest 32) (parse_collection (Some (parse_value 31)) True source ?p)"
      using levels.collection_parses [OF assms, of ?p 31] by simp
    show ?thesis
    proof (cases "parse_collection (Some (parse_value 31)) True source ?p")
      case (Parsed root q)
      let ?q = "skip_space source q"
      have q: "q \<le> length source" and wf: "wf_manifest 32 root" using c Parsed by (simp_all add: parses_def)
      have hash: "\<exists>children. root = MANIFEST_HASH children"
        using Parsed by (auto simp: parse_collection_def Let_def collection_def split: if_splits outcome.splits)
      have le: "?q \<le> length source" by (rule skip_space_le [OF q])
      show ?thesis
      proof (cases "byte_at source ?q = NUL")
        case end_of_source: True
        have "?q = length source" using byte_at_NUL_iff [OF assms] end_of_source le by (simp add: le_antisym)
        moreover have "diamond_manifest_parse source = Parsed root ?q \<or>
            diamond_manifest_parse source = Failed (Manifest_error 0 ''metadata exceeds 1 MiB'')"
          using True Parsed end_of_source by (simp add: diamond_manifest_parse_def Let_def)
        ultimately show ?thesis using hash wf by (elim disjE) simp_all
      qed (use True Parsed le in \<open>simp add: diamond_manifest_parse_def Let_def\<close>)
    qed (use c True in \<open>auto simp: diamond_manifest_parse_def Let_def parses_def\<close>)
  qed (use p in \<open>auto simp: diamond_manifest_parse_def Let_def\<close>)
qed

text \<open>C25: The literal parser is memory safe and total: on every NUL-terminated source it returns a
value or an error, never writes past the buffer allocated for a decoded String, never runs out of
loop steps, and reports errors at a position of the source.\<close>

theorem manifest_parse_safe:
  assumes "c_string source"
  shows "diamond_manifest_parse source \<noteq> Overrun \<and> diamond_manifest_parse source \<noteq> Stuck \<and>
    (\<forall>e. diamond_manifest_parse source = Failed e \<longrightarrow> error_position e \<le> length source)"
  using manifest_parse_cases [OF assms] by (auto split: outcome.splits)

text \<open>C26: A parsed manifest is a Hash whose keys are distinct at every level, whose integers are
digit runs with an optional sign, whose strings contain no NUL, which nests at most 32 levels deep,
and the whole source was consumed.\<close>

theorem manifest_parse_well_formed:
  assumes "c_string source" "diamond_manifest_parse source = Parsed root next"
  shows "next = length source \<and> (\<exists>children. root = MANIFEST_HASH children) \<and> wf_manifest 32 root"
  using manifest_parse_cases [OF assms(1)] assms(2) by simp

text \<open>C24: Printing and parsing a manifest are inverse: every well-formed Hash of at most 32 levels,
printed with the escapes the format has, is read back as the same value, provided the text is at most
one MiB long.\<close>

theorem manifest_round_trip:
  assumes "wf_manifest 32 (MANIFEST_HASH children)"
    "length (print_manifest (MANIFEST_HASH children)) \<le> 1024 * 1024"
  shows "diamond_manifest_parse (print_manifest (MANIFEST_HASH children)) =
    Parsed (MANIFEST_HASH children) (length (print_manifest (MANIFEST_HASH children)))"
proof -
  let ?source = "print_manifest (MANIFEST_HASH children)"
  have "distinct (map fst children) \<and> list_all (\<lambda>(k, c). c_string k \<and> wf_manifest 31 c) children"
    using wf_manifest.simps(2) [of 31 "MANIFEST_HASH children"] assms(1) by simp
  then have g: "good_children (wf_manifest 31) True children"
    by (auto simp: good_children_def list_all_iff)
  have shape: "?source = CHR ''{'' # print_items (map (entry_text True) children) @ [CHR ''}'']"
    by (auto simp: entry_text_def intro!: arg_cong [where f = print_items])
  have d: "drop 0 ?source = CHR ''{'' # print_items (map (entry_text True) children) @ closing True # []"
    using shape by (simp add: closing_def)
  have "skip_space ?source 0 = 0" "byte_at ?source 0 = CHR ''{''"
    using skip_none [OF d] byte_at_head [OF d] by (auto simp: is_space_def byte_def)
  moreover have "skip_space ?source (length ?source) = length ?source" by (simp add: skip_space_def)
  ultimately show ?thesis
    using printed.collection_read [OF g d] shape assms(2)
    by (simp add: diamond_manifest_parse_def Let_def collection_def)
qed

lemmas manifest_eval = diamond_manifest_parse_def parse_collection_def parse_entry_def parse_key_def parse_string_def
  skip_space_def closing_def collection_def parse_integer_def parse_keyword_def keyword_at_def value_step_def
  string_loop.simps byte_at_def is_space_def is_digit_def byte_def simple_escape_def

lemma parse_value_numeral: "parse_value (numeral n) = value_step (Some (parse_value (pred_numeral n)))"
  by (simp add: numeral_eq_Suc)

lemma entries_loop_numeral:
  "entries_loop (numeral n) parse hash source position children =
   entries_loop (Suc (pred_numeral n)) parse hash source position children"
  by (simp only: numeral_eq_Suc)

theorem manifest_parse_safe_witness:
  "c_string ''{1:2}'' \<and> diamond_manifest_parse ''{1:2}'' \<noteq> Overrun \<and> diamond_manifest_parse ''{1:2}'' \<noteq> Stuck"
  using manifest_parse_safe [of "''{1:2}''"] by (simp add: c_string_def)

lemma manifest_example:
  "diamond_manifest_parse (''{'' @ [CHR 0x22] @ ''a'' @ [CHR 0x22] @ '': [1,]}'') =
    Parsed (MANIFEST_HASH [(''a'', MANIFEST_ARRAY [MANIFEST_INTEGER ''1''])]) 11"
  by (simp add: manifest_eval parse_value_numeral entries_loop_numeral Let_def)

theorem manifest_parse_well_formed_witness:
  "c_string (''{'' @ [CHR 0x22] @ ''a'' @ [CHR 0x22] @ '': [1,]}'') \<and>
   wf_manifest 32 (MANIFEST_HASH [(''a'', MANIFEST_ARRAY [MANIFEST_INTEGER ''1''])])"
  using manifest_parse_well_formed [OF _ manifest_example] by (simp add: c_string_def)

theorem manifest_round_trip_witness:
  "diamond_manifest_parse (print_manifest (MANIFEST_HASH [(''a'', MANIFEST_STRING ''#'')])) =
    Parsed (MANIFEST_HASH [(''a'', MANIFEST_STRING ''#'')])
      (length (print_manifest (MANIFEST_HASH [(''a'', MANIFEST_STRING ''#'')])))"
proof -
  have "wf_manifest 32 (MANIFEST_HASH [(''a'', MANIFEST_STRING ''#'')])"
    using wf_manifest.simps(2) [of 31 "MANIFEST_HASH [(''a'', MANIFEST_STRING ''#'')]"]
      wf_manifest.simps(2) [of 30 "MANIFEST_STRING ''#''"] by (simp add: c_string_def)
  then show ?thesis
    by (rule manifest_round_trip) (simp add: print_string_def print_char_def)
qed

lemma le_scaled: "m \<le> x \<Longrightarrow> 1 \<le> k \<Longrightarrow> m \<le> x * k + d" for m x k d :: nat
  by (metis le_trans mult.right_neutral mult_le_mono2 trans_le_add1)

lemma u64_digits_value:
  "list_all is_digit s \<Longrightarrow> result < 2 ^ 64 \<Longrightarrow>
   u64_digits s result =
     (let v = result * 10 ^ length s + decimal_val s in if v < 2 ^ 64 then Some v else None)"
proof (induction s arbitrary: result)
  case (Cons c s)
  let ?d = "byte c - 48"
  have "is_digit c" using Cons(2) by simp
  then have d: "?d \<le> 9" unfolding is_digit_def byte_def by linarith
  have v: "result * 10 ^ length (c # s) + decimal_val (c # s) = (result * 10 + ?d) * 10 ^ length s + decimal_val s"
    by (simp add: decimal_val_Cons byte_def algebra_simps)
  have guard: "(2 ^ 64 - 1 - ?d) div 10 < result \<longleftrightarrow> 2 ^ 64 \<le> result * 10 + ?d"
    using d by (auto simp: div_less_iff_less_mult)
  show ?case
  proof (cases "result * 10 + ?d < 2 ^ 64")
    case True
    then have "u64 (result * 10 + ?d) = result * 10 + ?d" by (simp add: u64_def)
    then show ?thesis
      using Cons(1) [of "result * 10 + ?d"] Cons(2) True guard unfolding v by (simp add: Let_def)
  next
    case False
    then have "\<not> (result * 10 + ?d) * 10 ^ length s + decimal_val s < 2 ^ 64"
      using le_scaled [of "2 ^ 64" "result * 10 + ?d" "10 ^ length s" "decimal_val s"] by simp
    then show ?thesis using False guard unfolding v by (simp add: Let_def)
  qed
qed (simp add: Let_def)

text \<open>C27: Reading an unsigned metadata field is exact: an integer entry without a sign gives its
decimal value when that fits 64 bits and nothing otherwise, with no wrap-around, and a negative
entry gives nothing.\<close>

theorem manifest_u64_exact:
  assumes "diamond_manifest_get hash key = Some (MANIFEST_INTEGER s)" "integer_text s"
  shows "diamond_manifest_get_u64 hash key =
    (if byte_at s 0 = CHR ''-'' then None
     else if decimal_val s < 2 ^ 64 then Some (decimal_val s) else None)"
proof (cases "byte_at s 0 = CHR ''-''")
  case False
  then have "list_all is_digit s" using assms(2) by (simp add: integer_text_def)
  then show ?thesis
    using u64_digits_value [of s 0] assms(1) False by (simp add: diamond_manifest_get_u64_def Let_def)
qed (use assms(1) in \<open>simp add: diamond_manifest_get_u64_def\<close>)

theorem manifest_u64_exact_witness:
  "diamond_manifest_get_u64 (MANIFEST_HASH [(''size'', MANIFEST_INTEGER ''18446744073709551615'')]) ''size'' = Some 18446744073709551615"
  using manifest_u64_exact [of "MANIFEST_HASH [(''size'', MANIFEST_INTEGER ''18446744073709551615'')]" "''size''" "''18446744073709551615''"]
  by (simp add: integer_text_def decimal_val_def is_digit_def)

lemma snprintf_buffer:
  "length (snd (snprintf path s)) = length path"
  "c_string s \<Longrightarrow> length s < length path \<Longrightarrow> buffer_text (snd (snprintf path s)) = s"
proof -
  show "length (snd (snprintf path s)) = length path"
    by (cases path) (simp_all add: snprintf_def Let_def)
  assume s: "c_string s" "length s < length path"
  have "takeWhile (\<lambda>c. c \<noteq> NUL) (s @ [NUL] @ x) = s" for x
    using s(1) by (subst takeWhile_append2) (auto simp: c_string_def)
  moreover have "path \<noteq> []" "take (length path - 1) s = s" using s(2) by auto
  ultimately show "buffer_text (snd (snprintf path s)) = s"
    by (simp add: snprintf_def buffer_text_def Let_def)
qed

lemma format_manifest_path_fits:
  assumes "c_string directory" "c_string name"
  obtains path' where "format_manifest_path path directory name =
      (length directory + length name + 1 < length path, path')" "length path' = length path"
    "length directory + length name + 1 < length path \<Longrightarrow> buffer_text path' = directory @ ''/'' @ name"
proof
  let ?s = "directory @ ''/'' @ name"
  show "format_manifest_path path directory name =
      (length directory + length name + 1 < length path, snd (snprintf path ?s))"
    by (simp add: format_manifest_path_def snprintf_def)
  show "length (snd (snprintf path ?s)) = length path" by (rule snprintf_buffer)
  show "buffer_text (snd (snprintf path ?s)) = ?s" if "length directory + length name + 1 < length path"
    using that assms by (intro snprintf_buffer) (auto simp: c_string_def)
qed

text \<open>C28: Locating the metadata file of a project directory, in one path buffer of any size that every
attempt overwrites: the buffer keeps its size; without room for the longer name the path is reported
as too long; otherwise the result is FOUND exactly when one of the two files exists and the other
does not, and then the buffer holds the path of that file, both existing is AMBIGUOUS and neither is
MISSING.\<close>

theorem manifest_find_exact:
  assumes "c_string directory" "diamond_cut_manifest_find stat directory path = (lookup, path')"
    "current = directory @ ''/Cutfile''" "legacy = directory @ ''/diamond.cut''"
  shows "length path' = length path \<and>
    (lookup = CUT_MANIFEST_PATH_TOO_LONG \<longleftrightarrow> length legacy \<ge> length path) \<and>
    (length legacy < length path \<longrightarrow>
       (lookup = CUT_MANIFEST_AMBIGUOUS \<longleftrightarrow> stat current \<and> stat legacy) \<and>
       (lookup = CUT_MANIFEST_MISSING \<longleftrightarrow> \<not> stat current \<and> \<not> stat legacy) \<and>
       (lookup = CUT_MANIFEST_FOUND \<longleftrightarrow> stat current \<noteq> stat legacy) \<and>
       (lookup = CUT_MANIFEST_FOUND \<longrightarrow>
          stat (buffer_text path') \<and> buffer_text path' \<in> {current, legacy}))"
proof -
  have names: "c_string ''diamond.cut''" "c_string ''Cutfile''" by (simp_all add: c_string_def)
  obtain p1 where p1: "format_manifest_path path directory ''diamond.cut'' = (length legacy < length path, p1)"
    "length p1 = length path" "length legacy < length path \<Longrightarrow> buffer_text p1 = legacy"
    using format_manifest_path_fits [OF assms(1) names(1), of path] assms(4) by auto
  obtain p2 where p2: "format_manifest_path p1 directory ''Cutfile'' = (length current < length path, p2)"
    "length p2 = length path" "length current < length path \<Longrightarrow> buffer_text p2 = current"
    using format_manifest_path_fits [OF assms(1) names(2), of p1] assms(3) p1(2) by auto
  obtain p3 where p3: "format_manifest_path p2 directory ''diamond.cut'' = (length legacy < length path, p3)"
    "length p3 = length path" "length legacy < length path \<Longrightarrow> buffer_text p3 = legacy"
    using format_manifest_path_fits [OF assms(1) names(1), of p2] assms(4) p2(2) by auto
  have fits: "length legacy < length path \<Longrightarrow> length current < length path" using assms(3,4) by simp
  show ?thesis
  proof (cases "length legacy < length path")
    case True
    then show ?thesis
      using assms(2) p1 p2 p3 fits by (auto simp: diamond_cut_manifest_find_def Let_def split: if_splits)
  next
    case False
    then show ?thesis
      using assms(2) p1(1,2) by (simp add: diamond_cut_manifest_find_def)
  qed
qed

theorem manifest_find_exact_witness:
  "\<exists>path'. diamond_cut_manifest_find (\<lambda>p. p = ''./diamond.cut'') ''.'' (replicate 16 NUL) =
      (CUT_MANIFEST_FOUND, path') \<and> buffer_text path' = ''./diamond.cut'' \<and> length path' = 16"
proof -
  let ?find = "diamond_cut_manifest_find (\<lambda>p. p = ''./diamond.cut'') ''.'' (replicate 16 NUL)"
  obtain lookup path' where f: "?find = (lookup, path')" by (cases ?find)
  from manifest_find_exact [OF _ f refl refl] show ?thesis
    using f by (simp add: c_string_def)
qed

end
