(* ===== verification/Limits.thy ===== *)
theory Limits
  imports C_Text Vm_Status
begin

unbundle bit_operations_syntax

text \<open>
  The resource budgets (\<open>src/src/vm_limits.c\<close>, their configuration in \<open>diamond_vm_init\<close> of
  \<open>src/src/vm.c\<close> and the per-instruction check of \<open>src/src/vm_run_chunk.c\<close>).

  \<^item> \<open>DiamondVm\<close> has the fields of the VM the budgets use; \<open>budgets\<close> has the process-wide atomic
    counters. An operation takes and returns both. One call is one step: calls of different VMs are
    interleaved, not the atomic operations inside them.
  \<^item> A \<open>size_t\<close> is a \<open>nat\<close> reduced by \<open>u64\<close>, a \<open>ptrdiff_t\<close> or \<open>int64_t\<close> is an \<open>int\<close> reduced by \<open>s64\<close>;
    signed overflow, undefined in C, wraps here.
  \<^item> A clock reading is an argument (\<open>now\<close>). The collectors are the arguments \<open>minor\<close> and \<open>major\<close>: the
    bytes still allocated after the collection; what a collection does to the fields of the budget
    and of its trigger is modelled.
\<close>

section \<open>Definitions\<close>

subsection \<open>State\<close>

record budgets =
  budget_live_vms :: nat
  budget_instructions :: nat
  budget_bytes :: int
  budget_start_ns :: int

record DiamondVm =
  max_instructions :: nat
  max_wall_nanoseconds :: int
  max_memory_bytes :: nat
  grace_instructions :: nat
  grace_wall_nanoseconds :: int
  grace_memory_bytes :: nat
  instructions_executed :: nat
  start_time_ns :: int
  resource_limits_active :: bool
  resource_grace_active :: bool
  hard_stop_instruction_count :: nat
  hard_stop_time_ns :: int
  memory_recheck :: bool
  memory_limit_tripped :: bool
  memory_hard_stopped :: bool
  budgets_registered :: bool
  instructions_flushed :: nat
  memory_published :: int
  interrupt_flag :: "bool option"
  bytes_allocated :: nat
  bytes_allocated_at_last_minor_gc :: nat
  minor_gc_threshold_bytes :: nat
  next_gc :: nat
  stress_gc :: bool
  stress_minor_gc :: bool
  vm_error :: string

definition DIAMOND_RESOURCE_LIMIT_CLOCK_CHECK_MASK :: nat where
  "DIAMOND_RESOURCE_LIMIT_CLOCK_CHECK_MASK = 4095"

definition DIAMOND_INSTRUCTION_GRACE :: nat where
  "DIAMOND_INSTRUCTION_GRACE = 1000000"

definition DIAMOND_WALL_GRACE_MILLISECONDS :: int where
  "DIAMOND_WALL_GRACE_MILLISECONDS = 1000"

definition DIAMOND_MEMORY_GRACE_MINIMUM_BYTES :: nat where
  "DIAMOND_MEMORY_GRACE_MINIMUM_BYTES = 4 * 1024 * 1024"

definition SIZE_MAX :: nat where
  "SIZE_MAX = 18446744073709551615"

definition INT64_MAX :: nat where
  "INT64_MAX = 9223372036854775807"

subsection \<open>Configuration\<close>

text \<open>One \<open>DIAMOND_MAX_*\<close> or \<open>DIAMOND_GRACE_*\<close> variable: its number when it is one and in range.\<close>

definition read_limit :: "string option \<Rightarrow> nat \<Rightarrow> nat option" where
  "read_limit env upper =
     (case env of
        None \<Rightarrow> None
      | Some s \<Rightarrow>
          (if s = [] then None
           else let (parsed, rest) = strtoull s
                in if rest \<noteq> s \<and> rest = [] \<and> parsed > 0 \<and> parsed \<le> upper then Some parsed else None))"

definition read_count :: "string option \<Rightarrow> nat \<Rightarrow> nat" where
  "read_count env unset = (case read_limit env SIZE_MAX of None \<Rightarrow> unset | Some n \<Rightarrow> n)"

definition read_milliseconds :: "string option \<Rightarrow> int \<Rightarrow> int" where
  "read_milliseconds env unset =
     (case read_limit env (INT64_MAX div 1000000) of None \<Rightarrow> unset | Some n \<Rightarrow> int n * 1000000)"

definition budget_register :: "int \<Rightarrow> budgets \<Rightarrow> DiamondVm \<Rightarrow> budgets \<times> DiamondVm" where
  "budget_register now b vm =
     (let first = (budget_live_vms b = 0);
          b = b\<lparr>budget_live_vms := u64 (budget_live_vms b + 1)\<rparr>;
          b = (if first then b\<lparr>budget_instructions := 0, budget_bytes := 0, budget_start_ns := 0\<rparr> else b);
          vm = vm\<lparr>budgets_registered := True\<rparr>
      in if max_wall_nanoseconds vm \<noteq> 0
         then let b = (if budget_start_ns b = 0 then b\<lparr>budget_start_ns := now\<rparr> else b)
              in (b, vm\<lparr>start_time_ns := budget_start_ns b\<rparr>)
         else (b, vm))"

definition init_budgets :: "(string \<Rightarrow> string option) \<Rightarrow> int \<Rightarrow> budgets \<Rightarrow> DiamondVm \<Rightarrow> budgets \<times> DiamondVm" where
  "init_budgets getenv now b vm =
     (let vm = vm\<lparr>max_instructions := read_count (getenv ''DIAMOND_MAX_INSTRUCTIONS'') (max_instructions vm),
                  max_wall_nanoseconds :=
                    read_milliseconds (getenv ''DIAMOND_MAX_WALL_MILLISECONDS'') (max_wall_nanoseconds vm),
                  max_memory_bytes := read_count (getenv ''DIAMOND_MAX_MEMORY_BYTES'') (max_memory_bytes vm),
                  grace_instructions := read_count (getenv ''DIAMOND_GRACE_INSTRUCTIONS'') (grace_instructions vm),
                  grace_wall_nanoseconds :=
                    read_milliseconds (getenv ''DIAMOND_GRACE_WALL_MILLISECONDS'') (grace_wall_nanoseconds vm),
                  grace_memory_bytes := read_count (getenv ''DIAMOND_GRACE_MEMORY_BYTES'') (grace_memory_bytes vm)\<rparr>;
          active = (max_instructions vm \<noteq> 0 \<or> max_wall_nanoseconds vm \<noteq> 0 \<or> max_memory_bytes vm \<noteq> 0);
          vm = vm\<lparr>resource_limits_active := active\<rparr>
      in if active then budget_register now b vm else (b, vm))"

subsection \<open>The memory budget\<close>

definition diamond_vm_collect_minor :: "(nat \<Rightarrow> nat) \<Rightarrow> DiamondVm \<Rightarrow> DiamondVm" where
  "diamond_vm_collect_minor minor vm =
     (let live = minor (bytes_allocated vm)
      in vm\<lparr>bytes_allocated := live, bytes_allocated_at_last_minor_gc := live\<rparr>)"

definition diamond_vm_collect :: "(nat \<Rightarrow> nat) \<Rightarrow> DiamondVm \<Rightarrow> DiamondVm" where
  "diamond_vm_collect major vm =
     (let live = major (bytes_allocated vm)
      in vm\<lparr>bytes_allocated := live,
            next_gc := (if live < 1024 then 2048 else u64 (live * 2)),
            bytes_allocated_at_last_minor_gc := live\<rparr>)"

definition run_collectors :: "(nat \<Rightarrow> nat) \<Rightarrow> (nat \<Rightarrow> nat) \<Rightarrow> DiamondVm \<Rightarrow> DiamondVm" where
  "run_collectors minor major vm =
     (let vm = (if stress_minor_gc vm \<or>
                   usub64 (bytes_allocated vm) (bytes_allocated_at_last_minor_gc vm) \<ge> minor_gc_threshold_bytes vm
                then diamond_vm_collect_minor minor vm else vm)
      in if stress_gc vm \<or> bytes_allocated vm \<ge> next_gc vm then diamond_vm_collect major vm else vm)"

definition memory_grace :: "DiamondVm \<Rightarrow> nat" where
  "memory_grace vm =
     (if grace_memory_bytes vm \<noteq> 0 then grace_memory_bytes vm
      else if max_memory_bytes vm div 4 > DIAMOND_MEMORY_GRACE_MINIMUM_BYTES then max_memory_bytes vm div 4
      else DIAMOND_MEMORY_GRACE_MINIMUM_BYTES)"

definition maybe_collect ::
    "(nat \<Rightarrow> nat) \<Rightarrow> (nat \<Rightarrow> nat) \<Rightarrow> budgets \<Rightarrow> DiamondVm \<Rightarrow> bool \<times> budgets \<times> DiamondVm" where
  "maybe_collect minor major b vm =
     (let vm = run_collectors minor major (vm\<lparr>memory_recheck := False\<rparr>)
      in if max_memory_bytes vm = 0 then (True, b, vm)
         else let delta = s64 (s64 (int (bytes_allocated vm)) - memory_published vm);
                  total = s64 (budget_bytes b + delta);
                  b = b\<lparr>budget_bytes := total\<rparr>;
                  vm = vm\<lparr>memory_published := s64 (int (bytes_allocated vm))\<rparr>
              in if total \<le> 0 \<or> nat total \<le> max_memory_bytes vm then (True, b, vm)
                 else if \<not> memory_limit_tripped vm
                 then (False, b,
                       vm\<lparr>memory_limit_tripped := True,
                          max_memory_bytes :=
                            (if max_memory_bytes vm > SIZE_MAX - memory_grace vm then SIZE_MAX
                             else max_memory_bytes vm + memory_grace vm)\<rparr>)
                 else (False, b,
                       vm\<lparr>memory_hard_stopped := True,
                          vm_error := ''memory budget exhausted: the program kept allocating after its ResourceLimitError''\<rparr>))"

definition note_storage_growth :: "DiamondVm \<Rightarrow> DiamondVm" where
  "note_storage_growth vm = (if max_memory_bytes vm \<noteq> 0 then vm\<lparr>memory_recheck := True\<rparr> else vm)"

subsection \<open>The instruction and wall-clock budgets\<close>

definition resource_limit_trip :: "int \<Rightarrow> DiamondVm \<Rightarrow> DiamondVm" where
  "resource_limit_trip now vm =
     (let vm = (if max_instructions vm \<noteq> 0
                then vm\<lparr>hard_stop_instruction_count :=
                       u64 (instructions_executed vm +
                         (if grace_instructions vm \<noteq> 0 then grace_instructions vm else DIAMOND_INSTRUCTION_GRACE))\<rparr>
                else vm);
          vm = (if max_wall_nanoseconds vm \<noteq> 0
                then let deadline = s64 (start_time_ns vm + max_wall_nanoseconds vm)
                     in vm\<lparr>hard_stop_time_ns :=
                          s64 ((if now > deadline then now else deadline) +
                            (if grace_wall_nanoseconds vm \<noteq> 0 then grace_wall_nanoseconds vm
                             else DIAMOND_WALL_GRACE_MILLISECONDS * 1000000))\<rparr>
                else vm)
      in vm\<lparr>max_instructions := 0, max_wall_nanoseconds := 0, resource_grace_active := True\<rparr>)"

definition resource_hard_stop :: "string \<Rightarrow> DiamondVm \<Rightarrow> DiamondVmStatus \<times> DiamondVm" where
  "resource_hard_stop budget vm =
     (DIAMOND_VM_RESOURCE_EXHAUSTED,
      vm\<lparr>hard_stop_instruction_count := 0, hard_stop_time_ns := 0,
         vm_error := budget @ '' budget exhausted: the program kept running after its ResourceLimitError''\<rparr>)"

definition instruction_budget_exceeded :: "budgets \<Rightarrow> DiamondVm \<Rightarrow> bool \<times> budgets \<times> DiamondVm" where
  "instruction_budget_exceeded b vm =
     (let pending = usub64 (instructions_executed vm) (instructions_flushed vm);
          total = u64 (budget_instructions b + pending)
      in (total > max_instructions vm, b\<lparr>budget_instructions := total\<rparr>,
          vm\<lparr>instructions_flushed := instructions_executed vm\<rparr>))"

definition budget_release_finished :: "budgets \<Rightarrow> DiamondVm \<Rightarrow> budgets \<times> DiamondVm" where
  "budget_release_finished b vm =
     (if \<not> budgets_registered vm then (b, vm)
      else (b\<lparr>budget_instructions :=
                u64 (budget_instructions b + usub64 (instructions_executed vm) (instructions_flushed vm)),
              budget_bytes := s64 (budget_bytes b - memory_published vm)\<rparr>,
            vm\<lparr>instructions_flushed := instructions_executed vm, memory_published := 0, max_memory_bytes := 0\<rparr>))"

definition budget_unregister :: "budgets \<Rightarrow> DiamondVm \<Rightarrow> budgets" where
  "budget_unregister b vm =
     (if \<not> budgets_registered vm then b
      else b\<lparr>budget_instructions :=
               u64 (budget_instructions b + usub64 (instructions_executed vm) (instructions_flushed vm)),
             budget_bytes := s64 (budget_bytes b - memory_published vm),
             budget_live_vms := usub64 (budget_live_vms b) 1\<rparr>)"

definition clock_check :: "DiamondVm \<Rightarrow> bool" where
  "clock_check vm \<longleftrightarrow> instructions_executed vm AND DIAMOND_RESOURCE_LIMIT_CLOCK_CHECK_MASK = 0"

definition vm_interrupt_requested :: "DiamondVm \<Rightarrow> bool" where
  "vm_interrupt_requested vm = (interrupt_flag vm = Some True)"

text \<open>The limits behind a tripped budget, and the budgets before it; \<open>now\<close> is the check's own clock
reading and \<open>trip_now\<close> the later one of \<open>resource_limit_trip\<close>.\<close>

definition grace_check :: "int \<Rightarrow> DiamondVm \<Rightarrow> DiamondVmStatus \<times> DiamondVm" where
  "grace_check now vm =
     (if hard_stop_instruction_count vm \<noteq> 0 \<and> instructions_executed vm > hard_stop_instruction_count vm
      then resource_hard_stop ''instruction'' vm
      else if hard_stop_time_ns vm \<noteq> 0 \<and> clock_check vm \<and> now > hard_stop_time_ns vm
      then resource_hard_stop ''wall-clock'' vm
      else (DIAMOND_VM_OK, vm))"

definition wall_check :: "int \<Rightarrow> int \<Rightarrow> DiamondVm \<Rightarrow> DiamondVmStatus \<times> DiamondVm" where
  "wall_check now trip_now vm =
     (if max_wall_nanoseconds vm \<noteq> 0 \<and> clock_check vm \<and> s64 (now - start_time_ns vm) > max_wall_nanoseconds vm
      then (DIAMOND_VM_RESOURCE_LIMIT_ERROR, resource_limit_trip trip_now vm)
      else (DIAMOND_VM_OK, vm))"

definition soft_check :: "int \<Rightarrow> int \<Rightarrow> budgets \<Rightarrow> DiamondVm \<Rightarrow> DiamondVmStatus \<times> budgets \<times> DiamondVm" where
  "soft_check now trip_now b vm =
     (if max_instructions vm \<noteq> 0 \<and> clock_check vm
      then let (exceeded, b, vm) = instruction_budget_exceeded b vm
           in if exceeded then (DIAMOND_VM_RESOURCE_LIMIT_ERROR, b, resource_limit_trip trip_now vm)
              else let (status, vm) = wall_check now trip_now vm in (status, b, vm)
      else let (status, vm) = wall_check now trip_now vm in (status, b, vm))"

text \<open>The check before an instruction is dispatched.\<close>

definition resource_check ::
    "(nat \<Rightarrow> nat) \<Rightarrow> (nat \<Rightarrow> nat) \<Rightarrow> int \<Rightarrow> int \<Rightarrow> budgets \<Rightarrow> DiamondVm \<Rightarrow> DiamondVmStatus \<times> budgets \<times> DiamondVm" where
  "resource_check minor major now trip_now b vm =
     (if \<not> resource_limits_active vm then (DIAMOND_VM_OK, b, vm)
      else let vm = vm\<lparr>instructions_executed := u64 (instructions_executed vm + 1)\<rparr>
           in if vm_interrupt_requested vm then (DIAMOND_VM_INTERRUPTED, b, vm)
              else let (status, b, vm) =
                         (if resource_grace_active vm
                          then let (status, vm) = grace_check now vm in (status, b, vm)
                          else soft_check now trip_now b vm)
                   in if status \<noteq> DIAMOND_VM_OK then (status, b, vm)
                      else if memory_recheck vm
                      then let (ok, b, vm) = maybe_collect minor major b (vm\<lparr>memory_recheck := False\<rparr>)
                           in (if ok then DIAMOND_VM_OK else DIAMOND_VM_OUT_OF_MEMORY, b, vm)
                      else (DIAMOND_VM_OK, b, vm))"

subsection \<open>Waits\<close>

definition wall_budget_limit_ns :: "DiamondVm \<Rightarrow> int" where
  "wall_budget_limit_ns vm =
     (if max_wall_nanoseconds vm \<noteq> 0 then s64 (start_time_ns vm + max_wall_nanoseconds vm)
      else if resource_grace_active vm \<and> hard_stop_time_ns vm \<noteq> 0 then hard_stop_time_ns vm
      else 0)"

definition INT_MAX :: int where
  "INT_MAX = 2147483647"

text \<open>\<open>/\<close> on a non-negative \<open>int64_t\<close> is \<open>div\<close>. The result is the wait and whether it was clamped.\<close>

definition bound_wait_by_wall_budget :: "int \<Rightarrow> DiamondVm \<Rightarrow> int \<Rightarrow> int \<times> bool" where
  "bound_wait_by_wall_budget now vm timeout_ms =
     (let limit = wall_budget_limit_ns vm
      in if limit = 0 then (timeout_ms, False)
         else let remaining_ns = s64 (limit - now);
                  remaining_ms = (if remaining_ns \<le> 0 then 0 else s64 (remaining_ns + 999999) div 1000000);
                  slice = remaining_ms + 1
              in if timeout_ms \<ge> 0 \<and> timeout_ms \<le> slice then (timeout_ms, False)
                 else (if slice > INT_MAX then INT_MAX else slice, True))"

definition wall_budget_after_wait :: "int \<Rightarrow> int \<Rightarrow> DiamondVm \<Rightarrow> DiamondVmStatus \<times> DiamondVm" where
  "wall_budget_after_wait now trip_now vm =
     (let limit = wall_budget_limit_ns vm
      in if limit = 0 \<or> now \<le> limit then (DIAMOND_VM_OK, vm)
         else if max_wall_nanoseconds vm \<noteq> 0
         then (DIAMOND_VM_RESOURCE_LIMIT_ERROR, resource_limit_trip trip_now vm)
         else resource_hard_stop ''wall-clock'' vm)"

end
