(* ===== verification/Budget_Ledger.thy ===== *)
theory Budget_Ledger
  imports Limits
begin

text \<open>
  What the resource budgets promise, over the definitions of \<open>Limits\<close>.

  \<^item> \<open>ledger\<close> is the specification of the shared counters: one account per live VM, computed by
    \<open>ledger_after\<close> from the events of a run alone. \<open>budget_step\<close> is the interleaving of the VMs' operations
    on the counters, each labelled with its event, and \<open>represents\<close> the abstraction relation.
  \<^item> \<open>books\<close> is the contract each operation is shown to keep: it changes its VM's account as its event
    says, and the shared totals by the same amounts.
  \<^item> \<open>run_program\<close> is a program that rescues every error it is told and goes on; the phases \<open>soft_phase\<close>
    and \<open>grace_phase\<close> bound how far it gets.
\<close>

section \<open>Specification\<close>

text \<open>
  The ledger of a process: for each live VM the instructions it has executed, how many of them have
  been charged to the shared total, and the bytes it held at its last memory check; and all
  instructions executed by VMs that have been freed since the first live one started.
\<close>

record account =
  used :: nat
  charged :: nat
  held :: nat

record ledger =
  closed :: nat
  accounts :: "account list"

definition empty_ledger :: ledger where
  "empty_ledger = \<lparr>closed = 0, accounts = []\<rparr>"

definition charged_total :: "ledger \<Rightarrow> nat" where
  "charged_total l = closed l + sum_list (map charged (accounts l))"

definition held_total :: "ledger \<Rightarrow> nat" where
  "held_total l = sum_list (map held (accounts l))"

definition held_elsewhere :: "nat \<Rightarrow> ledger \<Rightarrow> nat" where
  "held_elsewhere i l = sum_list (map held (take i (accounts l) @ drop (Suc i) (accounts l)))"

text \<open>
  What happens in a process: a VM with a budget starts; VM \<open>i\<close> counts an instruction, which may be one
  at which its instructions are due to be charged and one at which its memory is checked, with the
  bytes the collection leaves; VM \<open>i\<close> checks its memory before an allocation; it ends; it is freed;
  or it does something that concerns no total. Each event determines the next ledger.
\<close>

datatype event =
    Started
  | Executed nat bool "nat option"
  | Checked nat nat
  | Ended nat
  | Freed nat
  | Unrelated

fun account_after :: "event \<Rightarrow> account \<Rightarrow> account" where
  "account_after (Executed i due checked) a =
     (let a = a\<lparr>used := used a + 1\<rparr>; a = (if due then a\<lparr>charged := used a\<rparr> else a)
      in case checked of None \<Rightarrow> a | Some n \<Rightarrow> a\<lparr>held := n\<rparr>)"
| "account_after (Checked i n) a = a\<lparr>held := n\<rparr>"
| "account_after (Ended i) a = a\<lparr>charged := used a, held := 0\<rparr>"
| "account_after e a = a"

definition update_account :: "nat \<Rightarrow> (account \<Rightarrow> account) \<Rightarrow> ledger \<Rightarrow> ledger" where
  "update_account i f l = l\<lparr>accounts := (accounts l)[i := f (accounts l ! i)]\<rparr>"

fun ledger_after :: "event \<Rightarrow> ledger \<Rightarrow> ledger" where
  "ledger_after Started l =
     \<lparr>closed = (if accounts l = [] then 0 else closed l),
      accounts = accounts l @ [\<lparr>used = 0, charged = 0, held = 0\<rparr>]\<rparr>"
| "ledger_after (Freed i) l =
     \<lparr>closed = closed l + used (accounts l ! i), accounts = take i (accounts l) @ drop (Suc i) (accounts l)\<rparr>"
| "ledger_after (Executed i due checked) l = update_account i (account_after (Executed i due checked)) l"
| "ledger_after (Checked i n) l = update_account i (account_after (Checked i n)) l"
| "ledger_after (Ended i) l = update_account i (account_after (Ended i)) l"
| "ledger_after Unrelated l = l"

text \<open>
  The steps of the VMs of a process, with the event each one is: what is due is read off the state
  before the step, and the bytes are those the VM has after it.
\<close>

definition fresh_vm :: "DiamondVm \<Rightarrow> bool" where
  "fresh_vm vm \<longleftrightarrow> \<not> budgets_registered vm \<and> instructions_executed vm = 0 \<and> instructions_flushed vm = 0 \<and>
     memory_published vm = 0"

definition charge_due :: "DiamondVm \<Rightarrow> bool" where
  "charge_due vm \<longleftrightarrow> interrupt_flag vm \<noteq> Some True \<and> \<not> resource_grace_active vm \<and> max_instructions vm \<noteq> 0 \<and>
     u64 (instructions_executed vm + 1) mod 4096 = 0"

definition recheck_due :: "DiamondVmStatus \<Rightarrow> DiamondVm \<Rightarrow> bool" where
  "recheck_due status vm \<longleftrightarrow> memory_recheck vm \<and> max_memory_bytes vm \<noteq> 0 \<and>
     status \<in> {DIAMOND_VM_OK, DIAMOND_VM_OUT_OF_MEMORY}"

definition instruction_event :: "nat \<Rightarrow> DiamondVmStatus \<Rightarrow> DiamondVm \<Rightarrow> DiamondVm \<Rightarrow> event" where
  "instruction_event i status vm vm' =
     (if resource_limits_active vm
      then Executed i (charge_due vm) (if recheck_due status vm then Some (bytes_allocated vm') else None)
      else Unrelated)"

definition check_event :: "nat \<Rightarrow> DiamondVm \<Rightarrow> DiamondVm \<Rightarrow> event" where
  "check_event i vm vm' = (if max_memory_bytes vm \<noteq> 0 then Checked i (bytes_allocated vm') else Unrelated)"

inductive budget_step :: "event \<Rightarrow> budgets \<times> DiamondVm list \<Rightarrow> budgets \<times> DiamondVm list \<Rightarrow> bool" where
  vm_init: "fresh_vm vm \<Longrightarrow> length vms + 1 < 18446744073709551616 \<Longrightarrow>
    init_budgets getenv now b vm = (b', vm') \<Longrightarrow> budgets_registered vm' \<Longrightarrow>
    budget_step Started (b, vms) (b', vms @ [vm'])"
| vm_instruction: "i < length vms \<Longrightarrow> resource_check minor major now trip_now b (vms ! i) = (status, b', vm') \<Longrightarrow>
    budget_step (instruction_event i status (vms ! i) vm') (b, vms) (b', vms[i := vm'])"
| vm_mutate: "i < length vms \<Longrightarrow> budget_step Unrelated (b, vms) (b, vms[i := (vms ! i)\<lparr>bytes_allocated := n\<rparr>])"
| vm_growth: "i < length vms \<Longrightarrow> budget_step Unrelated (b, vms) (b, vms[i := note_storage_growth (vms ! i)])"
| vm_allocate: "i < length vms \<Longrightarrow> maybe_collect minor major b (vms ! i) = (ok, b', vm') \<Longrightarrow>
    budget_step (check_event i (vms ! i) vm') (b, vms) (b', vms[i := vm'])"
| vm_wait: "i < length vms \<Longrightarrow> wall_budget_after_wait now trip_now (vms ! i) = (status, vm') \<Longrightarrow>
    budget_step Unrelated (b, vms) (b, vms[i := vm'])"
| vm_finish: "i < length vms \<Longrightarrow> budget_release_finished b (vms ! i) = (b', vm') \<Longrightarrow>
    budget_step (Ended i) (b, vms) (b', vms[i := vm'])"
| vm_free: "i < length vms \<Longrightarrow>
    budget_step (Freed i) (b, vms) (budget_unregister b (vms ! i), take i vms @ drop (Suc i) vms)"

inductive_cases budget_step_cases: "budget_step e (b, vms) (b', vms')"

inductive budget_run :: "event list \<Rightarrow> budgets \<times> DiamondVm list \<Rightarrow> budgets \<times> DiamondVm list \<Rightarrow> bool" where
  run_start: "budget_run [] s s"
| run_step: "budget_run es s s' \<Longrightarrow> budget_step e s' s'' \<Longrightarrow> budget_run (es @ [e]) s s''"

text \<open>A VM whose fields are those of its account, and a process whose counters are its ledger's totals.\<close>

definition account_of :: "DiamondVm \<Rightarrow> account \<Rightarrow> bool" where
  "account_of vm a \<longleftrightarrow> budgets_registered vm \<and> instructions_executed vm = u64 (used a) \<and>
     instructions_flushed vm = u64 (charged a) \<and> memory_published vm = s64 (int (held a)) \<and> charged a \<le> used a"

definition represents :: "budgets \<times> DiamondVm list \<Rightarrow> ledger \<Rightarrow> bool" where
  "represents s l \<longleftrightarrow>
     (case s of (b, vms) \<Rightarrow>
        length vms < 18446744073709551616 \<and> length (accounts l) = length vms \<and>
        budget_live_vms b = length vms \<and> budget_instructions b = u64 (charged_total l) \<and>
        budget_bytes b = s64 (int (held_total l)) \<and>
        (\<forall>i < length vms. account_of (vms ! i) (accounts l ! i)))"

definition no_budgets :: budgets where
  "no_budgets = \<lparr>budget_live_vms = 0, budget_instructions = 0, budget_bytes = 0, budget_start_ns = 0\<rparr>"

section \<open>Accounting\<close>

lemma u64_add_left [simp]: "u64 (u64 a + b) = u64 (a + b)"
  by (simp add: u64_def mod_simps)

lemma u64_add_right [simp]: "u64 (a + u64 b) = u64 (a + b)"
  by (simp add: u64_def mod_simps)

lemma usub64_u64: "c \<le> e \<Longrightarrow> usub64 (u64 e) (u64 c) = u64 (e - c)"
proof -
  assume "c \<le> e"
  then obtain d where e: "e = c + d" using le_Suc_ex by blast
  have le: "u64 c \<le> 18446744073709551616" by (rule less_imp_le [OF u64_less])
  have "usub64 (u64 e) (u64 c) = u64 (e + (18446744073709551616 - u64 (u64 c)))"
    by (simp only: usub64_def u64_add_left)
  also have "\<dots> = u64 (c + (d + (18446744073709551616 - u64 c)))"
    by (simp only: e u64_id [OF u64_less] add.assoc)
  also have "\<dots> = u64 (u64 c + (d + (18446744073709551616 - u64 c)))" by (simp only: u64_add_left)
  also have "u64 c + (d + (18446744073709551616 - u64 c)) = d + 18446744073709551616" using le by simp
  also have "u64 (d + 18446744073709551616) = u64 d" by (simp add: u64_def)
  finally show ?thesis by (simp add: e)
qed

lemma sum_map_update:
  "i < length xs \<Longrightarrow> sum_list (map f (xs[i := y])) + f (xs ! i) = sum_list (map f xs) + f y" for f :: "'a \<Rightarrow> nat"
  by (induction xs arbitrary: i) (auto simp: nth_Cons split: nat.splits)

lemma sum_map_remove: "i < length xs \<Longrightarrow> sum_list (map f (take i xs @ drop (Suc i) xs)) + f (xs ! i) = sum_list (map f xs)"
  for f :: "'a \<Rightarrow> nat"
proof -
  assume i: "i < length xs"
  have "sum_list (map f xs) = sum_list (map f (take i xs @ xs ! i # drop (Suc i) xs))" using id_take_nth_drop [OF i] by simp
  then show ?thesis by simp
qed

lemma nth_remove: "i < length xs \<Longrightarrow> j < length xs - 1 \<Longrightarrow>
  (take i xs @ drop (Suc i) xs) ! j = xs ! (if j < i then j else Suc j)"
  by (simp add: nth_append)

text \<open>The counters move by what the account of one VM moves.\<close>

definition normal :: "budgets \<Rightarrow> bool" where
  "normal b \<longleftrightarrow> u64 (budget_instructions b) = budget_instructions b \<and> s64 (budget_bytes b) = budget_bytes b"

definition moves :: "budgets \<Rightarrow> account \<Rightarrow> budgets \<Rightarrow> account \<Rightarrow> bool" where
  "moves b a b' a' \<longleftrightarrow> normal b' \<and> budget_live_vms b' = budget_live_vms b \<and> charged a \<le> charged a' \<and>
     budget_instructions b' = u64 (budget_instructions b + (charged a' - charged a)) \<and>
     budget_bytes b' = s64 (budget_bytes b + int (held a') - int (held a))"

text \<open>An operation of a VM that changes its account from \<open>a\<close> to \<open>a'\<close>.\<close>

definition books :: "budgets \<Rightarrow> account \<Rightarrow> budgets \<Rightarrow> DiamondVm \<Rightarrow> account \<Rightarrow> bool" where
  "books b a b' vm' a' \<longleftrightarrow> account_of vm' a' \<and> moves b a b' a'"

lemma books_trans: "books b a b' vm' a' \<Longrightarrow> books b' a' b'' vm'' a'' \<Longrightarrow> books b a b'' vm'' a''"
proof -
  assume b: "books b a b' vm' a'" and b': "books b' a' b'' vm'' a''"
  have le: "charged a \<le> charged a'" "charged a' \<le> charged a''" using b b' by (simp_all add: books_def moves_def)
  have "budget_instructions b'' = u64 (budget_instructions b + ((charged a' - charged a) + (charged a'' - charged a')))"
    using b b' by (simp add: books_def moves_def add.assoc)
  then have "budget_instructions b'' = u64 (budget_instructions b + (charged a'' - charged a))" using le by simp
  moreover have "budget_bytes b'' = s64 (budget_bytes b + int (held a'') - int (held a))"
  proof -
    have "budget_bytes b'' = s64 (s64 (budget_bytes b + int (held a') - int (held a)) + (int (held a'') - int (held a')))"
      using b b' by (simp add: books_def moves_def add_diff_eq)
    then have "budget_bytes b'' = s64 (budget_bytes b + int (held a') - int (held a) + (int (held a'') - int (held a')))"
      by (simp only: s64_add_left)
    then show ?thesis by (simp add: algebra_simps)
  qed
  ultimately show ?thesis using b b' by (simp add: books_def moves_def)
qed

lemma books_same:
  assumes "normal b" "account_of vm a" "budgets_registered vm' = budgets_registered vm"
    "instructions_executed vm' = instructions_executed vm" "instructions_flushed vm' = instructions_flushed vm"
    "memory_published vm' = memory_published vm"
  shows "books b a b vm' a"
  using assms by (simp add: books_def account_of_def moves_def normal_def)

lemma represents_books:
  assumes "represents (b, vms) l" "i < length vms" "books b (accounts l ! i) b' vm' (f (accounts l ! i))"
  shows "represents (b', vms[i := vm']) (update_account i f l)"
proof -
  let ?a = "accounts l ! i" and ?as = "accounts l"
  have len: "i < length ?as" using assms(1,2) by (simp add: represents_def)
  have "charged_total (update_account i f l) + charged ?a = charged_total l + charged (f ?a)"
    using sum_map_update [OF len, of charged "f ?a"] by (simp add: charged_total_def update_account_def)
  then have "charged_total (update_account i f l) = charged_total l + (charged (f ?a) - charged ?a)"
    using assms(3) by (simp add: books_def moves_def)
  then have i: "budget_instructions b' = u64 (charged_total (update_account i f l))"
    using assms(1,3) by (simp add: represents_def books_def moves_def)
  have "int (held_total (update_account i f l)) = int (held_total l) + int (held (f ?a)) - int (held ?a)"
    using sum_map_update [OF len, of held "f ?a"] by (simp add: held_total_def update_account_def)
  moreover have "budget_bytes b' = s64 (s64 (int (held_total l)) + (int (held (f ?a)) - int (held ?a)))"
    using assms(1,3) by (simp add: represents_def books_def moves_def add_diff_eq)
  then have "budget_bytes b' = s64 (int (held_total l) + (int (held (f ?a)) - int (held ?a)))"
    by (simp only: s64_add_left)
  ultimately have h: "budget_bytes b' = s64 (int (held_total (update_account i f l)))" by (simp only: add_diff_eq)
  have "account_of (vms[i := vm'] ! j) (accounts (update_account i f l) ! j)" if "j < length vms" for j
    using assms that by (cases "j = i") (simp_all add: represents_def update_account_def books_def)
  then show ?thesis
    using assms(1,3) i h by (simp add: represents_def books_def moves_def update_account_def)
qed

lemma run_collectors_keeps:
  "budgets_registered (run_collectors minor major vm) = budgets_registered vm"
  "instructions_flushed (run_collectors minor major vm) = instructions_flushed vm"
  "instructions_executed (run_collectors minor major vm) = instructions_executed vm"
  "memory_published (run_collectors minor major vm) = memory_published vm"
  "max_memory_bytes (run_collectors minor major vm) = max_memory_bytes vm"
  "memory_limit_tripped (run_collectors minor major vm) = memory_limit_tripped vm"
  "max_instructions (run_collectors minor major vm) = max_instructions vm"
  "max_wall_nanoseconds (run_collectors minor major vm) = max_wall_nanoseconds vm"
  "resource_grace_active (run_collectors minor major vm) = resource_grace_active vm"
  "resource_limits_active (run_collectors minor major vm) = resource_limits_active vm"
  "hard_stop_instruction_count (run_collectors minor major vm) = hard_stop_instruction_count vm"
  "hard_stop_time_ns (run_collectors minor major vm) = hard_stop_time_ns vm"
  "interrupt_flag (run_collectors minor major vm) = interrupt_flag vm"
  "grace_instructions (run_collectors minor major vm) = grace_instructions vm"
  by (simp_all add: run_collectors_def diamond_vm_collect_minor_def diamond_vm_collect_def Let_def)

text \<open>A check before an allocation, on its three outcomes.\<close>

definition published_total :: "budgets \<Rightarrow> DiamondVm \<Rightarrow> nat \<Rightarrow> int" where
  "published_total b vm bytes = s64 (budget_bytes b + int bytes - memory_published vm)"

lemma maybe_collect_cases:
  assumes "maybe_collect minor major b vm = (ok, b', vm')"
  defines "c \<equiv> run_collectors minor major (vm\<lparr>memory_recheck := False\<rparr>)"
  defines "amount \<equiv> published_total b vm (bytes_allocated c)"
  defines "p \<equiv> c\<lparr>memory_published := s64 (int (bytes_allocated c))\<rparr>"
  obtains (unlimited) "max_memory_bytes vm = 0" "ok" "b' = b" "vm' = c"
  | (within) "max_memory_bytes vm \<noteq> 0" "amount \<le> 0 \<or> nat amount \<le> max_memory_bytes vm" "ok"
      "b' = b\<lparr>budget_bytes := amount\<rparr>" "vm' = p"
  | (trip) "max_memory_bytes vm \<noteq> 0" "\<not> (amount \<le> 0 \<or> nat amount \<le> max_memory_bytes vm)" "\<not> memory_limit_tripped vm"
      "\<not> ok" "b' = b\<lparr>budget_bytes := amount\<rparr>"
      "vm' = p\<lparr>memory_limit_tripped := True, max_memory_bytes :=
        (if max_memory_bytes p > SIZE_MAX - memory_grace p then SIZE_MAX else max_memory_bytes p + memory_grace p)\<rparr>"
  | (stop) "max_memory_bytes vm \<noteq> 0" "\<not> (amount \<le> 0 \<or> nat amount \<le> max_memory_bytes vm)" "memory_limit_tripped vm"
      "\<not> ok" "b' = b\<lparr>budget_bytes := amount\<rparr>"
      "vm' = p\<lparr>memory_hard_stopped := True,
        vm_error := ''memory budget exhausted: the program kept allocating after its ResourceLimitError''\<rparr>"
proof -
  have t: "s64 (budget_bytes b + s64 (s64 (int (bytes_allocated c)) - memory_published c)) = amount"
    by (simp add: amount_def published_total_def c_def run_collectors_keeps add_diff_eq)
  have k: "max_memory_bytes c = max_memory_bytes vm" "memory_limit_tripped c = memory_limit_tripped vm"
    "memory_published c = memory_published vm"
    by (simp_all add: c_def run_collectors_keeps)
  have p: "max_memory_bytes p = max_memory_bytes vm" "memory_limit_tripped p = memory_limit_tripped vm"
    by (simp_all add: p_def k)
  have eq: "maybe_collect minor major b vm =
    (if max_memory_bytes vm = 0 then (True, b, c)
     else if amount \<le> 0 \<or> nat amount \<le> max_memory_bytes vm then (True, b\<lparr>budget_bytes := amount\<rparr>, p)
     else if \<not> memory_limit_tripped vm
     then (False, b\<lparr>budget_bytes := amount\<rparr>, p\<lparr>memory_limit_tripped := True, max_memory_bytes :=
        (if max_memory_bytes p > SIZE_MAX - memory_grace p then SIZE_MAX else max_memory_bytes p + memory_grace p)\<rparr>)
     else (False, b\<lparr>budget_bytes := amount\<rparr>, p\<lparr>memory_hard_stopped := True,
        vm_error := ''memory budget exhausted: the program kept allocating after its ResourceLimitError''\<rparr>))"
    unfolding maybe_collect_def Let_def c_def [symmetric] t p_def [symmetric] k(1) p by (rule refl)
  consider "max_memory_bytes vm = 0" | "max_memory_bytes vm \<noteq> 0" "amount \<le> 0 \<or> nat amount \<le> max_memory_bytes vm"
    | "max_memory_bytes vm \<noteq> 0" "\<not> (amount \<le> 0 \<or> nat amount \<le> max_memory_bytes vm)" "\<not> memory_limit_tripped vm"
    | "max_memory_bytes vm \<noteq> 0" "\<not> (amount \<le> 0 \<or> nat amount \<le> max_memory_bytes vm)" "memory_limit_tripped vm"
    by blast
  then show thesis
  proof cases
    case 1
    then show ?thesis using unlimited assms(1) eq by simp
  next
    case 2
    then show ?thesis using within assms(1) eq by simp
  next
    case 3
    then have "(ok, b', vm') = (False, b\<lparr>budget_bytes := amount\<rparr>, p\<lparr>memory_limit_tripped := True, max_memory_bytes :=
        (if max_memory_bytes p > SIZE_MAX - memory_grace p then SIZE_MAX else max_memory_bytes p + memory_grace p)\<rparr>)"
      using assms(1) eq by (simp only: if_False if_True not_False_eq_True)
    then show ?thesis using trip 3 by simp
  next
    case 4
    then have "(ok, b', vm') = (False, b\<lparr>budget_bytes := amount\<rparr>, p\<lparr>memory_hard_stopped := True,
        vm_error := ''memory budget exhausted: the program kept allocating after its ResourceLimitError''\<rparr>)"
      using assms(1) eq by (simp only: if_False if_True not_True_eq_False)
    then show ?thesis using stop 4 by simp
  qed
qed

text \<open>A memory check with a budget publishes the bytes the collection leaves.\<close>

lemma maybe_collect_books:
  assumes "normal b" "account_of vm a" "maybe_collect minor major b vm = (ok, b', vm')"
  shows "books b a b' vm' (if max_memory_bytes vm \<noteq> 0 then a\<lparr>held := bytes_allocated vm'\<rparr> else a)"
proof -
  let ?c = "run_collectors minor major (vm\<lparr>memory_recheck := False\<rparr>)"
  have "books b a (b\<lparr>budget_bytes := published_total b vm (bytes_allocated ?c)\<rparr>) v (a\<lparr>held := bytes_allocated ?c\<rparr>)"
    if "budgets_registered v = budgets_registered vm" "instructions_flushed v = instructions_flushed vm"
      "memory_published v = s64 (int (bytes_allocated ?c))" "instructions_executed v = instructions_executed vm" for v
    using assms(1,2) that unfolding books_def account_of_def moves_def normal_def published_total_def by simp
  moreover have "books b a b ?c a"
    by (rule books_same [OF assms(1,2)]) (simp_all add: run_collectors_keeps)
  ultimately show ?thesis
    by (cases rule: maybe_collect_cases [OF assms(3)]) (simp_all add: run_collectors_keeps)
qed

lemma trip_keeps:
  "budgets_registered (resource_limit_trip now vm) = budgets_registered vm"
  "instructions_flushed (resource_limit_trip now vm) = instructions_flushed vm"
  "instructions_executed (resource_limit_trip now vm) = instructions_executed vm"
  "memory_published (resource_limit_trip now vm) = memory_published vm"
  "interrupt_flag (resource_limit_trip now vm) = interrupt_flag vm"
  "resource_limits_active (resource_limit_trip now vm) = resource_limits_active vm"
  "memory_recheck (resource_limit_trip now vm) = memory_recheck vm"
  "max_memory_bytes (resource_limit_trip now vm) = max_memory_bytes vm"
  "resource_grace_active (resource_limit_trip now vm)"
  by (simp_all add: resource_limit_trip_def Let_def)

text \<open>What the checks before an instruction leave alone.\<close>

definition same_memory :: "DiamondVm \<Rightarrow> DiamondVm \<Rightarrow> bool" where
  "same_memory vm vm' \<longleftrightarrow> memory_recheck vm' = memory_recheck vm \<and> max_memory_bytes vm' = max_memory_bytes vm"

lemma grace_check_books:
  assumes "normal b" "account_of vm a" "grace_check now vm = (status, vm')"
  shows "books b a b vm' a" "same_memory vm vm'" "status \<noteq> DIAMOND_VM_OUT_OF_MEMORY"
proof -
  show "books b a b vm' a"
    by (rule books_same [OF assms(1,2)])
      (use assms(3) in \<open>auto simp: grace_check_def resource_hard_stop_def split: if_splits\<close>)
  show "same_memory vm vm'" "status \<noteq> DIAMOND_VM_OUT_OF_MEMORY"
    using assms(3) by (auto simp: grace_check_def resource_hard_stop_def same_memory_def split: if_splits)
qed

lemma wall_check_books:
  assumes "normal b" "account_of vm a" "wall_check now trip_now vm = (status, vm')"
  shows "books b a b vm' a" "same_memory vm vm'" "status \<noteq> DIAMOND_VM_OUT_OF_MEMORY"
proof -
  show "books b a b vm' a"
    by (rule books_same [OF assms(1,2)])
      (use assms(3) in \<open>auto simp: wall_check_def trip_keeps split: if_splits\<close>)
  show "same_memory vm vm'" "status \<noteq> DIAMOND_VM_OUT_OF_MEMORY"
    using assms(3) by (auto simp: wall_check_def trip_keeps same_memory_def split: if_splits)
qed

lemma instruction_flush_books:
  assumes "normal b" "account_of vm a" "instruction_budget_exceeded b vm = (e, b', vm')"
  shows "books b a b' vm' (a\<lparr>charged := used a\<rparr>)" "same_memory vm vm'"
proof -
  have "u64 (budget_instructions b + usub64 (instructions_executed vm) (instructions_flushed vm)) =
      u64 (budget_instructions b + (used a - charged a))"
    using assms(2) by (simp add: account_of_def usub64_u64)
  then show "books b a b' vm' (a\<lparr>charged := used a\<rparr>)" "same_memory vm vm'"
    using assms by (auto simp: books_def account_of_def moves_def normal_def instruction_budget_exceeded_def
        same_memory_def Let_def u64_id [OF u64_less])
qed

lemma soft_check_books:
  assumes "normal b" "account_of vm a" "soft_check now trip_now b vm = (status, b', vm')"
  shows "books b a b' vm' (if max_instructions vm \<noteq> 0 \<and> clock_check vm then a\<lparr>charged := used a\<rparr> else a) \<and>
    same_memory vm vm' \<and> status \<noteq> DIAMOND_VM_OUT_OF_MEMORY"
proof (cases "max_instructions vm \<noteq> 0 \<and> clock_check vm")
  case False
  then have "wall_check now trip_now vm = (status, vm')" "b' = b"
    using assms(3) by (auto simp: soft_check_def split: prod.splits)
  then show ?thesis using wall_check_books [OF assms(1,2)] False by auto
next
  case True
  obtain e b1 vm1 where f: "instruction_budget_exceeded b vm = (e, b1, vm1)" by (cases "instruction_budget_exceeded b vm")
  note b1 = instruction_flush_books [OF assms(1,2) f]
  then have n1: "normal b1" "account_of vm1 (a\<lparr>charged := used a\<rparr>)" by (simp_all add: books_def moves_def)
  have "books b1 (a\<lparr>charged := used a\<rparr>) b' vm' (a\<lparr>charged := used a\<rparr>) \<and> same_memory vm1 vm' \<and>
      status \<noteq> DIAMOND_VM_OUT_OF_MEMORY"
  proof (cases e)
    case exceeded: True
    then have "b' = b1" "vm' = resource_limit_trip trip_now vm1" "status = DIAMOND_VM_RESOURCE_LIMIT_ERROR"
      using assms(3) f True by (auto simp: soft_check_def)
    then show ?thesis using books_same [OF n1, of vm'] by (simp add: trip_keeps same_memory_def)
  next
    case False
    then have "wall_check now trip_now vm1 = (status, vm')" "b' = b1"
      using assms(3) f True by (auto simp: soft_check_def split: prod.splits)
    then show ?thesis using wall_check_books [OF n1] by blast
  qed
  then show ?thesis using b1 books_trans True by (auto simp: same_memory_def)
qed

lemma clock_check_mod: "clock_check vm \<longleftrightarrow> instructions_executed vm mod 4096 = 0"
proof -
  have "(4095 :: nat) = mask 12" by (simp add: mask_eq_exp_minus_1)
  then have "instructions_executed vm AND 4095 = instructions_executed vm mod 2 ^ 12"
    by (simp only: take_bit_eq_mask [symmetric] take_bit_eq_mod)
  then show ?thesis
    by (simp add: clock_check_def DIAMOND_RESOURCE_LIMIT_CLOCK_CHECK_MASK_def)
qed

text \<open>The two halves of the check: the time budgets, then the memory when it is to be checked again.\<close>

definition timed_check :: "int \<Rightarrow> int \<Rightarrow> budgets \<Rightarrow> DiamondVm \<Rightarrow> DiamondVmStatus \<times> budgets \<times> DiamondVm" where
  "timed_check now trip_now b vm =
     (if resource_grace_active vm then let (status, w) = grace_check now vm in (status, b, w)
      else soft_check now trip_now b vm)"

lemma timed_check_books:
  assumes "normal b" "account_of vm a" "timed_check now trip_now b vm = (status, b', vm')"
  shows "books b a b' vm' (if \<not> resource_grace_active vm \<and> max_instructions vm \<noteq> 0 \<and> clock_check vm
      then a\<lparr>charged := used a\<rparr> else a) \<and> same_memory vm vm' \<and> status \<noteq> DIAMOND_VM_OUT_OF_MEMORY"
proof (cases "resource_grace_active vm")
  case True
  then have "grace_check now vm = (status, vm')" "b' = b" using assms(3) by (auto simp: timed_check_def split: prod.splits)
  then show ?thesis using grace_check_books [OF assms(1,2)] True by auto
next
  case False
  then show ?thesis using soft_check_books [OF assms(1,2)] assms(3) by (simp add: timed_check_def)
qed

lemma resource_check_halves:
  assumes "resource_check minor major now trip_now b vm = (status, b', vm')" "resource_limits_active vm"
    "interrupt_flag vm \<noteq> Some True"
    "timed_check now trip_now b (vm\<lparr>instructions_executed := u64 (instructions_executed vm + 1)\<rparr>) = (s1, b1, v1)"
  obtains (stopped) "s1 \<noteq> DIAMOND_VM_OK" "status = s1" "b' = b1" "vm' = v1"
  | (skipped) "s1 = DIAMOND_VM_OK" "\<not> memory_recheck v1" "status = DIAMOND_VM_OK" "b' = b1" "vm' = v1"
  | (checked) ok where "s1 = DIAMOND_VM_OK" "memory_recheck v1"
      "status = (if ok then DIAMOND_VM_OK else DIAMOND_VM_OUT_OF_MEMORY)"
      "maybe_collect minor major b1 (v1\<lparr>memory_recheck := False\<rparr>) = (ok, b', vm')"
proof -
  let ?v = "vm\<lparr>instructions_executed := u64 (instructions_executed vm + 1)\<rparr>"
  have "\<not> vm_interrupt_requested ?v" using assms(3) by (simp add: vm_interrupt_requested_def)
  then have rest: "(status, b', vm') = (if s1 \<noteq> DIAMOND_VM_OK then (s1, b1, v1)
      else if memory_recheck v1
      then let (ok, b, vm) = maybe_collect minor major b1 (v1\<lparr>memory_recheck := False\<rparr>)
           in (if ok then DIAMOND_VM_OK else DIAMOND_VM_OUT_OF_MEMORY, b, vm)
      else (DIAMOND_VM_OK, b1, v1))"
    using assms(1,2,4) unfolding resource_check_def Let_def timed_check_def by simp
  obtain ok b2 v2 where m: "maybe_collect minor major b1 (v1\<lparr>memory_recheck := False\<rparr>) = (ok, b2, v2)"
    using prod_cases3 by blast
  consider "s1 \<noteq> DIAMOND_VM_OK" | "s1 = DIAMOND_VM_OK" "\<not> memory_recheck v1" | "s1 = DIAMOND_VM_OK" "memory_recheck v1"
    by blast
  then show thesis
  proof cases
    case 1
    then show ?thesis using stopped rest by simp
  next
    case 2
    then show ?thesis using skipped rest by simp
  next
    case 3
    then show ?thesis using checked [of ok] rest m by simp
  qed
qed

text \<open>The whole check does to the account what its event says.\<close>

lemma resource_check_books:
  assumes "normal b" "account_of vm a" "resource_check minor major now trip_now b vm = (status, b', vm')"
  shows "books b a b' vm' (account_after (instruction_event i status vm vm') a)"
proof (cases "resource_limits_active vm")
  case False
  then show ?thesis
    using assms(3) books_same [OF assms(1,2), of vm] by (simp add: resource_check_def instruction_event_def)
next
  case active: True
  let ?v = "vm\<lparr>instructions_executed := u64 (instructions_executed vm + 1)\<rparr>"
  let ?a = "a\<lparr>used := used a + 1\<rparr>"
  have "u64 (u64 (used a) + 1) = u64 (used a + 1)" by (rule u64_add_left)
  then have acc: "account_of ?v ?a" using assms(2) by (simp add: account_of_def)
  have v: "books b a b ?v ?a" using acc assms(1) by (simp add: books_def moves_def normal_def)
  show ?thesis
  proof (cases "interrupt_flag vm = Some True")
    case True
    then have "status = DIAMOND_VM_INTERRUPTED" "b' = b" "vm' = ?v"
      using assms(3) active by (simp_all add: resource_check_def vm_interrupt_requested_def Let_def)
    then show ?thesis
      using v True active by (simp add: instruction_event_def charge_due_def recheck_due_def Let_def)
  next
    case False
    let ?a1 = "if charge_due vm then ?a\<lparr>charged := used ?a\<rparr> else ?a"
    obtain s1 b1 v1 where t: "timed_check now trip_now b ?v = (s1, b1, v1)" using prod_cases3 by blast
    have due: "charge_due vm \<longleftrightarrow> \<not> resource_grace_active ?v \<and> max_instructions ?v \<noteq> 0 \<and> clock_check ?v"
      using False by (simp add: charge_due_def clock_check_mod)
    have b1: "books b ?a b1 v1 ?a1" and m1: "same_memory ?v v1" and s1: "s1 \<noteq> DIAMOND_VM_OUT_OF_MEMORY"
      using timed_check_books [OF assms(1) acc t] due by simp_all
    have mem: "memory_recheck v1 = memory_recheck vm" "max_memory_bytes v1 = max_memory_bytes vm"
      using m1 by (simp_all add: same_memory_def)
    have ev: "account_after (instruction_event i status vm vm') a =
        (if recheck_due status vm then ?a1\<lparr>held := bytes_allocated vm'\<rparr> else ?a1)"
      using active by (simp add: instruction_event_def Let_def)
    have n1: "normal b1" "account_of (v1\<lparr>memory_recheck := False\<rparr>) ?a1"
      using b1 by (simp_all add: books_def moves_def account_of_def)
    show ?thesis
    proof (cases rule: resource_check_halves [OF assms(3) active False t, case_names stopped skipped checked])
      case stopped
      then have "\<not> recheck_due status vm" using s1 by (simp add: recheck_due_def)
      then show ?thesis unfolding ev using stopped b1 books_trans [OF v] by simp
    next
      case skipped
      then have "\<not> recheck_due status vm" using mem by (simp add: recheck_due_def)
      then show ?thesis unfolding ev using skipped b1 books_trans [OF v] by simp
    next
      case (checked ok)
      then have "recheck_due status vm \<longleftrightarrow> max_memory_bytes (v1\<lparr>memory_recheck := False\<rparr>) \<noteq> 0"
        using mem by (simp add: recheck_due_def)
      then show ?thesis
        unfolding ev using maybe_collect_books [OF n1 checked(4)] books_trans [OF books_trans [OF v b1]] by simp
    qed
  qed
qed

lemma release_books:
  assumes "normal b" "account_of vm a" "budget_release_finished b vm = (b', vm')"
  shows "books b a b' vm' (a\<lparr>charged := used a, held := 0\<rparr>)"
proof -
  have "u64 (budget_instructions b + usub64 (instructions_executed vm) (instructions_flushed vm)) =
      u64 (budget_instructions b + (used a - charged a))"
    using assms(2) by (simp add: account_of_def usub64_u64)
  moreover have "s64 (0 :: int) = 0" by (simp add: s64_id)
  ultimately show ?thesis
    using assms by (auto simp: books_def account_of_def moves_def normal_def budget_release_finished_def
        u64_id [OF u64_less])
qed

section \<open>The counters refine the ledger\<close>

lemma represents_normal:
  assumes "represents (b, vms) l" "i < length vms"
  shows "normal b" "account_of (vms ! i) (accounts l ! i)"
  using assms by (simp_all add: represents_def normal_def u64_id [OF u64_less])

lemma init_register:
  assumes "init_budgets getenv now b vm = (b', vm')" "budgets_registered vm'" "\<not> budgets_registered vm"
  shows "budget_live_vms b' = u64 (budget_live_vms b + 1)"
    "budget_instructions b' = (if budget_live_vms b = 0 then 0 else budget_instructions b)"
    "budget_bytes b' = (if budget_live_vms b = 0 then 0 else budget_bytes b)"
    "instructions_executed vm' = instructions_executed vm" "instructions_flushed vm' = instructions_flushed vm"
    "memory_published vm' = memory_published vm"
  using assms by (auto simp: init_budgets_def budget_register_def Let_def split: if_splits)

lemma represents_init:
  assumes "represents (b, vms) l" "fresh_vm vm" "length vms + 1 < 18446744073709551616"
    "init_budgets getenv now b vm = (b', vm')" "budgets_registered vm'"
  shows "represents (b', vms @ [vm']) (ledger_after Started l)"
proof -
  have "\<not> budgets_registered vm" using assms(2) by (simp add: fresh_vm_def)
  note i = init_register [OF assms(4,5) this]
  have zero: "u64 0 = 0" "s64 0 = 0" by (simp_all add: u64_def s64_id)
  have len: "length (accounts l) = length vms" "budget_live_vms b = length vms" using assms(1) by (simp_all add: represents_def)
  then have first: "budget_live_vms b = 0 \<longleftrightarrow> accounts l = []" by auto
  have new: "account_of vm' \<lparr>used = 0, charged = 0, held = 0\<rparr>"
    using i assms(2,5) zero by (simp add: account_of_def fresh_vm_def)
  have "account_of ((vms @ [vm']) ! j) (accounts (ledger_after Started l) ! j)" if "j < length (vms @ [vm'])" for j
    using that assms(1) new len by (cases "j < length vms") (auto simp: represents_def nth_append less_Suc_eq)
  moreover have "budget_live_vms b' = length (vms @ [vm'])" using i(1) len assms(3) by (simp add: u64_id)
  moreover have "budget_instructions b' = u64 (charged_total (ledger_after Started l))"
    using i(2) assms(1) first zero by (simp add: represents_def charged_total_def)
  moreover have "budget_bytes b' = s64 (int (held_total (ledger_after Started l)))"
    using i(3) assms(1) first zero by (simp add: represents_def held_total_def)
  ultimately show ?thesis using len assms(3) by (simp add: represents_def)
qed

lemma represents_free:
  assumes "represents (b, vms) l" "i < length vms"
  shows "represents (budget_unregister b (vms ! i), take i vms @ drop (Suc i) vms) (ledger_after (Freed i) l)"
proof -
  let ?v = "vms ! i" and ?as = "accounts l" and ?l = "ledger_after (Freed i) l"
  let ?a = "?as ! i" and ?b = "budget_unregister b (vms ! i)"
  have len: "length ?as = length vms" "i < length ?as" using assms by (simp_all add: represents_def)
  have acc: "account_of (vms ! j) (?as ! j)" if "j < length vms" for j
    using assms(1) that by (simp add: represents_def)
  note a = acc [OF assms(2), unfolded account_of_def]
  have live: "budget_live_vms b = length vms" "length vms < 18446744073709551616"
    "budget_instructions b = u64 (charged_total l)" "budget_bytes b = s64 (int (held_total l))"
    using assms(1) by (simp_all add: represents_def)
  have "charged_total ?l = charged_total l + (used ?a - charged ?a)"
    using sum_map_remove [OF len(2), of charged] a by (simp add: charged_total_def)
  moreover have "budget_instructions ?b = u64 (u64 (charged_total l) + u64 (used ?a - charged ?a))"
    using a live(3) by (simp add: budget_unregister_def usub64_u64 del: u64_add_left u64_add_right)
  ultimately have "budget_instructions ?b = u64 (charged_total ?l)"
    by (simp only: u64_add_left u64_add_right)
  moreover have "budget_bytes ?b = s64 (int (held_total ?l))"
  proof -
    have "int (held_total ?l) = int (held_total l) - int (held ?a)"
      using sum_map_remove [OF len(2), of held] by (simp add: held_total_def)
    then show ?thesis using a live(4) by (simp add: budget_unregister_def)
  qed
  moreover have "budget_live_vms ?b = length vms - 1"
    using a live assms(2) by (simp add: budget_unregister_def usub64_id)
  moreover have "account_of ((take i vms @ drop (Suc i) vms) ! j) (accounts ?l ! j)" if j: "j < length vms - 1" for j
  proof -
    let ?k = "if j < i then j else Suc j"
    have "accounts ?l ! j = ?as ! ?k" using nth_remove [OF len(2), of j] j len by simp
    then show ?thesis using nth_remove [OF assms(2) j] acc [of ?k] j by (cases "j < i") simp_all
  qed
  ultimately show ?thesis using len assms(2) live(2) by (simp add: represents_def)
qed

lemma after_wait_books:
  assumes "normal b" "account_of vm a" "wall_budget_after_wait now trip_now vm = (status, vm')"
  shows "books b a b vm' a"
  by (rule books_same [OF assms(1,2)])
    (use assms(3) in \<open>auto simp: wall_budget_after_wait_def Let_def trip_keeps resource_hard_stop_def split: if_splits\<close>)

lemma ledger_after_account:
  "ledger_after (instruction_event i status vm vm') l =
     update_account i (account_after (instruction_event i status vm vm')) l"
  "ledger_after (check_event i vm vm') l =
     update_account i (\<lambda>a. if max_memory_bytes vm \<noteq> 0 then a\<lparr>held := bytes_allocated vm'\<rparr> else a) l"
  "ledger_after Unrelated l = update_account i (\<lambda>a. a) l"
  by (simp_all add: instruction_event_def check_event_def update_account_def)

lemma budget_step_simulated:
  assumes "budget_step e s s'" "represents s l"
  shows "represents s' (ledger_after e l)"
  using assms(1)
proof cases
  case (vm_init vm vms getenv now b b' vm')
  then show ?thesis using represents_init assms(2) by blast
next
  case (vm_instruction i vms minor major now trip_now b status b' vm')
  then have r: "represents (b, vms) l" using assms(2) by simp
  note n = represents_normal [OF r vm_instruction(4)]
  show ?thesis
    unfolding vm_instruction ledger_after_account
    by (rule represents_books [OF r vm_instruction(4), where f = "account_after (instruction_event i status (vms ! i) vm')"])
      (rule resource_check_books [OF n vm_instruction(5)])
next
  case (vm_mutate i vms b n)
  then have r: "represents (b, vms) l" using assms(2) by simp
  show ?thesis
    unfolding vm_mutate ledger_after_account(3) [of l i]
    by (rule represents_books [OF r vm_mutate(4)]) (rule books_same [OF represents_normal [OF r vm_mutate(4)]]; simp)
next
  case (vm_growth i vms b)
  then have r: "represents (b, vms) l" using assms(2) by simp
  show ?thesis
    unfolding vm_growth ledger_after_account(3) [of l i]
    by (rule represents_books [OF r vm_growth(4)])
      (rule books_same [OF represents_normal [OF r vm_growth(4)]]; simp add: note_storage_growth_def)
next
  case (vm_allocate i vms minor major b ok b' vm')
  then have r: "represents (b, vms) l" using assms(2) by simp
  show ?thesis
    unfolding vm_allocate ledger_after_account
    by (rule represents_books [OF r vm_allocate(4)])
      (rule maybe_collect_books [OF represents_normal [OF r vm_allocate(4)] vm_allocate(5)])
next
  case (vm_wait i vms now trip_now status vm' b)
  then have r: "represents (b, vms) l" using assms(2) by simp
  show ?thesis
    unfolding vm_wait ledger_after_account(3) [of l i]
    by (rule represents_books [OF r vm_wait(4)])
      (rule after_wait_books [OF represents_normal [OF r vm_wait(4)] vm_wait(5)])
next
  case (vm_finish i vms b b' vm')
  then have r: "represents (b, vms) l" using assms(2) by simp
  show ?thesis
    unfolding vm_finish ledger_after.simps
    by (rule represents_books [OF r vm_finish(4)])
      (use release_books [OF represents_normal [OF r vm_finish(4)] vm_finish(5)] in simp)
next
  case (vm_free i vms b)
  then show ?thesis using represents_free assms(2) by blast
qed

lemma run_represents:
  assumes "budget_run es s s'" "represents s l"
  shows "represents s' (fold ledger_after es l)"
  using assms by induction (auto dest: budget_step_simulated)

lemma represents_start: "represents (no_budgets, []) empty_ledger"
  by (simp add: represents_def no_budgets_def empty_ledger_def charged_total_def held_total_def u64_def s64_id)

text \<open>C29: The shared budget counters implement one ledger for the whole process. Along every
interleaving of VMs starting, executing instructions, allocating, waiting, ending and being freed, the
ledger computed from the events alone is the one the state stands for: each live VM's own counters are
the instructions it has executed, those charged at its comparison points (all of them when it ends)
and the bytes it had at its last memory check, and the shared counters are the number of live VMs,
the instructions charged to live VMs plus every instruction executed by the VMs freed since the
first one started, and the bytes at the last checks, each at the width of its counter.\<close>

theorem budgets_refine_ledger:
  assumes "budget_run es (no_budgets, []) s"
  shows "represents s (fold ledger_after es empty_ledger)"
  using run_represents [OF assms represents_start] .

lemma published_total_ledger:
  assumes "represents (b, vms) l" "i < length vms" "held_elsewhere i l + bytes < 9223372036854775808"
  shows "published_total b (vms ! i) bytes = int (held_elsewhere i l + bytes)"
proof -
  have len: "i < length (accounts l)" using assms(1,2) by (simp add: represents_def)
  have "int (held_total l) - int (held (accounts l ! i)) = int (held_elsewhere i l)"
    using sum_map_remove [OF len, of held] by (simp add: held_total_def held_elsewhere_def)
  moreover have "published_total b (vms ! i) bytes =
      s64 (s64 (int (held_total l)) + int bytes - s64 (int (held (accounts l ! i))))"
    using assms(1,2) by (simp add: published_total_def represents_def account_of_def)
  then have "published_total b (vms ! i) bytes =
      s64 (int (held_total l) + int bytes - int (held (accounts l ! i)))"
    by (simp only: s64_diff_right) (simp only: add_diff_eq [symmetric] s64_add_left)
  ultimately have "published_total b (vms ! i) bytes = s64 (int (held_elsewhere i l) + int bytes)"
    by (simp add: algebra_simps)
  then show ?thesis using assms(3) by (simp add: s64_id)
qed

text \<open>C30: The memory budget bounds the process, not each VM: after every run, a VM's check before an
allocation succeeds exactly when the bytes it still has after collecting, plus the bytes each other
live VM had at its own last check, are within its limit (as long as that total is below 2^63), and the
check makes the VM's bytes part of the total the others are judged by. The first overrun raises the
limit by the grace allowance and is rescuable; the next one is final.\<close>

theorem memory_budget_process_wide:
  assumes "budget_run es (no_budgets, []) (b, vms)" "i < length vms" "max_memory_bytes (vms ! i) \<noteq> 0"
    "maybe_collect minor major b (vms ! i) = (ok, b', vm')"
    "process_bytes = held_elsewhere i (fold ledger_after es empty_ledger) + bytes_allocated vm'"
    "process_bytes < 9223372036854775808"
  shows "ok = (process_bytes \<le> max_memory_bytes (vms ! i)) \<and>
    budget_bytes b' = int process_bytes \<and> memory_published vm' = int (bytes_allocated vm') \<and>
    (\<not> ok \<longrightarrow> (if memory_limit_tripped (vms ! i) then memory_hard_stopped vm'
                else memory_limit_tripped vm' \<and> memory_hard_stopped vm' = memory_hard_stopped (vms ! i) \<and>
                  max_memory_bytes vm' = min SIZE_MAX (max_memory_bytes (vms ! i) + memory_grace (vms ! i))))"
proof -
  let ?c = "run_collectors minor major ((vms ! i)\<lparr>memory_recheck := False\<rparr>)"
  have bytes: "bytes_allocated vm' = bytes_allocated ?c"
    by (cases rule: maybe_collect_cases [OF assms(4)]) simp_all
  have t: "published_total b (vms ! i) (bytes_allocated ?c) = int process_bytes"
    using published_total_ledger [OF run_represents [OF assms(1) represents_start] assms(2), of "bytes_allocated ?c"]
      assms(5,6) bytes by simp
  have small: "s64 (int (bytes_allocated ?c)) = int (bytes_allocated ?c)"
    using assms(5,6) bytes by (intro s64_id) simp_all
  have g: "memory_grace (v\<lparr>memory_published := x\<rparr>) = memory_grace v" for v x by (simp add: memory_grace_def)
  have gc: "memory_grace ?c = memory_grace (vms ! i)" "memory_hard_stopped ?c = memory_hard_stopped (vms ! i)"
    by (simp_all add: memory_grace_def run_collectors_def diamond_vm_collect_minor_def diamond_vm_collect_def Let_def)
  show ?thesis
  proof (cases rule: maybe_collect_cases [OF assms(4), case_names unlimited within trip stop])
    case unlimited
    then show ?thesis using assms(3) by simp
  next
    case within
    then show ?thesis using t small by auto
  next
    case trip
    then show ?thesis using t g gc small by (auto simp: run_collectors_keeps)
  next
    case stop
    then show ?thesis using t small by auto
  qed
qed

section \<open>The instruction budget ends every run\<close>

text \<open>What happens to a VM between two instructions: other VMs have added to the shared totals, the
program has allocated or grown storage, and may have waited.\<close>

record interval =
  other_instructions :: nat
  other_bytes :: int
  bytes_now :: nat
  allocates :: bool
  grows :: bool
  waits :: bool
  wait_clock :: int
  wait_trip_clock :: int
  clock :: int
  trip_clock :: int
  minor_leaves :: "nat \<Rightarrow> nat"
  major_leaves :: "nat \<Rightarrow> nat"

definition between :: "interval \<Rightarrow> budgets \<Rightarrow> DiamondVm \<Rightarrow> budgets \<times> DiamondVm" where
  "between x b vm =
     (let b = b\<lparr>budget_instructions := u64 (budget_instructions b + other_instructions x), budget_bytes := other_bytes x\<rparr>;
          vm = vm\<lparr>bytes_allocated := bytes_now x\<rparr>;
          vm = (if grows x then note_storage_growth vm else vm)
      in if allocates x then snd (maybe_collect (minor_leaves x) (major_leaves x) b vm) else (b, vm))"

definition after_wait :: "interval \<Rightarrow> DiamondVm \<Rightarrow> DiamondVmStatus \<times> DiamondVm" where
  "after_wait x vm =
     (if waits x then wall_budget_after_wait (wait_clock x) (wait_trip_clock x) vm else (DIAMOND_VM_OK, vm))"

text \<open>The statuses of the checks after each wait and before each instruction of a program that rescues
whatever it is told.\<close>

fun run_program :: "interval list \<Rightarrow> budgets \<Rightarrow> DiamondVm \<Rightarrow> DiamondVmStatus list" where
  "run_program [] b vm = []"
| "run_program (x # xs) b vm =
     (let (b, vm) = between x b vm;
          (waited, vm) = after_wait x vm;
          (status, b, vm) = resource_check (minor_leaves x) (major_leaves x) (clock x) (trip_clock x) b vm
      in waited # status # run_program xs b vm)"

definition grace_allowance :: "DiamondVm \<Rightarrow> nat" where
  "grace_allowance vm = (if grace_instructions vm \<noteq> 0 then grace_instructions vm else DIAMOND_INSTRUCTION_GRACE)"

text \<open>The first count past \<open>m\<close> at which the budget is compared.\<close>

definition trip_count :: "nat \<Rightarrow> nat" where
  "trip_count m = 4096 * (m div 4096 + 1)"

lemma trip_count_gt: "m < trip_count m"
  by (simp add: trip_count_def)

definition same_clock :: "DiamondVm \<Rightarrow> DiamondVm \<Rightarrow> bool" where
  "same_clock vm vm' \<longleftrightarrow> max_instructions vm' = max_instructions vm \<and> grace_instructions vm' = grace_instructions vm \<and>
     instructions_executed vm' = instructions_executed vm \<and> instructions_flushed vm' = instructions_flushed vm \<and>
     resource_grace_active vm' = resource_grace_active vm \<and> resource_limits_active vm' = resource_limits_active vm \<and>
     hard_stop_instruction_count vm' = hard_stop_instruction_count vm \<and> interrupt_flag vm' = interrupt_flag vm"

lemma same_clock_refl: "same_clock vm vm"
  by (simp add: same_clock_def)

lemma same_clock_trans: "same_clock a b \<Longrightarrow> same_clock b c \<Longrightarrow> same_clock a c"
  by (simp add: same_clock_def)

lemma maybe_collect_same_clock:
  assumes "maybe_collect minor major b vm = (ok, b', vm')"
  shows "same_clock vm vm' \<and> budget_instructions b' = budget_instructions b"
  by (cases rule: maybe_collect_cases [OF assms]) (simp_all add: same_clock_def run_collectors_keeps)

lemma between_same_clock:
  assumes "between x b vm = (b', vm')"
  shows "same_clock vm vm' \<and> budget_instructions b' = u64 (budget_instructions b + other_instructions x)"
proof -
  let ?b = "b\<lparr>budget_instructions := u64 (budget_instructions b + other_instructions x), budget_bytes := other_bytes x\<rparr>"
  let ?v = "if grows x then note_storage_growth (vm\<lparr>bytes_allocated := bytes_now x\<rparr>) else vm\<lparr>bytes_allocated := bytes_now x\<rparr>"
  have v: "same_clock vm ?v" by (simp add: same_clock_def note_storage_growth_def)
  show ?thesis
  proof (cases "allocates x")
    case True
    obtain ok b1 v1 where m: "maybe_collect (minor_leaves x) (major_leaves x) ?b ?v = (ok, b1, v1)"
      using prod_cases3 by blast
    have "b' = b1" "vm' = v1" using assms True m unfolding between_def Let_def by simp_all
    then show ?thesis using maybe_collect_same_clock [OF m] v same_clock_trans by auto
  next
    case False
    then have "b' = ?b" "vm' = ?v" using assms unfolding between_def Let_def by simp_all
    then show ?thesis using v by simp
  qed
qed

text \<open>Before the budget has tripped, and after.\<close>

definition soft_phase :: "nat \<Rightarrow> nat \<Rightarrow> budgets \<Rightarrow> DiamondVm \<Rightarrow> bool" where
  "soft_phase m g b vm \<longleftrightarrow> \<not> resource_grace_active vm \<and> max_instructions vm = m \<and> grace_allowance vm = g \<and>
     instructions_executed vm < trip_count m \<and> instructions_flushed vm \<le> instructions_executed vm \<and>
     instructions_flushed vm \<le> budget_instructions b"

definition grace_phase :: "nat \<Rightarrow> nat \<Rightarrow> DiamondVm \<Rightarrow> bool" where
  "grace_phase m g vm \<longleftrightarrow> resource_grace_active vm \<and> max_instructions vm = 0 \<and> hard_stop_instruction_count vm \<noteq> 0 \<and>
     hard_stop_instruction_count vm \<le> trip_count m + g \<and> instructions_executed vm \<le> hard_stop_instruction_count vm"

definition armed :: "nat \<Rightarrow> nat \<Rightarrow> nat \<Rightarrow> budgets \<Rightarrow> DiamondVm \<Rightarrow> bool" where
  "armed m g n b vm \<longleftrightarrow> resource_limits_active vm \<and> interrupt_flag vm = None \<and>
     (soft_phase m g b vm \<and> budget_instructions b + (instructions_executed vm - instructions_flushed vm) + n < 18446744073709551616 \<or>
      grace_phase m g vm)"

lemma armed_same_clock:
  assumes "armed m g (k + n) b vm" "same_clock vm vm'" "budget_instructions b' = u64 (budget_instructions b + k)"
  shows "armed m g n b' vm'"
proof (cases "grace_phase m g vm")
  case True
  then show ?thesis using assms(1,2) by (simp add: armed_def grace_phase_def same_clock_def)
next
  case False
  then have "budget_instructions b' = budget_instructions b + k"
    using assms(1,3) by (simp add: armed_def u64_id)
  then show ?thesis
    using assms(1,2) False by (auto simp: armed_def grace_phase_def soft_phase_def same_clock_def grace_allowance_def)
qed

lemma grace_allowance_pos: "0 < grace_allowance vm"
  by (simp add: grace_allowance_def DIAMOND_INSTRUCTION_GRACE_def)

lemma trip_starts_grace:
  assumes "max_instructions vm = m" "m \<noteq> 0" "grace_allowance vm = g"
    "instructions_executed vm \<le> trip_count m" "trip_count m + g < 18446744073709551616"
  shows "grace_phase m g (resource_limit_trip now vm)"
proof -
  let ?t = "resource_limit_trip now vm"
  have "hard_stop_instruction_count ?t = u64 (instructions_executed vm + g)"
    using assms(1-3) by (simp add: resource_limit_trip_def grace_allowance_def Let_def)
  then have "hard_stop_instruction_count ?t = instructions_executed vm + g" using assms(4,5) by (simp add: u64_id)
  moreover have "max_instructions ?t = 0" by (simp add: resource_limit_trip_def Let_def)
  ultimately show ?thesis
    using assms(3,4) grace_allowance_pos [of vm] by (simp add: grace_phase_def trip_keeps)
qed

lemma wall_check_phase:
  assumes "wall_check now trip_now vm = (status, vm')" "max_instructions vm = m" "m \<noteq> 0" "grace_allowance vm = g"
    "instructions_executed vm \<le> trip_count m" "trip_count m + g < 18446744073709551616"
  shows "(vm' = vm \<or> grace_phase m g vm') \<and> resource_limits_active vm' = resource_limits_active vm \<and>
      interrupt_flag vm' = interrupt_flag vm \<and> instructions_executed vm' = instructions_executed vm"
  using assms(1) trip_starts_grace [OF assms(2-6), of trip_now]
  by (auto simp: wall_check_def trip_keeps split: if_splits)

lemma soft_step:
  assumes "soft_check now trip_now b vm = (status, b', vm')" "max_instructions vm = m" "m \<noteq> 0" "grace_allowance vm = g"
    "\<not> resource_grace_active vm" "resource_limits_active vm" "interrupt_flag vm = None"
    "instructions_executed vm \<noteq> 0" "instructions_executed vm \<le> trip_count m" "trip_count m + g + 1 < 18446744073709551616"
    "instructions_flushed vm \<le> instructions_executed vm" "instructions_flushed vm \<le> budget_instructions b"
    "budget_instructions b + (instructions_executed vm - instructions_flushed vm) + n < 18446744073709551616"
  shows "armed m g n b' vm' \<and> instructions_executed vm' = instructions_executed vm"
proof (cases "clock_check vm")
  case False
  then have "instructions_executed vm \<noteq> trip_count m" by (auto simp: clock_check_mod trip_count_def)
  then have lt: "instructions_executed vm < trip_count m" using assms(9) by simp
  have w: "wall_check now trip_now vm = (status, vm')" "b' = b"
    using assms(1) False by (auto simp: soft_check_def split: prod.splits)
  show ?thesis
    using wall_check_phase [OF w(1) assms(2-4,9)] assms lt w(2) by (auto simp: armed_def soft_phase_def)
next
  case True
  let ?t = "budget_instructions b + (instructions_executed vm - instructions_flushed vm)"
  let ?v = "vm\<lparr>instructions_flushed := instructions_executed vm\<rparr>"
  have "usub64 (instructions_executed vm) (instructions_flushed vm) = instructions_executed vm - instructions_flushed vm"
    using assms(9,10,11) by (intro usub64_id) simp_all
  then have f: "instruction_budget_exceeded b vm = (?t > m, b\<lparr>budget_instructions := ?t\<rparr>, ?v)"
    using assms(2,13) by (simp add: instruction_budget_exceeded_def u64_id Let_def)
  have ge: "instructions_executed vm \<le> ?t" using assms(11,12) by simp
  have v: "max_instructions ?v = m" "grace_allowance ?v = g" "instructions_executed ?v \<le> trip_count m"
    using assms(2,4,9) by (auto simp: grace_allowance_def)
  show ?thesis
  proof (cases "?t > m")
    case exceeded: True
    then have r: "b' = b\<lparr>budget_instructions := ?t\<rparr>" "vm' = resource_limit_trip trip_now ?v"
      using assms(1,2,3) True f by (simp_all add: soft_check_def)
    show ?thesis
      using trip_starts_grace [OF v(1) assms(3) v(2,3), of trip_now] assms(6,7,10) r by (simp add: armed_def trip_keeps)
  next
    case False
    then have w: "wall_check now trip_now ?v = (status, vm')" "b' = b\<lparr>budget_instructions := ?t\<rparr>"
      using assms(1,2,3) True f by (auto simp: soft_check_def split: prod.splits)
    have "instructions_executed vm < trip_count m" using False ge trip_count_gt [of m] by linarith
    then show ?thesis
      using wall_check_phase [OF w(1) v(1) assms(3) v(2,3)] assms w(2) ge v by (auto simp: armed_def soft_phase_def)
  qed
qed

lemma grace_step:
  assumes "grace_check now vm = (status, vm')" "status \<noteq> DIAMOND_VM_RESOURCE_EXHAUSTED"
  shows "vm' = vm \<and> (hard_stop_instruction_count vm \<noteq> 0 \<longrightarrow> instructions_executed vm \<le> hard_stop_instruction_count vm)"
  using assms by (auto simp: grace_check_def resource_hard_stop_def split: if_splits)

lemma check_step:
  assumes "armed m g (Suc n) b vm" "m \<noteq> 0" "trip_count m + g + 1 < 18446744073709551616"
    "resource_check minor major now trip_now b vm = (status, b', vm')" "status \<noteq> DIAMOND_VM_RESOURCE_EXHAUSTED"
  shows "armed m g n b' vm' \<and> instructions_executed vm' = instructions_executed vm + 1"
proof -
  let ?v = "vm\<lparr>instructions_executed := u64 (instructions_executed vm + 1)\<rparr>"
  have e: "u64 (instructions_executed vm + 1) = instructions_executed vm + 1"
    using assms(1,3) by (auto simp: armed_def soft_phase_def grace_phase_def u64_id)
  obtain s1 b1 v1 where r1: "timed_check now trip_now b ?v = (s1, b1, v1)" using prod_cases3 by blast
  have live: "resource_limits_active vm" "interrupt_flag vm \<noteq> Some True" using assms(1) by (simp_all add: armed_def)
  note halves = resource_check_halves [OF assms(4) live r1, case_names stopped skipped checked]
  have s1: "s1 \<noteq> DIAMOND_VM_RESOURCE_EXHAUSTED" by (cases rule: halves) (use assms(5) in auto)
  have first: "armed m g n b1 v1 \<and> instructions_executed v1 = instructions_executed vm + 1"
  proof (cases "resource_grace_active vm")
    case True
    then have "grace_check now ?v = (s1, v1)" "b1 = b" using r1 by (auto simp: timed_check_def split: prod.splits)
    then show ?thesis
      using grace_step [OF _ s1, of now ?v v1] True assms(1) e by (auto simp: armed_def grace_phase_def soft_phase_def)
  next
    case False
    then have p: "soft_phase m g b vm" "soft_check now trip_now b ?v = (s1, b1, v1)"
      using assms(1) r1 by (auto simp: armed_def grace_phase_def timed_check_def)
    have "armed m g n b1 v1 \<and> instructions_executed v1 = instructions_executed ?v"
      by (rule soft_step [OF p(2)])
        (use p(1) assms(1-3) e False in \<open>auto simp: soft_phase_def armed_def grace_phase_def grace_allowance_def\<close>)
    then show ?thesis using e by simp
  qed
  show ?thesis
  proof (cases rule: halves)
    case (checked ok)
    have "same_clock v1 vm'" "budget_instructions b' = budget_instructions b1"
      using maybe_collect_same_clock [OF checked(4)] by (simp_all add: same_clock_def)
    then show ?thesis
      using first by (auto simp: armed_def soft_phase_def grace_phase_def same_clock_def grace_allowance_def)
  qed (use first in auto)
qed

lemma wait_step:
  assumes "armed m g n b vm" "m \<noteq> 0" "trip_count m + g + 1 < 18446744073709551616"
    "after_wait x vm = (status, vm')" "status \<noteq> DIAMOND_VM_RESOURCE_EXHAUSTED"
  shows "armed m g n b vm' \<and> instructions_executed vm' = instructions_executed vm"
proof -
  have "vm' = vm \<or> vm' = resource_limit_trip (wait_trip_clock x) vm"
    using assms(4,5) by (auto simp: after_wait_def wall_budget_after_wait_def resource_hard_stop_def Let_def split: if_splits)
  moreover have "grace_phase m g (resource_limit_trip now vm)" if "grace_phase m g vm" for now
    using that by (simp add: grace_phase_def resource_limit_trip_def Let_def)
  moreover have "grace_phase m g (resource_limit_trip now vm)" if "soft_phase m g b vm" for now
    using that assms(2,3) by (intro trip_starts_grace) (auto simp: soft_phase_def)
  ultimately show ?thesis using assms(1) by (auto simp: armed_def trip_keeps)
qed

lemma armed_bound: "armed m g n b vm \<Longrightarrow> instructions_executed vm \<le> trip_count m + g"
  by (auto simp: armed_def soft_phase_def grace_phase_def)

lemma run_program_ends:
  assumes "armed m g (sum_list (map other_instructions xs) + length xs) b vm" "m \<noteq> 0"
    "trip_count m + g + 1 < 18446744073709551616" "DIAMOND_VM_RESOURCE_EXHAUSTED \<notin> set (run_program xs b vm)"
  shows "instructions_executed vm + length xs \<le> trip_count m + g"
  using assms(1,4)
proof (induction xs arbitrary: b vm)
  case Nil
  then show ?case using armed_bound by auto
next
  case (Cons x xs)
  obtain b1 v1 where t: "between x b vm = (b1, v1)" by fastforce
  obtain w v1' where w: "after_wait x v1 = (w, v1')" by fastforce
  obtain s b2 v2 where c: "resource_check (minor_leaves x) (major_leaves x) (clock x) (trip_clock x) b1 v1' = (s, b2, v2)"
    using prod_cases3 by blast
  let ?n = "sum_list (map other_instructions xs) + length xs"
  have "armed m g (other_instructions x + Suc ?n) b vm" using Cons(2) by (simp add: add.assoc)
  then have a1: "armed m g (Suc ?n) b1 v1" using armed_same_clock between_same_clock [OF t] by blast
  have s: "w \<noteq> DIAMOND_VM_RESOURCE_EXHAUSTED" "s \<noteq> DIAMOND_VM_RESOURCE_EXHAUSTED"
    "DIAMOND_VM_RESOURCE_EXHAUSTED \<notin> set (run_program xs b2 v2)"
    using Cons(3) t w c by auto
  have aw: "armed m g (Suc ?n) b1 v1' \<and> instructions_executed v1' = instructions_executed v1"
    by (rule wait_step [OF a1 assms(2,3) w s(1)])
  have a2: "armed m g ?n b2 v2 \<and> instructions_executed v2 = instructions_executed v1' + 1"
    by (rule check_step [OF conjunct1 [OF aw] assms(2,3) c s(2)])
  have "instructions_executed v1 = instructions_executed vm" using between_same_clock [OF t] by (simp add: same_clock_def)
  then show ?case using Cons(1) [OF _ s(3)] a2 aw by simp
qed

text \<open>C31: The instruction budget ends every run: a VM with an instruction budget that starts fresh and
is not interrupted gets the unrescuable \<open>DIAMOND_VM_RESOURCE_EXHAUSTED\<close> before the budget rounded up
to the next comparison point plus its grace allowance is used up, whatever it rescues, however it
allocates and waits, and whatever other VMs add to the shared total.\<close>

theorem instruction_budget_ends_run:
  assumes "max_instructions vm \<noteq> 0" "resource_limits_active vm" "\<not> resource_grace_active vm" "interrupt_flag vm = None"
    "instructions_executed vm = 0" "instructions_flushed vm = 0"
    "trip_count (max_instructions vm) + grace_allowance vm + 1 < 18446744073709551616"
    "budget_instructions b + sum_list (map other_instructions xs) + length xs < 18446744073709551616"
    "trip_count (max_instructions vm) + grace_allowance vm < length xs"
  shows "DIAMOND_VM_RESOURCE_EXHAUSTED \<in> set (run_program xs b vm)"
proof (rule ccontr)
  assume "\<not> ?thesis"
  moreover have "armed (max_instructions vm) (grace_allowance vm) (sum_list (map other_instructions xs) + length xs) b vm"
    using assms trip_count_gt [of "max_instructions vm"] by (simp add: armed_def soft_phase_def add.assoc)
  ultimately show False using run_program_ends [OF _ assms(1,7)] assms(5,9) by fastforce
qed

section \<open>Waits and configuration\<close>

text \<open>C34: A wait never outlives the wall-clock budget: with a budget, every wait is finite, no longer
than asked, and at most two milliseconds longer than the budget has left; and when a clamped wait
has passed in full, the check after it reports the budget.\<close>

theorem wall_wait_bounded:
  assumes "0 < wall_budget_limit_ns vm" "wall_budget_limit_ns vm < 9223372036853775808"
    "0 \<le> now" "now < 9223372036854775808" "- 1 \<le> timeout_ms" "timeout_ms \<le> INT_MAX"
    "bound_wait_by_wall_budget now vm timeout_ms = (wait, bounded)"
  shows "0 \<le> wait \<and> wait \<le> INT_MAX \<and> (0 \<le> timeout_ms \<longrightarrow> wait \<le> timeout_ms) \<and>
    wait * 1000000 \<le> max 0 (wall_budget_limit_ns vm - now) + 2000000 \<and>
    (bounded \<and> wait < INT_MAX \<and> now + wait * 1000000 \<le> later \<longrightarrow>
       fst (wall_budget_after_wait later trip_now vm) =
         (if max_wall_nanoseconds vm \<noteq> 0 then DIAMOND_VM_RESOURCE_LIMIT_ERROR else DIAMOND_VM_RESOURCE_EXHAUSTED))"
proof -
  let ?limit = "wall_budget_limit_ns vm"
  define remaining where "remaining = (if ?limit - now \<le> 0 then 0 else (?limit - now + 999999) div 1000000)"
  have s: "s64 (?limit - now) = ?limit - now" using assms(1-4) by (intro s64_id) simp_all
  have "\<not> ?limit - now \<le> 0 \<Longrightarrow> s64 (?limit - now + 999999) = ?limit - now + 999999"
    using assms(1-4) by (intro s64_id) simp_all
  then have r: "(if s64 (?limit - now) \<le> 0 then 0 else s64 (s64 (?limit - now) + 999999) div 1000000) = remaining"
    using s by (simp add: remaining_def)
  have m: "0 \<le> remaining" "?limit - now \<le> remaining * 1000000" "remaining * 1000000 \<le> max 0 (?limit - now) + 1000000"
    by (auto simp: remaining_def)
  have w: "(wait, bounded) = (if timeout_ms \<ge> 0 \<and> timeout_ms \<le> remaining + 1 then (timeout_ms, False)
      else (if remaining + 1 > INT_MAX then INT_MAX else remaining + 1, True))"
    using assms(1,7) unfolding bound_wait_by_wall_budget_def Let_def r by simp
  have i: "0 \<le> INT_MAX" by (simp add: INT_MAX_def)
  have basic: "0 \<le> wait" "wait \<le> INT_MAX" "0 \<le> timeout_ms \<longrightarrow> wait \<le> timeout_ms" "wait \<le> remaining + 1"
    using w m(1) i assms(5,6) by (auto split: if_splits)
  have "wait * 1000000 \<le> (remaining + 1) * 1000000" using basic(4) by simp
  then have "wait * 1000000 \<le> max 0 (?limit - now) + 2000000" using m(3) by (simp add: algebra_simps)
  moreover have "?limit < later" if "bounded" "wait < INT_MAX" "now + wait * 1000000 \<le> later"
  proof -
    have "wait = remaining + 1" using w that by (auto split: if_splits)
    then show ?thesis using that(3) m(2) by (simp add: algebra_simps)
  qed
  ultimately show ?thesis
    using basic assms(1) by (auto simp: wall_budget_after_wait_def resource_hard_stop_def Let_def)
qed

lemma strtoull_digits:
  assumes "s \<noteq> []" "list_all is_digit s"
  shows "strtoull s = (min ULONG_MAX (decimal_val s), [])"
proof -
  obtain c cs where s: "s = c # cs" "is_digit c" using assms by (cases s) auto
  have "\<not> is_space c" "c \<noteq> CHR ''-''" "c \<noteq> CHR ''+''"
    using s(2) by (auto simp: is_digit_def is_space_def byte_def)
  moreover have "takeWhile is_digit s = s" "dropWhile is_digit s = []"
    using assms(2) by (simp_all add: list_all_iff)
  ultimately show ?thesis using s(1) by (simp add: strtoull_def Let_def min_def)
qed

lemma strtoull_negative:
  assumes "s \<noteq> []" "list_all is_digit s"
  shows "strtoull (CHR ''-'' # s) = (if decimal_val s > ULONG_MAX then ULONG_MAX else usub64 0 (decimal_val s), [])"
proof -
  have t: "takeWhile is_digit s = s" "dropWhile is_digit s = []" "\<not> is_space (CHR ''-'')"
    using assms(2) by (simp_all add: list_all_iff is_space_def byte_def)
  show ?thesis using assms(1) by (simp add: strtoull_def Let_def t)
qed

text \<open>C36: How a budget variable is read: a decimal number is the limit, saturating at \<open>SIZE_MAX\<close> for
counts, zero leaves the limit unset, and a number of milliseconds too large for nanoseconds leaves it
unset. A negative count is not refused: it is read as the limit 2^64 minus its magnitude, and the
VM then registers and checks a budget.\<close>

theorem budget_configuration:
  assumes "s \<noteq> []" "list_all is_digit s" "0 < decimal_val s"
  shows "read_count (Some s) unset = min SIZE_MAX (decimal_val s) \<and>
    read_milliseconds (Some s) unset_ns =
      (if decimal_val s \<le> INT64_MAX div 1000000 then int (decimal_val s) * 1000000 else unset_ns) \<and>
    read_count (Some ''0'') unset = unset \<and> read_count (Some []) unset = unset \<and> read_count None unset = unset \<and>
    (decimal_val s \<le> SIZE_MAX \<longrightarrow> read_count (Some (CHR ''-'' # s)) unset = 18446744073709551616 - decimal_val s)"
proof -
  have z: "strtoull ''0'' = (0, [])"
    using strtoull_digits [of "''0''"] by (simp add: is_digit_def decimal_val_def)
  have neg: "usub64 0 (decimal_val s) = 18446744073709551616 - decimal_val s" if "decimal_val s \<le> SIZE_MAX"
    using that assms(3) by (simp add: usub64_def SIZE_MAX_def u64_id)
  show ?thesis
    using assms strtoull_digits [OF assms(1,2)] strtoull_negative [OF assms(1,2)] z neg
    by (auto simp: read_count_def read_milliseconds_def read_limit_def ULONG_MAX_def SIZE_MAX_def INT64_MAX_def min_def)
qed

section \<open>Concrete runs\<close>

definition example_vm :: DiamondVm where
  "example_vm =
     \<lparr>max_instructions = 0, max_wall_nanoseconds = 0, max_memory_bytes = 0, grace_instructions = 0,
      grace_wall_nanoseconds = 0, grace_memory_bytes = 0, instructions_executed = 0, start_time_ns = 0,
      resource_limits_active = False, resource_grace_active = False, hard_stop_instruction_count = 0,
      hard_stop_time_ns = 0, memory_recheck = False, memory_limit_tripped = False, memory_hard_stopped = False,
      budgets_registered = False, instructions_flushed = 0, memory_published = 0, interrupt_flag = None,
      bytes_allocated = 0, bytes_allocated_at_last_minor_gc = 0, minor_gc_threshold_bytes = 1000, next_gc = 2048,
      stress_gc = False, stress_minor_gc = False, vm_error = []\<rparr>"

definition example_env :: "string \<Rightarrow> string option" where
  "example_env name = (if name = ''DIAMOND_MAX_MEMORY_BYTES'' then Some ''500'' else None)"

definition budgeted_vm :: DiamondVm where
  "budgeted_vm = example_vm\<lparr>max_memory_bytes := 500, resource_limits_active := True, budgets_registered := True\<rparr>"

lemma example_init:
  "init_budgets example_env 7 no_budgets example_vm = (no_budgets\<lparr>budget_live_vms := 1\<rparr>, budgeted_vm)"
  "init_budgets example_env 8 (no_budgets\<lparr>budget_live_vms := 1\<rparr>) example_vm = (no_budgets\<lparr>budget_live_vms := 2\<rparr>, budgeted_vm)"
proof -
  have "strtoull ''500'' = (500, [])"
    using strtoull_digits [of "''500''"] by (simp add: is_digit_def decimal_val_def ULONG_MAX_def)
  then show "init_budgets example_env 7 no_budgets example_vm = (no_budgets\<lparr>budget_live_vms := 1\<rparr>, budgeted_vm)"
    "init_budgets example_env 8 (no_budgets\<lparr>budget_live_vms := 1\<rparr>) example_vm = (no_budgets\<lparr>budget_live_vms := 2\<rparr>, budgeted_vm)"
    by (simp_all add: init_budgets_def budget_register_def example_vm_def example_env_def budgeted_vm_def no_budgets_def
        read_count_def read_milliseconds_def read_limit_def SIZE_MAX_def u64_def Let_def)
qed

definition busy_vm :: DiamondVm where
  "busy_vm = budgeted_vm\<lparr>bytes_allocated := 600\<rparr>"

text \<open>A second VM with 600 bytes, started while the first one exists; both have a limit of 500 bytes.\<close>

lemma busy_run:
  "budget_run [Started, Started, Unrelated] (no_budgets, []) (no_budgets\<lparr>budget_live_vms := 2\<rparr>, [budgeted_vm, busy_vm])"
proof -
  let ?b1 = "no_budgets\<lparr>budget_live_vms := 1\<rparr>" and ?b2 = "no_budgets\<lparr>budget_live_vms := 2\<rparr>"
  have f: "fresh_vm example_vm" "budgets_registered budgeted_vm" by (simp_all add: fresh_vm_def example_vm_def budgeted_vm_def)
  have s1: "budget_step Started (no_budgets, []) (?b1, [budgeted_vm])"
    using vm_init [OF f(1) _ example_init(1) f(2), of "[]"] by simp
  have s2: "budget_step Started (?b1, [budgeted_vm]) (?b2, [budgeted_vm, budgeted_vm])"
    using vm_init [OF f(1) _ example_init(2) f(2), of "[budgeted_vm]"] by simp
  have s3: "budget_step Unrelated (?b2, [budgeted_vm, budgeted_vm]) (?b2, [budgeted_vm, busy_vm])"
    using vm_mutate [of 1 "[budgeted_vm, budgeted_vm]" ?b2 600] by (simp add: busy_vm_def)
  show ?thesis using run_step [OF run_step [OF run_step [OF run_start s1] s2] s3] by simp
qed

lemma busy_check:
  "maybe_collect id id (no_budgets\<lparr>budget_live_vms := 2\<rparr>) busy_vm =
     (False, no_budgets\<lparr>budget_live_vms := 2, budget_bytes := 600\<rparr>,
      busy_vm\<lparr>memory_published := 600, memory_limit_tripped := True, max_memory_bytes := 4194804\<rparr>)"
  by (simp add: maybe_collect_def run_collectors_def busy_vm_def budgeted_vm_def example_vm_def no_budgets_def
      usub64_def u64_def s64_def Let_def memory_grace_def DIAMOND_MEMORY_GRACE_MINIMUM_BYTES_def SIZE_MAX_def)

definition tripped_vm :: DiamondVm where
  "tripped_vm = busy_vm\<lparr>memory_published := 600, memory_limit_tripped := True, max_memory_bytes := 4194804\<rparr>"

lemma tripped_run:
  "budget_run [Started, Started, Unrelated, Checked 1 600] (no_budgets, [])
     (no_budgets\<lparr>budget_live_vms := 2, budget_bytes := 600\<rparr>, [budgeted_vm, tripped_vm])"
proof -
  let ?b2 = "no_budgets\<lparr>budget_live_vms := 2\<rparr>"
  have "budget_step (check_event 1 busy_vm tripped_vm) (?b2, [budgeted_vm, busy_vm])
      (?b2\<lparr>budget_bytes := 600\<rparr>, [budgeted_vm, tripped_vm])"
    using vm_allocate [of 1 "[budgeted_vm, busy_vm]" id id ?b2 False] busy_check by (simp add: tripped_vm_def)
  moreover have "check_event 1 busy_vm tripped_vm = Checked 1 600"
    by (simp add: check_event_def tripped_vm_def busy_vm_def budgeted_vm_def example_vm_def)
  ultimately show ?thesis using run_step [OF busy_run] by simp
qed

theorem budgets_refine_ledger_witness:
  "represents (no_budgets\<lparr>budget_live_vms := 2, budget_bytes := 600\<rparr>, [budgeted_vm, tripped_vm])
     \<lparr>closed = 0, accounts = [\<lparr>used = 0, charged = 0, held = 0\<rparr>, \<lparr>used = 0, charged = 0, held = 600\<rparr>]\<rparr>"
  using budgets_refine_ledger [OF tripped_run] by (simp add: empty_ledger_def update_account_def)

text \<open>The idle VM is refused because of the 600 bytes of the other one.\<close>

theorem memory_budget_process_wide_witness:
  "\<exists>b' vm'. maybe_collect id id (no_budgets\<lparr>budget_live_vms := 2, budget_bytes := 600\<rparr>) budgeted_vm = (False, b', vm') \<and>
     bytes_allocated vm' = 0 \<and> budget_bytes b' = 600 \<and> memory_limit_tripped vm'"
proof -
  let ?b = "no_budgets\<lparr>budget_live_vms := 2, budget_bytes := 600\<rparr>"
  obtain ok b' vm' where r: "maybe_collect id id ?b ([budgeted_vm, tripped_vm] ! 0) = (ok, b', vm')"
    using prod_cases3 by blast
  then have zero: "bytes_allocated vm' = 0"
    by (auto simp: maybe_collect_def run_collectors_def budgeted_vm_def example_vm_def usub64_def u64_def Let_def
        diamond_vm_collect_minor_def diamond_vm_collect_def split: if_splits)
  have vm: "max_memory_bytes budgeted_vm = 500" "\<not> memory_limit_tripped budgeted_vm"
    by (simp_all add: budgeted_vm_def example_vm_def)
  have held: "held_elsewhere 0 (fold ledger_after [Started, Started, Unrelated, Checked 1 600] empty_ledger) = 600"
    by (simp add: held_elsewhere_def empty_ledger_def update_account_def)
  show ?thesis
    using memory_budget_process_wide [OF tripped_run _ _ r refl] r zero vm held by simp
qed

theorem instruction_budget_ends_run_witness:
  "DIAMOND_VM_RESOURCE_EXHAUSTED \<in> set (run_program
     (replicate 6000 \<lparr>other_instructions = 2, other_bytes = 0, bytes_now = 10, allocates = True, grows = False,
        waits = True, wait_clock = 5, wait_trip_clock = 6, clock = 1, trip_clock = 1, minor_leaves = id, major_leaves = id\<rparr>)
     no_budgets (example_vm\<lparr>max_instructions := 100, grace_instructions := 50, resource_limits_active := True\<rparr>))"
  by (rule instruction_budget_ends_run)
    (simp_all add: example_vm_def no_budgets_def trip_count_def grace_allowance_def map_replicate sum_list_replicate)

theorem wall_wait_bounded_witness:
  "bound_wait_by_wall_budget 5000000 (example_vm\<lparr>max_wall_nanoseconds := 20000000\<rparr>) (- 1) = (16, True) \<and>
   fst (wall_budget_after_wait 21000000 21000000 (example_vm\<lparr>max_wall_nanoseconds := 20000000\<rparr>)) = DIAMOND_VM_RESOURCE_LIMIT_ERROR"
proof -
  have r: "bound_wait_by_wall_budget 5000000 (example_vm\<lparr>max_wall_nanoseconds := 20000000\<rparr>) (- 1) = (16, True)"
    by (simp add: bound_wait_by_wall_budget_def wall_budget_limit_ns_def example_vm_def s64_def INT_MAX_def Let_def)
  show ?thesis
    using wall_wait_bounded [OF _ _ _ _ _ _ r, where later = 21000000 and trip_now = 21000000] r
    by (simp add: wall_budget_limit_ns_def example_vm_def s64_def INT_MAX_def)
qed

theorem budget_configuration_witness:
  "read_count (Some ''12'') 0 = 12 \<and> read_count (Some ''-12'') 0 = 18446744073709551604"
  using budget_configuration [of "''12''" 0 0] by (simp add: is_digit_def decimal_val_def SIZE_MAX_def min_def)

end
