(* ===== verification/Interrupts.thy ===== *)
theory Interrupts
  imports Limits
begin

text \<open>
  Threads, interrupts and blocking waits (\<open>src/src/vm_limits.c\<close>).

  \<^item> The live-thread slots: each thread that creates another one runs the compare-and-swap loop of
    \<open>diamond_reserve_thread_slot\<close>, one atomic operation per step; \<open>slot_step\<close> interleaves them with the
    slots being given back.
  \<^item> The native call a VM is blocked in: \<open>blocking_call\<close> is what the lock protects, with the calls
    that were cancelled; \<open>interrupt_step\<close> interleaves the VM thread with the thread that interrupts it.
  \<^item> The waits in slices: what each turn of a loop observes (the flag, the clock, what \<open>poll\<close> returns)
    is an argument list, and a loop that has not returned when the list ends is \<open>None\<close>.
\<close>

section \<open>Definitions\<close>

subsection \<open>Live-thread slots\<close>

definition DIAMOND_MAX_THREADS :: nat where
  "DIAMOND_MAX_THREADS = 64"

definition diamond_live_thread_limit :: "string option \<Rightarrow> nat" where
  "diamond_live_thread_limit env =
     (case env of
        None \<Rightarrow> DIAMOND_MAX_THREADS
      | Some s \<Rightarrow>
          (if s = [] then DIAMOND_MAX_THREADS
           else let (parsed, rest) = strtoull s
                in if rest = s \<or> rest \<noteq> [] \<or> parsed = 0 \<or> parsed > DIAMOND_MAX_THREADS then DIAMOND_MAX_THREADS
                   else parsed))"

text \<open>Where a thread is: outside, in the loop with the \<open>current\<close> it last read, holding a slot, refused,
or refused and counted until its half-made child is freed.\<close>

datatype slot_state = Outside | Trying nat | Holding | Refused | Undoing

definition load_count :: "nat \<Rightarrow> slot_state" where
  "load_count count = Trying count"

text \<open>One turn of the loop; a weak compare-and-swap may fail although the count is \<open>current\<close>.\<close>

definition reserve_turn :: "nat \<Rightarrow> bool \<Rightarrow> nat \<Rightarrow> nat \<Rightarrow> nat \<times> slot_state" where
  "reserve_turn limit spurious count current =
     (if current \<ge> limit then (count, Refused)
      else if count = current \<and> \<not> spurious then (u64 (count + 1), Holding)
      else (count, Trying count))"

definition release_slot :: "nat \<Rightarrow> nat" where
  "release_slot count = usub64 count 1"

inductive slot_step :: "nat \<Rightarrow> nat \<times> slot_state list \<Rightarrow> nat \<times> slot_state list \<Rightarrow> bool" for limit :: nat where
  slot_load: "i < length ts \<Longrightarrow> ts ! i = Outside \<Longrightarrow> slot_step limit (count, ts) (count, ts[i := load_count count])"
| slot_turn: "i < length ts \<Longrightarrow> ts ! i = Trying current \<Longrightarrow> reserve_turn limit spurious count current = (count', t) \<Longrightarrow>
    slot_step limit (count, ts) (count', ts[i := t])"
| slot_release: "i < length ts \<Longrightarrow> ts ! i = Holding \<Longrightarrow> slot_step limit (count, ts) (release_slot count, ts[i := Outside])"
| slot_refused: "i < length ts \<Longrightarrow> ts ! i = Refused \<Longrightarrow> slot_step limit (count, ts) (count, ts[i := Outside])"
| slot_undo: "i < length ts \<Longrightarrow> ts ! i = Refused \<Longrightarrow> slot_step limit (count, ts) (u64 (count + 1), ts[i := Undoing])"
| slot_undone: "i < length ts \<Longrightarrow> ts ! i = Undoing \<Longrightarrow> slot_step limit (count, ts) (release_slot count, ts[i := Outside])"

inductive_cases slot_step_cases: "slot_step limit (count, ts) (count', ts')"

subsection \<open>Blocking native calls\<close>

definition DIAMOND_BLOCKING_SQLITE :: nat where
  "DIAMOND_BLOCKING_SQLITE = 1"

definition DIAMOND_BLOCKING_POSTGRES :: nat where
  "DIAMOND_BLOCKING_POSTGRES = 2"

definition DIAMOND_BLOCKING_MYSQL :: nat where
  "DIAMOND_BLOCKING_MYSQL = 3"

text \<open>\<open>blocking_flag\<close> is the VM's interrupt flag, none when it has no flag; a null handle is 0. \<open>cancelled\<close>
are the handles passed to \<open>sqlite3_interrupt\<close>, \<open>PQcancel\<close> or \<open>shutdown\<close> so far.\<close>

record blocking_call =
  blocking_flag :: "bool option"
  blocking_call_kind :: nat
  blocking_call_handle :: nat
  cancelled :: "nat list"

definition vm_blocking_call_begin :: "blocking_call \<Rightarrow> nat \<Rightarrow> nat \<Rightarrow> bool \<times> blocking_call" where
  "vm_blocking_call_begin vm kind handle =
     (case blocking_flag vm of
        None \<Rightarrow> (True, vm)
      | Some interrupted \<Rightarrow>
          (\<not> interrupted,
           if \<not> interrupted then vm\<lparr>blocking_call_kind := kind, blocking_call_handle := handle\<rparr> else vm))"

definition vm_blocking_call_end :: "blocking_call \<Rightarrow> blocking_call" where
  "vm_blocking_call_end vm =
     (if blocking_flag vm = None then vm else vm\<lparr>blocking_call_kind := 0, blocking_call_handle := 0\<rparr>)"

definition vm_blocking_call_interrupt :: "blocking_call \<Rightarrow> blocking_call" where
  "vm_blocking_call_interrupt vm =
     (if blocking_call_handle vm \<noteq> 0
      then if blocking_call_kind vm = DIAMOND_BLOCKING_SQLITE
             then vm\<lparr>cancelled := cancelled vm @ [blocking_call_handle vm]\<rparr>
           else if blocking_call_kind vm = DIAMOND_BLOCKING_POSTGRES
             then vm\<lparr>cancelled := cancelled vm @ [blocking_call_handle vm]\<rparr>
           else if blocking_call_kind vm = DIAMOND_BLOCKING_MYSQL
             then vm\<lparr>cancelled := cancelled vm @ [blocking_call_handle vm]\<rparr>
           else vm
      else vm)"

text \<open>\<open>supervisor_interrupt_child\<close> and \<open>thread_interrupt\<close>: set the flag, then cancel under the lock.\<close>

definition store_interrupt :: "blocking_call \<Rightarrow> blocking_call" where
  "store_interrupt vm = (case blocking_flag vm of None \<Rightarrow> vm | Some _ \<Rightarrow> vm\<lparr>blocking_flag := Some True\<rparr>)"

record DiamondSupervisorChild =
  running_vm :: "(DiamondVm \<times> blocking_call) option"
  child_interrupt :: bool

definition supervisor_interrupt_child :: "DiamondSupervisorChild \<Rightarrow> DiamondSupervisorChild" where
  "supervisor_interrupt_child child =
     child\<lparr>running_vm := map_option (\<lambda>(vm, call).
              (vm\<lparr>resource_limits_active := True,
                  interrupt_flag := map_option (\<lambda>_. True) (interrupt_flag vm)\<rparr>,
               vm_blocking_call_interrupt (store_interrupt call))) (running_vm child),
           child_interrupt := True\<rparr>"

record DiamondThread =
  spawned :: bool
  joined :: bool
  child_vm :: "(DiamondVm \<times> blocking_call) option"
  own_flag :: bool
  thread_interrupt_flag :: bool

text \<open>\<open>own_flag\<close>: the child VM's interrupt flag is this thread's.\<close>

definition thread_interrupt :: "DiamondThread option \<Rightarrow> DiamondThread option" where
  "thread_interrupt thread =
     (case thread of
        None \<Rightarrow> None
      | Some t \<Rightarrow>
          (if \<not> spawned t \<or> joined t then Some t
           else (case child_vm t of
                   None \<Rightarrow> Some t
                 | Some (vm, call) \<Rightarrow>
                     (if \<not> own_flag t then Some t
                      else Some (t\<lparr>child_vm :=
                                     Some (vm\<lparr>resource_limits_active := True, interrupt_flag := Some True\<rparr>,
                                           vm_blocking_call_interrupt (store_interrupt call)),
                                   thread_interrupt_flag := True\<rparr>)))))"

text \<open>The interrupting thread: it has not begun, has set the flag, or is done.\<close>

datatype interrupter = Waiting | Flagged | Finished

inductive interrupt_step :: "blocking_call \<times> interrupter \<Rightarrow> blocking_call \<times> interrupter \<Rightarrow> bool" where
  call_begin: "kind \<in> {DIAMOND_BLOCKING_SQLITE, DIAMOND_BLOCKING_POSTGRES, DIAMOND_BLOCKING_MYSQL} \<Longrightarrow> handle \<noteq> 0 \<Longrightarrow>
    blocking_call_handle vm = 0 \<Longrightarrow> vm_blocking_call_begin vm kind handle = (ok, vm') \<Longrightarrow>
    interrupt_step (vm, p) (vm', p)"
| call_end: "interrupt_step (vm, p) (vm_blocking_call_end vm, p)"
| set_flag: "interrupt_step (vm, Waiting) (store_interrupt vm, Flagged)"
| cancel_call: "interrupt_step (vm, Flagged) (vm_blocking_call_interrupt vm, Finished)"

subsection \<open>Waits in slices\<close>

definition DIAMOND_INTERRUPT_SLICE_MS :: int where
  "DIAMOND_INTERRUPT_SLICE_MS = 20"

text \<open>Per turn: whether the flag is set, and \<open>poll\<close> as a function of its timeout. The result is the
status and the timeouts passed to \<open>poll\<close>.\<close>

fun wait_fd_loop :: "(bool \<times> (int \<Rightarrow> int)) list \<Rightarrow> int list \<Rightarrow> (DiamondVmStatus \<times> int list) option" where
  "wait_fd_loop [] slices = None"
| "wait_fd_loop ((flag, poll) # turns) slices =
     (if flag then Some (DIAMOND_VM_INTERRUPTED, slices)
      else if poll DIAMOND_INTERRUPT_SLICE_MS \<noteq> 0 then Some (DIAMOND_VM_OK, slices @ [DIAMOND_INTERRUPT_SLICE_MS])
      else wait_fd_loop turns (slices @ [DIAMOND_INTERRUPT_SLICE_MS]))"

definition wait_fd_interruptible ::
    "DiamondVm \<Rightarrow> (bool \<times> (int \<Rightarrow> int)) list \<Rightarrow> (DiamondVmStatus \<times> int list) option" where
  "wait_fd_interruptible vm turns =
     (if interrupt_flag vm = None then Some (DIAMOND_VM_OK, []) else wait_fd_loop turns [])"

text \<open>Per turn: the flag, the clock, and \<open>poll\<close> as a function of its timeout. The result is the status,
the number of ready descriptors and the timeouts passed to \<open>poll\<close>.\<close>

definition poll_slice :: "int \<Rightarrow> int \<Rightarrow> int" where
  "poll_slice timeout_ms remaining_ns =
     (let remaining_ms = s64 (remaining_ns + 999999) div 1000000
      in if timeout_ms \<ge> 0 \<and> remaining_ms < DIAMOND_INTERRUPT_SLICE_MS then remaining_ms
         else DIAMOND_INTERRUPT_SLICE_MS)"

fun poll_loop :: "int \<Rightarrow> int \<Rightarrow> (bool \<times> int \<times> (int \<Rightarrow> int)) list \<Rightarrow> int list \<Rightarrow> (DiamondVmStatus \<times> int \<times> int list) option" where
  "poll_loop timeout_ms deadline_ns [] slices = None"
| "poll_loop timeout_ms deadline_ns ((flag, now, poll) # turns) slices =
     (if flag then Some (DIAMOND_VM_INTERRUPTED, 0, slices)
      else if timeout_ms \<ge> 0 \<and> s64 (deadline_ns - now) \<le> 0 then Some (DIAMOND_VM_OK, poll 0, slices @ [0])
      else let slice = poll_slice timeout_ms (s64 (deadline_ns - now))
           in if poll slice \<noteq> 0 then Some (DIAMOND_VM_OK, poll slice, slices @ [slice])
              else poll_loop timeout_ms deadline_ns turns (slices @ [slice]))"

definition poll_interruptible ::
    "DiamondVm \<Rightarrow> int \<Rightarrow> int \<Rightarrow> (int \<Rightarrow> int) \<Rightarrow> (bool \<times> int \<times> (int \<Rightarrow> int)) list \<Rightarrow> (DiamondVmStatus \<times> int \<times> int list) option" where
  "poll_interruptible vm now timeout_ms poll turns =
     (if interrupt_flag vm = None then Some (DIAMOND_VM_OK, poll timeout_ms, [timeout_ms])
      else poll_loop timeout_ms (if timeout_ms < 0 then 0 else s64 (now + timeout_ms * 1000000)) turns [])"

text \<open>The wait on a channel's condition: how long it asked to wait, none for without bound, and what it
returns; \<open>timed_out\<close> says whether a timed wait ran out, \<open>now\<close> and \<open>later\<close> are the monotonic clock before
and after.\<close>

definition channel_wait_bounded ::
    "int \<Rightarrow> int \<Rightarrow> int \<Rightarrow> bool \<Rightarrow> bool \<Rightarrow> bool \<Rightarrow> DiamondVm \<Rightarrow> int option \<times> DiamondVmStatus \<times> DiamondVm" where
  "channel_wait_bounded now later trip_now flag_before flag_after timed_out vm =
     (let (milliseconds, bounded) = bound_wait_by_wall_budget now vm (- 1)
      in if interrupt_flag vm \<noteq> None \<and> flag_before then (Some 0, DIAMOND_VM_INTERRUPTED, vm)
         else let milliseconds = (if interrupt_flag vm \<noteq> None \<and> (\<not> bounded \<or> milliseconds > DIAMOND_INTERRUPT_SLICE_MS)
                                  then DIAMOND_INTERRUPT_SLICE_MS else milliseconds);
                  bounded = (bounded \<or> interrupt_flag vm \<noteq> None)
              in if \<not> bounded then (None, DIAMOND_VM_OK, vm)
                 else if timed_out
                 then if interrupt_flag vm \<noteq> None \<and> flag_after then (Some milliseconds, DIAMOND_VM_INTERRUPTED, vm)
                      else let (status, vm) = wall_budget_after_wait later trip_now vm in (Some milliseconds, status, vm)
                 else (Some milliseconds, DIAMOND_VM_OK, vm))"

section \<open>Slots\<close>

definition slots_taken :: "slot_state list \<Rightarrow> nat" where
  "slots_taken ts = length (filter (\<lambda>t. t = Holding) ts)"

definition slots_undoing :: "slot_state list \<Rightarrow> nat" where
  "slots_undoing ts = length (filter (\<lambda>t. t = Undoing) ts)"

definition slots_ok :: "nat \<Rightarrow> nat \<times> slot_state list \<Rightarrow> bool" where
  "slots_ok limit s \<longleftrightarrow> (case s of (count, ts) \<Rightarrow> count = slots_taken ts + slots_undoing ts \<and> slots_taken ts \<le> limit)"

lemma filter_update_length:
  "i < length xs \<Longrightarrow> length (filter P (xs[i := y])) + (if P (xs ! i) then 1 else 0) = length (filter P xs) + (if P y then 1 else 0)"
proof (induction xs arbitrary: i)
  case (Cons x xs)
  then show ?case by (cases i) auto
qed simp

lemma taken_update: "i < length ts \<Longrightarrow> slots_taken (ts[i := t]) + (if ts ! i = Holding then 1 else 0) =
    slots_taken ts + (if t = Holding then 1 else 0)"
  unfolding slots_taken_def by (rule filter_update_length)

lemma undoing_update: "i < length ts \<Longrightarrow> slots_undoing (ts[i := t]) + (if ts ! i = Undoing then 1 else 0) =
    slots_undoing ts + (if t = Undoing then 1 else 0)"
  unfolding slots_undoing_def by (rule filter_update_length)

lemma slots_bound: "slots_taken ts + slots_undoing ts \<le> length ts"
  unfolding slots_taken_def slots_undoing_def by (induction ts) auto

lemma slot_step_ok:
  assumes "slot_step limit s s'" "slots_ok limit s" "length (snd s) < 18446744073709551615"
  shows "slots_ok limit s' \<and> length (snd s') = length (snd s)"
  using assms(1)
proof cases
  case (slot_load i ts count)
  then show ?thesis
    using assms(2) taken_update [of i ts "load_count count"] undoing_update [of i ts "load_count count"]
    by (simp add: slots_ok_def load_count_def)
next
  case (slot_turn i ts current spurious count count' t)
  have "count \<le> length ts" using slot_turn assms(2) slots_bound [of ts] by (simp add: slots_ok_def)
  then have "u64 (count + 1) = count + 1" using assms(3) slot_turn(1) by (simp add: u64_id)
  then show ?thesis
    using slot_turn assms(2) taken_update [of i ts t] undoing_update [of i ts t]
    by (auto simp: slots_ok_def reserve_turn_def split: if_splits)
next
  case (slot_release i ts count)
  have "count \<le> length ts" using slot_release assms(2) slots_bound [of ts] by (simp add: slots_ok_def)
  moreover have "0 < slots_taken ts" using taken_update [of i ts Outside] slot_release by simp
  ultimately have "release_slot count = count - 1"
    using assms(2,3) slot_release(1) by (simp add: slots_ok_def release_slot_def usub64_id)
  then show ?thesis
    using slot_release assms(2) taken_update [of i ts Outside] undoing_update [of i ts Outside] by (simp add: slots_ok_def)
next
  case (slot_refused i ts count)
  then show ?thesis
    using assms(2) taken_update [of i ts Outside] undoing_update [of i ts Outside] by (simp add: slots_ok_def)
next
  case (slot_undo i ts count)
  have "count \<le> length ts" using slot_undo assms(2) slots_bound [of ts] by (simp add: slots_ok_def)
  then have "u64 (count + 1) = count + 1" using assms(3) slot_undo(1) by (simp add: u64_id)
  then show ?thesis
    using slot_undo assms(2) taken_update [of i ts Undoing] undoing_update [of i ts Undoing] by (simp add: slots_ok_def)
next
  case (slot_undone i ts count)
  have "count \<le> length ts" using slot_undone assms(2) slots_bound [of ts] by (simp add: slots_ok_def)
  moreover have "0 < slots_undoing ts" using undoing_update [of i ts Outside] slot_undone by simp
  ultimately have "release_slot count = count - 1"
    using assms(2,3) slot_undone(1) by (simp add: slots_ok_def release_slot_def usub64_id)
  then show ?thesis
    using slot_undone assms(2) taken_update [of i ts Outside] undoing_update [of i ts Outside] by (simp add: slots_ok_def)
qed

lemma slot_steps_ok:
  assumes "(slot_step limit)\<^sup>*\<^sup>* s s'" "slots_ok limit s" "length (snd s) < 18446744073709551615"
  shows "slots_ok limit s' \<and> length (snd s') = length (snd s)"
  using assms
proof (induction rule: rtranclp_induct)
  case (step s' s'')
  then show ?case using slot_step_ok [of limit s' s''] by simp
qed simp

lemma live_limit_bound: "0 < diamond_live_thread_limit env \<and> diamond_live_thread_limit env \<le> DIAMOND_MAX_THREADS"
  by (auto simp: diamond_live_thread_limit_def DIAMOND_MAX_THREADS_def split: option.splits prod.splits)

text \<open>C33: However the creation of threads interleaves, with spurious failures of the compare-and-swap
included, the threads that hold a live-thread slot never exceed the configured limit, which is between
1 and 64, and the counter is the number of slots held or being given back, so it never wraps below
zero.\<close>

theorem thread_slots_bounded:
  assumes "(slot_step (diamond_live_thread_limit env))\<^sup>*\<^sup>* (0, replicate n Outside) (count, ts)" "n < 18446744073709551615"
  shows "slots_taken ts \<le> diamond_live_thread_limit env \<and> diamond_live_thread_limit env \<le> 64 \<and>
    0 < diamond_live_thread_limit env \<and> count = slots_taken ts + slots_undoing ts"
proof -
  have "slots_ok (diamond_live_thread_limit env) (0, replicate n Outside)"
    by (simp add: slots_ok_def slots_taken_def slots_undoing_def)
  then show ?thesis
    using slot_steps_ok [OF assms(1)] assms(2) live_limit_bound [of env]
    by (simp add: slots_ok_def DIAMOND_MAX_THREADS_def)
qed

theorem thread_slots_bounded_witness:
  "(slot_step (diamond_live_thread_limit None))\<^sup>*\<^sup>* (0, replicate 2 Outside) (1, [Holding, Outside]) \<and>
   slots_taken [Holding, Outside] = 1 \<and> slots_taken [Holding, Outside] \<le> diamond_live_thread_limit None"
proof -
  have s1: "slot_step 64 (0, [Outside, Outside]) (0, [Trying 0, Outside])"
    using slot_load [of 0 "[Outside, Outside]" 64 0] by (simp add: load_count_def)
  have "reserve_turn 64 False 0 0 = (1, Holding)" by (simp add: reserve_turn_def u64_def)
  then have s2: "slot_step 64 (0, [Trying 0, Outside]) (1, [Holding, Outside])"
    using slot_turn [of 0 "[Trying 0, Outside]" 0 64 False 0 1 Holding] by simp
  have "diamond_live_thread_limit None = 64" by (simp add: diamond_live_thread_limit_def DIAMOND_MAX_THREADS_def)
  moreover have "(slot_step 64)\<^sup>*\<^sup>* (0, replicate 2 Outside) (1, [Holding, Outside])"
    using s1 s2 by (simp add: numeral_2_eq_2)
  ultimately show ?thesis
    using thread_slots_bounded [of None 2 1 "[Holding, Outside]"] by (simp add: slots_undoing_def)
qed

section \<open>Interrupts\<close>

definition interrupt_ok :: "blocking_call \<times> interrupter \<Rightarrow> bool" where
  "interrupt_ok s \<longleftrightarrow> (case s of (vm, p) \<Rightarrow>
     (\<exists>f. blocking_flag vm = Some f \<and> (p \<noteq> Waiting \<longrightarrow> f)) \<and>
     (blocking_call_handle vm \<noteq> 0 \<longrightarrow>
        blocking_call_kind vm \<in> {DIAMOND_BLOCKING_SQLITE, DIAMOND_BLOCKING_POSTGRES, DIAMOND_BLOCKING_MYSQL}) \<and>
     (p = Finished \<and> blocking_call_handle vm \<noteq> 0 \<longrightarrow> blocking_call_handle vm \<in> set (cancelled vm)))"

lemma interrupt_step_ok:
  assumes "interrupt_step s s'" "interrupt_ok s"
  shows "interrupt_ok s'"
  using assms(1)
proof cases
  case (call_begin kind handle vm ok vm' p)
  then show ?thesis
    using assms(2) by (auto simp: interrupt_ok_def vm_blocking_call_begin_def split: option.splits if_splits)
qed (use assms(2) in \<open>auto simp: interrupt_ok_def vm_blocking_call_end_def store_interrupt_def vm_blocking_call_interrupt_def
  split: option.splits\<close>)

text \<open>C32: An interrupt is never lost: along every interleaving of a VM that begins and ends database
calls with a thread that interrupts it, once the interrupter is done the VM is not blocked in a call
that was not cancelled, and every call it tries to begin from the moment the flag is set is refused.\<close>

theorem interrupt_reaches_blocked_call:
  assumes "interrupt_step\<^sup>*\<^sup>* (\<lparr>blocking_flag = Some False, blocking_call_kind = 0, blocking_call_handle = 0, cancelled = []\<rparr>, Waiting) (vm, p)"
  shows "(p = Finished \<longrightarrow> blocking_call_handle vm = 0 \<or> blocking_call_handle vm \<in> set (cancelled vm)) \<and>
    (p \<noteq> Waiting \<longrightarrow> vm_blocking_call_begin vm kind handle = (False, vm))"
proof -
  have "interrupt_ok (vm, p)"
    using assms
  proof (induction rule: rtranclp_induct)
    case base
    then show ?case by (auto simp: interrupt_ok_def intro!: exI [of _ False])
  next
    case (step s s')
    then show ?case using interrupt_step_ok by blast
  qed
  then show ?thesis by (auto simp: interrupt_ok_def vm_blocking_call_begin_def)
qed

theorem interrupt_reaches_blocked_call_witness:
  "interrupt_step\<^sup>*\<^sup>*
     (\<lparr>blocking_flag = Some False, blocking_call_kind = 0, blocking_call_handle = 0, cancelled = []\<rparr>, Waiting)
     (\<lparr>blocking_flag = Some True, blocking_call_kind = 1, blocking_call_handle = 7, cancelled = [7]\<rparr>, Finished) \<and>
   vm_blocking_call_begin \<lparr>blocking_flag = Some True, blocking_call_kind = 1, blocking_call_handle = 7, cancelled = [7]\<rparr>
     2 9 = (False, \<lparr>blocking_flag = Some True, blocking_call_kind = 1, blocking_call_handle = 7, cancelled = [7]\<rparr>)"
proof -
  let ?v0 = "\<lparr>blocking_flag = Some False, blocking_call_kind = 0, blocking_call_handle = 0, cancelled = []\<rparr>"
  let ?v1 = "\<lparr>blocking_flag = Some False, blocking_call_kind = 1, blocking_call_handle = 7, cancelled = []\<rparr>"
  let ?v2 = "\<lparr>blocking_flag = Some True, blocking_call_kind = 1, blocking_call_handle = 7, cancelled = []\<rparr>"
  let ?v3 = "\<lparr>blocking_flag = Some True, blocking_call_kind = 1, blocking_call_handle = 7, cancelled = [7]\<rparr>"
  have "interrupt_step (?v0, Waiting) (?v1, Waiting)"
    by (rule call_begin [of 1 7 _ True]) (simp_all add: vm_blocking_call_begin_def DIAMOND_BLOCKING_SQLITE_def)
  moreover have "interrupt_step (?v1, Waiting) (?v2, Flagged)"
    using set_flag [of ?v1] by (simp add: store_interrupt_def)
  moreover have "interrupt_step (?v2, Flagged) (?v3, Finished)"
    using cancel_call [of ?v2] by (simp add: vm_blocking_call_interrupt_def DIAMOND_BLOCKING_SQLITE_def)
  ultimately have "interrupt_step\<^sup>*\<^sup>* (?v0, Waiting) (?v3, Finished)"
    by (meson converse_rtranclp_into_rtranclp rtranclp.rtrancl_refl)
  then show ?thesis using interrupt_reaches_blocked_call [of ?v3 Finished 2 9] by simp
qed

section \<open>Waits\<close>

lemma poll_loop_slices:
  assumes "poll_loop timeout_ms deadline_ns turns slices = Some (status, ready, slices')"
    "\<forall>s \<in> set slices. 0 \<le> s \<and> s \<le> 20" "0 \<le> deadline_ns" "deadline_ns < 9223372036853775808"
    "\<forall>(flag, now, poll) \<in> set turns. 0 \<le> now \<and> now < 9223372036854775808"
  shows "\<forall>s \<in> set slices'. 0 \<le> s \<and> s \<le> 20"
  using assms(1,2,5)
proof (induction turns arbitrary: slices)
  case (Cons turn turns)
  obtain flag now poll where t: "turn = (flag, now, poll)" by (cases turn)
  have n: "0 \<le> now" "now < 9223372036854775808" using Cons(4) t by auto
  let ?slice = "poll_slice timeout_ms (s64 (deadline_ns - now))"
  have d: "s64 (deadline_ns - now) = deadline_ns - now" using assms(3,4) n by (intro s64_id) simp_all
  have ok: "0 \<le> ?slice \<and> ?slice \<le> 20" if "\<not> (timeout_ms \<ge> 0 \<and> s64 (deadline_ns - now) \<le> 0)"
  proof (cases "timeout_ms \<ge> 0")
    case True
    then have p: "0 < deadline_ns - now" using that d by simp
    then have "s64 (deadline_ns - now + 999999) = deadline_ns - now + 999999" using assms(4) n by (intro s64_id) simp_all
    then show ?thesis using p d by (simp add: poll_slice_def DIAMOND_INTERRUPT_SLICE_MS_def pos_imp_zdiv_nonneg_iff Let_def)
  qed (simp add: poll_slice_def DIAMOND_INTERRUPT_SLICE_MS_def Let_def)
  show ?case
  proof (cases "flag \<or> timeout_ms \<ge> 0 \<and> s64 (deadline_ns - now) \<le> 0")
    case True
    then show ?thesis using Cons(2,3) t by (auto simp: Let_def split: if_splits)
  next
    case False
    then have s: "\<forall>s \<in> set (slices @ [?slice]). 0 \<le> s \<and> s \<le> 20" using ok Cons(3) by auto
    have nf: "\<not> flag" "\<not> (timeout_ms \<ge> 0 \<and> s64 (deadline_ns - now) \<le> 0)" using False by blast+
    have eq: "poll_loop timeout_ms deadline_ns (turn # turns) slices =
        (if poll ?slice \<noteq> 0 then Some (DIAMOND_VM_OK, poll ?slice, slices @ [?slice])
         else poll_loop timeout_ms deadline_ns turns (slices @ [?slice]))"
      unfolding t poll_loop.simps Let_def if_not_P [OF nf(1)] if_not_P [OF nf(2)] by (rule refl)
    show ?thesis
    proof (cases "poll ?slice = 0")
      case True
      then have "poll_loop timeout_ms deadline_ns turns (slices @ [?slice]) = Some (status, ready, slices')"
        using Cons(2) eq by simp
      moreover have "\<forall>(flag, now, poll) \<in> set turns. 0 \<le> now \<and> now < 9223372036854775808" using Cons(4) by simp
      ultimately show ?thesis using Cons(1) [OF _ s] by blast
    next
      case nonzero: False
      then have "slices' = slices @ [?slice]" using Cons(2) eq by simp
      then show ?thesis using s by simp
    qed
  qed
qed simp

lemma poll_loop_stopped:
  "\<exists>st r sl. poll_loop timeout_ms deadline_ns (turns @ (True, now, poll) # rest) slices = Some (st, r, slices @ sl) \<and>
    st \<in> {DIAMOND_VM_OK, DIAMOND_VM_INTERRUPTED} \<and> length sl \<le> length turns"
proof (induction turns arbitrary: slices)
  case (Cons turn turns)
  obtain flag t p where turn: "turn = (flag, t, p)" by (cases turn)
  let ?s = "poll_slice timeout_ms (s64 (deadline_ns - t))"
  obtain st r sl where ih: "poll_loop timeout_ms deadline_ns (turns @ (True, now, poll) # rest) (slices @ [?s]) =
      Some (st, r, (slices @ [?s]) @ sl)" "st \<in> {DIAMOND_VM_OK, DIAMOND_VM_INTERRUPTED}" "length sl \<le> length turns"
    using Cons.IH [of "slices @ [?s]"] by blast
  consider "flag" | "\<not> flag" "timeout_ms \<ge> 0 \<and> s64 (deadline_ns - t) \<le> 0"
    | "\<not> flag" "\<not> (timeout_ms \<ge> 0 \<and> s64 (deadline_ns - t) \<le> 0)" "p ?s \<noteq> 0"
    | "\<not> flag" "\<not> (timeout_ms \<ge> 0 \<and> s64 (deadline_ns - t) \<le> 0)" "p ?s = 0" by blast
  then show ?case
  proof cases
    case 1
    then show ?thesis using turn by auto
  next
    case 2
    then show ?thesis using turn by auto
  next
    case 3
    then show ?thesis by (simp add: turn Let_def if_not_P [OF 3(2)])
  next
    case 4
    then show ?thesis
      using ih by (intro exI [of _ st] exI [of _ r] exI [of _ "?s # sl"]) (simp add: turn Let_def if_not_P [OF 4(2)])
  qed
qed auto

text \<open>A turn in which nothing happens: the flag is clear, the deadline is ahead, nothing is ready.\<close>

definition quiet_poll :: "int \<Rightarrow> int \<Rightarrow> bool \<times> int \<times> (int \<Rightarrow> int) \<Rightarrow> bool" where
  "quiet_poll timeout_ms deadline_ns turn \<longleftrightarrow>
     (case turn of (flag, t, poll) \<Rightarrow> \<not> flag \<and> (timeout_ms < 0 \<or> t < deadline_ns) \<and> (\<forall>s. poll s = 0))"

definition quiet_fd :: "bool \<times> (int \<Rightarrow> int) \<Rightarrow> bool" where
  "quiet_fd turn \<longleftrightarrow> (case turn of (flag, poll) \<Rightarrow> \<not> flag \<and> (\<forall>s. poll s = 0))"

lemma poll_loop_quiet:
  assumes "list_all (quiet_poll timeout_ms deadline_ns) turns" "0 \<le> deadline_ns" "deadline_ns < 9223372036853775808"
    "\<forall>(flag, t, p) \<in> set turns. 0 \<le> t \<and> t < 9223372036854775808"
  shows "\<exists>sl. poll_loop timeout_ms deadline_ns (turns @ (True, now, poll) # rest) slices =
      Some (DIAMOND_VM_INTERRUPTED, 0, slices @ sl) \<and> length sl = length turns"
  using assms(1,4)
proof (induction turns arbitrary: slices)
  case (Cons turn turns)
  obtain flag t p where turn: "turn = (flag, t, p)" by (cases turn)
  let ?s = "poll_slice timeout_ms (s64 (deadline_ns - t))"
  have q: "\<not> flag" "timeout_ms < 0 \<or> t < deadline_ns" "p s = 0" "0 \<le> t" for s
    using Cons.prems turn by (auto simp: quiet_poll_def)
  have "s64 (deadline_ns - t) = deadline_ns - t" if "t < deadline_ns"
    using that assms(2,3) q(4) by (intro s64_id) simp_all
  then have n: "\<not> (timeout_ms \<ge> 0 \<and> s64 (deadline_ns - t) \<le> 0)" using q(2) by auto
  obtain sl where ih: "poll_loop timeout_ms deadline_ns (turns @ (True, now, poll) # rest) (slices @ [?s]) =
      Some (DIAMOND_VM_INTERRUPTED, 0, (slices @ [?s]) @ sl)" "length sl = length turns"
    using Cons.IH [of "slices @ [?s]"] Cons.prems by auto
  show ?case
    using ih q(1,3) by (intro exI [of _ "?s # sl"]) (simp add: turn Let_def if_not_P [OF n])
qed auto

lemma wait_fd_stopped:
  "\<exists>st n. wait_fd_loop (turns @ (True, poll) # rest) slices = Some (st, slices @ replicate n DIAMOND_INTERRUPT_SLICE_MS) \<and>
     st \<in> {DIAMOND_VM_OK, DIAMOND_VM_INTERRUPTED} \<and> n \<le> length turns \<and>
     (list_all quiet_fd turns \<longrightarrow> st = DIAMOND_VM_INTERRUPTED \<and> n = length turns)"
proof (induction turns arbitrary: slices)
  case (Cons turn turns)
  obtain flag p where turn: "turn = (flag, p)" by (cases turn)
  obtain st n where ih: "wait_fd_loop (turns @ (True, poll) # rest) (slices @ [DIAMOND_INTERRUPT_SLICE_MS]) =
      Some (st, (slices @ [DIAMOND_INTERRUPT_SLICE_MS]) @ replicate n DIAMOND_INTERRUPT_SLICE_MS)"
    "st \<in> {DIAMOND_VM_OK, DIAMOND_VM_INTERRUPTED}" "n \<le> length turns"
    "list_all quiet_fd turns \<longrightarrow> st = DIAMOND_VM_INTERRUPTED \<and> n = length turns"
    using Cons.IH [of "slices @ [DIAMOND_INTERRUPT_SLICE_MS]"] by blast
  consider "flag" | "\<not> flag" "p DIAMOND_INTERRUPT_SLICE_MS \<noteq> 0" | "\<not> flag" "p DIAMOND_INTERRUPT_SLICE_MS = 0" by blast
  then show ?case
  proof cases
    case 1
    then show ?thesis using turn by (intro exI [of _ DIAMOND_VM_INTERRUPTED] exI [of _ 0]) (simp add: quiet_fd_def)
  next
    case 2
    then show ?thesis using turn by (intro exI [of _ DIAMOND_VM_OK] exI [of _ 1]) (auto simp: quiet_fd_def)
  next
    case 3
    then show ?thesis using turn ih by (intro exI [of _ st] exI [of _ "Suc n"]) simp
  qed
qed auto

text \<open>C35: Interruptible waits: a VM with an interrupt flag returns from each of its waits at the
latest in the turn in which the flag is seen set, having slept at most one slice of 20 ms in each
earlier turn, and the status is INTERRUPTED when nothing became ready and no deadline passed in the
turns before. A \<open>poll\<close> never sleeps longer than a slice on any path. A channel wait with the flag set
returns INTERRUPTED at once; otherwise it sleeps at most 20 ms and returns INTERRUPTED when it times
out with the flag set.\<close>

theorem interruptible_waits:
  assumes "interrupt_flag vm \<noteq> None" "0 \<le> now" "0 \<le> timeout_ms \<longrightarrow> now + timeout_ms * 1000000 < 9223372036853775808"
    "\<forall>(flag, t, p) \<in> set (turns @ (True, later, p') # rest). 0 \<le> t \<and> t < 9223372036854775808"
  shows "(\<exists>st r sl. poll_interruptible vm now timeout_ms poll (turns @ (True, later, p') # rest) = Some (st, r, sl) \<and>
      st \<in> {DIAMOND_VM_OK, DIAMOND_VM_INTERRUPTED} \<and> length sl \<le> length turns \<and> (\<forall>s \<in> set sl. 0 \<le> s \<and> s \<le> 20) \<and>
      (list_all (quiet_poll timeout_ms (now + timeout_ms * 1000000)) turns \<longrightarrow>
         st = DIAMOND_VM_INTERRUPTED \<and> r = 0 \<and> length sl = length turns)) \<and>
    (poll_interruptible vm now timeout_ms poll turns = Some (status, ready, slices) \<longrightarrow> (\<forall>s \<in> set slices. 0 \<le> s \<and> s \<le> 20)) \<and>
    (\<exists>st n. wait_fd_interruptible vm (fd_turns @ (True, fd_poll) # fd_rest) = Some (st, replicate n 20) \<and>
      st \<in> {DIAMOND_VM_OK, DIAMOND_VM_INTERRUPTED} \<and> n \<le> length fd_turns \<and>
      (list_all quiet_fd fd_turns \<longrightarrow> st = DIAMOND_VM_INTERRUPTED \<and> n = length fd_turns)) \<and>
    channel_wait_bounded now later later' True flag_after timed_out vm = (Some 0, DIAMOND_VM_INTERRUPTED, vm) \<and>
    (\<exists>ms st vm'. channel_wait_bounded now later later' False flag_after timed_out vm = (Some ms, st, vm') \<and> ms \<le> 20 \<and>
      (timed_out \<and> flag_after \<longrightarrow> st = DIAMOND_VM_INTERRUPTED \<and> vm' = vm))"
    (is "?poll \<and> ?slices \<and> ?fd \<and> ?set \<and> ?channel")
proof -
  let ?d = "if timeout_ms < 0 then 0 else s64 (now + timeout_ms * 1000000)"
  let ?all = "turns @ (True, later, p') # rest"
  have d: "0 \<le> ?d" "?d < 9223372036853775808" "0 \<le> timeout_ms \<Longrightarrow> ?d = now + timeout_ms * 1000000"
    using assms(2,3) by (auto simp: s64_id)
  have clock: "\<forall>(flag, t, p) \<in> set turns. 0 \<le> t \<and> t < 9223372036854775808" using assms(4) by simp
  obtain f where f: "interrupt_flag vm = Some f" using assms(1) by blast
  have eq: "poll_interruptible vm now timeout_ms poll ts = poll_loop timeout_ms ?d ts []" for ts
    using f by (simp add: poll_interruptible_def)
  have slices: "\<forall>s \<in> set slices. 0 \<le> s \<and> s \<le> 20"
    if "poll_interruptible vm now timeout_ms poll ts = Some (status, ready, slices)"
      "\<forall>(flag, t, p) \<in> set ts. 0 \<le> t \<and> t < 9223372036854775808" for ts status ready slices
    using poll_loop_slices [OF that(1) [unfolded eq] _ d(1,2) that(2)] by simp
  obtain st r sl where s: "poll_interruptible vm now timeout_ms poll ?all = Some (st, r, sl)"
    "st \<in> {DIAMOND_VM_OK, DIAMOND_VM_INTERRUPTED}" "length sl \<le> length turns"
    using poll_loop_stopped [of timeout_ms ?d turns later p' rest "[]"] unfolding eq by auto
  have quiet: "list_all (quiet_poll timeout_ms ?d) turns"
    if "list_all (quiet_poll timeout_ms (now + timeout_ms * 1000000)) turns"
    using that d(3) by (cases "0 \<le> timeout_ms") (auto simp: list_all_iff quiet_poll_def)
  have "st = DIAMOND_VM_INTERRUPTED \<and> r = 0 \<and> length sl = length turns"
    if "list_all (quiet_poll timeout_ms (now + timeout_ms * 1000000)) turns"
    using poll_loop_quiet [OF quiet [OF that] d(1,2) clock, of later p' rest "[]"] s(1) unfolding eq by auto
  then have ?poll using s slices [OF s(1) assms(4)] by blast
  moreover have ?slices using slices [OF _ clock] by blast
  moreover have ?fd
    using wait_fd_stopped [of fd_turns fd_poll fd_rest "[]"] f
    by (simp add: wait_fd_interruptible_def DIAMOND_INTERRUPT_SLICE_MS_def)
  moreover have ?set
    using f by (cases "bound_wait_by_wall_budget now vm (- 1)") (simp add: channel_wait_bounded_def)
  moreover have ?channel
    using f
    by (cases "bound_wait_by_wall_budget now vm (- 1)"; cases "wall_budget_after_wait later later' vm")
      (auto simp: channel_wait_bounded_def DIAMOND_INTERRUPT_SLICE_MS_def Let_def)
  ultimately show ?thesis by blast
qed

theorem interruptible_waits_witness:
  "\<exists>vm. interrupt_flag vm = Some False \<and>
     (\<exists>sl. poll_interruptible vm 0 50 (\<lambda>_. 0) [(False, 0, \<lambda>_. 0), (True, 20000000, \<lambda>_. 0)] =
        Some (DIAMOND_VM_INTERRUPTED, 0, sl) \<and> length sl = 1)"
proof -
  obtain vm :: DiamondVm where vm: "interrupt_flag vm = Some False"
    by (metis DiamondVm.select_convs(19))
  have "list_all (quiet_poll 50 (0 + 50 * 1000000)) [(False, 0, \<lambda>_. 0)]" by (simp add: quiet_poll_def)
  then show ?thesis
    using conjunct1 [OF interruptible_waits [of vm 0 50 "[(False, 0, \<lambda>_. 0)]" 20000000 "\<lambda>_. 0" "[]" "\<lambda>_. 0"]] vm
    by auto
qed

end
