(* ===== verification/Spec2Isabelle.thy ===== *)
theory Spec2Isabelle
  imports Bignum_Words Facet Lexer_Tokens Crypto_Vm Manifest Budget_Ledger Interrupts
begin

text \<open>
  Verification of the Diamond runtime.
\<close>

end
